(* ===== verification/MBT_Prelude.thy ===== *)
theory MBT_Prelude
  imports Main "HOL-Library.Word" "HOL-Library.Monad_Syntax"
begin

text \<open>
  Shared vocabulary of the development: bytes and C strings, the little-endian
  images of the integer types the code copies with \<^verbatim>\<open>memcpy\<close>, block copies with a
  bounds check, and the generic facts about lists that the components use.

  Conventions used everywhere:
  \<^item> a C value that the code only compares or stores is an \<open>int\<close> (\<^verbatim>\<open>int64_t\<close>,
    \<^verbatim>\<open>int\<close>) or a \<open>nat\<close> (\<^verbatim>\<open>size_t\<close>); where the code relies on the width, the
    width is written out (\<open>in_int64\<close>, \<open>int32\<close>, \<open>size_t\<close>) or the value is a machine word;
  \<^item> the result \<open>None\<close> of a function that models C code is a fault: an access
    outside an object, a use of a null pointer, or a failed \<^verbatim>\<open>assert\<close>;
  \<^item> \<open>Some\<close> holds the values the C function returns and the objects it changed.
\<close>

named_theorems mbt_simps \<open>defining equations of the model's operations\<close>

type_synonym byte = "8 word"

type_synonym ptr = nat

subsection \<open>Integers and their memory images\<close>

definition in_int64 :: "int \<Rightarrow> bool" where
  "in_int64 i \<longleftrightarrow> - (2 ^ 63) \<le> i \<and> i < 2 ^ 63"

definition in_int32 :: "int \<Rightarrow> bool" where
  "in_int32 i \<longleftrightarrow> - (2 ^ 31) \<le> i \<and> i < 2 ^ 31"

text \<open>
  The build passes \<^verbatim>\<open>-fwrapv\<close> to the compiler (\<^verbatim>\<open>src/Makefile.global\<close>), so a signed \<^verbatim>\<open>int\<close> wraps as
  an unsigned type does: \<open>int32\<close> is the value of an \<^verbatim>\<open>int\<close> expression, or of a conversion to \<^verbatim>\<open>int\<close>,
  whose exact value is given; \<open>size_t\<close> is the same for the 64-bit \<^verbatim>\<open>size_t\<close>.
\<close>

definition int32 :: "int \<Rightarrow> int" where
  "int32 i = (i + 2 ^ 31) mod 2 ^ 32 - 2 ^ 31"

definition size_t :: "nat \<Rightarrow> nat" where
  "size_t n = n mod 2 ^ 64"

lemma int32_id [simp]: "in_int32 i \<Longrightarrow> int32 i = i"
  by (simp add: int32_def in_int32_def)

lemma in_int32_int32: "in_int32 (int32 i)"
  using pos_mod_bound [of "2 ^ 32" "i + 2 ^ 31"] by (simp add: int32_def in_int32_def)

lemma int32_add: "int32 (int32 i + j) = int32 (i + j)"
proof -
  have "(int32 i + j + 2 ^ 31) mod 2 ^ 32 = ((i + 2 ^ 31) mod 2 ^ 32 + j) mod 2 ^ 32"
    by (simp add: int32_def algebra_simps)
  also have "\<dots> = (i + 2 ^ 31 + j) mod 2 ^ 32" by (rule mod_add_left_eq)
  also have "i + 2 ^ 31 + j = i + j + 2 ^ 31" by simp
  finally show ?thesis by (simp add: int32_def)
qed

lemma size_t_id [simp]: "n < 2 ^ 64 \<Longrightarrow> size_t n = n"
  by (simp add: size_t_def)

lemma size_t_less: "size_t n < 2 ^ 64"
  by (simp add: size_t_def)

text \<open>The remainder of C: it takes the sign of the dividend.\<close>

definition c_rem :: "int \<Rightarrow> int \<Rightarrow> int" where
  "c_rem a b = sgn a * (\<bar>a\<bar> mod \<bar>b\<bar>)"

text \<open>The quotient of C: it is rounded towards zero.\<close>

definition c_div :: "int \<Rightarrow> int \<Rightarrow> int" where
  "c_div a b = sgn a * sgn b * (\<bar>a\<bar> div \<bar>b\<bar>)"

text \<open>\<open>nat_le k n\<close>: the \<open>k\<close> bytes of \<open>n\<close>, least significant first.\<close>

primrec nat_le :: "nat \<Rightarrow> nat \<Rightarrow> byte list" where
  "nat_le 0 n = []"
| "nat_le (Suc k) n = word_of_nat (n mod 256) # nat_le k (n div 256)"

primrec le_nat :: "byte list \<Rightarrow> nat" where
  "le_nat [] = 0"
| "le_nat (b # bs) = unat b + 256 * le_nat bs"

definition int64_le :: "int \<Rightarrow> byte list" where
  "int64_le i = nat_le 8 (nat (i mod 2 ^ 64))"

definition le_int64 :: "byte list \<Rightarrow> int" where
  "le_int64 bs = (let n = int (le_nat (take 8 bs)) in if n < 2 ^ 63 then n else n - 2 ^ 64)"

definition int32_le :: "int \<Rightarrow> byte list" where
  "int32_le i = nat_le 4 (nat (i mod 2 ^ 32))"

definition le_int32 :: "byte list \<Rightarrow> int" where
  "le_int32 bs = (let n = int (le_nat (take 4 bs)) in if n < 2 ^ 31 then n else n - 2 ^ 32)"

definition size_le :: "nat \<Rightarrow> byte list" where
  "size_le n = nat_le 8 n"

definition le_size :: "byte list \<Rightarrow> nat" where
  "le_size bs = le_nat (take 8 bs)"

definition u16_le :: "nat \<Rightarrow> byte list" where
  "u16_le n = nat_le 2 n"

definition le_u16 :: "byte list \<Rightarrow> nat" where
  "le_u16 bs = le_nat (take 2 bs)"

subsection \<open>Memory blocks and C strings\<close>

text \<open>\<open>blit dst off src\<close>: \<^verbatim>\<open>memcpy(dst + off, src, n)\<close> with the \<open>n\<close> source bytes given.\<close>

definition blit :: "'a list \<Rightarrow> nat \<Rightarrow> 'a list \<Rightarrow> 'a list option" where
  "blit dst off src =
     (if off + length src \<le> length dst
      then Some (take off dst @ src @ drop (off + length src) dst) else None)"

text \<open>\<open>slice xs off n\<close>: the \<open>n\<close> cells read from offset \<open>off\<close>.\<close>

definition slice :: "'a list \<Rightarrow> nat \<Rightarrow> nat \<Rightarrow> 'a list option" where
  "slice xs off n = (if off + n \<le> length xs then Some (take n (drop off xs)) else None)"

text \<open>An array read and an array write with the bounds check that C leaves out.\<close>

definition aget :: "'a list \<Rightarrow> int \<Rightarrow> 'a option" where
  "aget xs i = (if 0 \<le> i \<and> i < int (length xs) then Some (xs ! nat i) else None)"

definition aput :: "'a list \<Rightarrow> int \<Rightarrow> 'a \<Rightarrow> 'a list option" where
  "aput xs i v = (if 0 \<le> i \<and> i < int (length xs) then Some (xs[nat i := v]) else None)"

text \<open>The string a buffer holds: the bytes before the first NUL.\<close>

definition cstr :: "byte list \<Rightarrow> byte list" where
  "cstr b = takeWhile (\<lambda>c. c \<noteq> 0) b"

definition strlen :: "byte list \<Rightarrow> nat" where
  "strlen b = length (cstr b)"

definition strcpy :: "byte list \<Rightarrow> byte list \<Rightarrow> byte list option" where
  "strcpy dst src = blit dst 0 (cstr src @ [0])"

definition strcat :: "byte list \<Rightarrow> byte list \<Rightarrow> byte list option" where
  "strcat dst src = blit dst (strlen dst) (cstr src @ [0])"

text \<open>
  \<^verbatim>\<open>strncpy(dst, src, n)\<close> copies at most \<open>n\<close> bytes of the string and pads the
  \<open>n\<close> bytes with NUL.
\<close>

definition strncpy :: "byte list \<Rightarrow> byte list \<Rightarrow> nat \<Rightarrow> byte list option" where
  "strncpy dst src n =
     (let s = take n (cstr src) in blit dst 0 (s @ replicate (n - length s) 0))"

text \<open>\<^verbatim>\<open>strcpy(arr[j], src)\<close> for an array of buffers.\<close>

definition put_str :: "byte list list \<Rightarrow> int \<Rightarrow> byte list \<Rightarrow> byte list list option" where
  "put_str arr j src = do { d \<leftarrow> aget arr j; d' \<leftarrow> strcpy d src; aput arr j d' }"

text \<open>\<^verbatim>\<open>for (i = lo; i < hi; i++)\<close> and \<^verbatim>\<open>for (i = hi; i > lo; i--)\<close> with a bound the body does not change.\<close>

function for_up :: "int \<Rightarrow> int \<Rightarrow> (int \<Rightarrow> 's \<Rightarrow> 's option) \<Rightarrow> 's \<Rightarrow> 's option" where
  "for_up i hi body s = (if i < hi then body i s \<bind> for_up (i + 1) hi body else Some s)"
  by pat_completeness auto
termination by (relation "measure (\<lambda>(i, hi, _). nat (hi - i))") auto

function for_down :: "int \<Rightarrow> int \<Rightarrow> (int \<Rightarrow> 's \<Rightarrow> 's option) \<Rightarrow> 's \<Rightarrow> 's option" where
  "for_down i lo body s = (if i > lo then body i s \<bind> for_down (i - 1) lo body else Some s)"
  by pat_completeness auto
termination by (relation "measure (\<lambda>(i, lo, _). nat (i - lo))") auto

declare for_up.simps [simp del] for_down.simps [simp del]

lemma for_up_first: "n < m \<Longrightarrow> for_up (int n) (int m) f s = f (int n) s \<bind> for_up (int (Suc n)) (int m) f"
  by (simp add: for_up.simps [of "int n"] add.commute)

lemma for_up_none: "m \<le> n \<Longrightarrow> for_up n m f = Some"
  by (rule ext) (simp add: for_up.simps)

lemma for_up_snoc: "n \<le> m \<Longrightarrow> for_up (int n) (int (Suc m)) f s = for_up (int n) (int m) f s \<bind> f (int m)"
proof (induction "m - n" arbitrary: n s)
  case 0
  then have "m = n" by simp
  then show ?case using for_up_first [of n "Suc n" f s] by (simp add: for_up_none del: of_nat_Suc)
next
  case (Suc d)
  then have "n < m" by simp
  then have IH: "for_up (int (Suc n)) (int (Suc m)) f = (\<lambda>s'. for_up (int (Suc n)) (int m) f s' \<bind> f (int m))"
    using Suc.hyps(1) [of "Suc n"] Suc.hyps(2) by (intro ext) (simp del: of_nat_Suc)
  have "for_up (int n) (int (Suc m)) f s = f (int n) s \<bind> for_up (int (Suc n)) (int (Suc m)) f"
    by (rule for_up_first) (use \<open>n < m\<close> in simp)
  also have "\<dots> = for_up (int n) (int m) f s \<bind> f (int m)"
    unfolding IH for_up_first [OF \<open>n < m\<close>] Option.bind_assoc by (rule refl)
  finally show ?case .
qed

lemma for_up0_snoc: "for_up 0 (int (Suc n)) f s = for_up 0 (int n) f s \<bind> f (int n)"
  using for_up_snoc [of 0 n f s] by simp

lemma for_up_fails:
  assumes "for_up 0 (int i) f s = Some t" "f (int i) t = None" "i < n"
  shows "for_up 0 (int n) f s = None"
  using assms(3)
proof (induction n)
  case (Suc n)
  show ?case
  proof (cases "i = n")
    case True
    then show ?thesis unfolding for_up0_snoc using assms(1,2) by simp
  next
    case False
    then have "for_up 0 (int n) f s = None" using Suc by simp
    then show ?thesis unfolding for_up0_snoc by simp
  qed
qed simp

text \<open>The states of a loop, one after the other.\<close>

lemma for_up_states:
  assumes "\<And>i. i < n \<Longrightarrow> f (int i) (S i) = Some (S (Suc i))"
  shows "for_up 0 (int n) f (S 0) = Some (S n)"
  using assms
proof (induction n)
  case (Suc n)
  have "for_up 0 (int n) f (S 0) = Some (S n)" using Suc.prems by (intro Suc.IH) simp
  then show ?case unfolding for_up0_snoc using Suc.prems [of n] by simp
qed (simp add: for_up_none)

definition ascii :: "string \<Rightarrow> byte list" where
  "ascii s = map (\<lambda>c. word_of_nat (of_char c)) s"

subsection \<open>Facts about the memory images\<close>

lemma c_div_nonneg [simp]: "0 \<le> a \<Longrightarrow> 0 < b \<Longrightarrow> c_div a b = a div b"
  by (simp add: c_div_def sgn_if)

lemma length_nat_le [simp]: "length (nat_le k n) = k"
  by (induction k arbitrary: n) simp_all

lemma le_nat_nat_le: "le_nat (nat_le k n) = n mod 256 ^ k"
proof (induction k arbitrary: n)
  case 0
  show ?case by simp
next
  case (Suc k)
  have byte: "unat (word_of_nat (n mod 256) :: byte) = n mod 256"
    by (simp add: unat_of_nat)
  have "le_nat (nat_le (Suc k) n) = n mod 256 + 256 * (n div 256 mod 256 ^ k)"
    using Suc.IH byte by simp
  also have "\<dots> = n mod 256 ^ Suc k"
    using mod_mult2_eq [of n 256 "256 ^ k"] by (simp add: ac_simps)
  finally show ?case .
qed

lemma le_nat_nat_le_id: "n < 256 ^ k \<Longrightarrow> le_nat (nat_le k n) = n"
  by (simp add: le_nat_nat_le)

lemma length_int64_le [simp]: "length (int64_le i) = 8"
  by (simp add: int64_le_def)

lemma length_int32_le [simp]: "length (int32_le i) = 4"
  by (simp add: int32_le_def)

lemma length_size_le [simp]: "length (size_le n) = 8"
  by (simp add: size_le_def)

lemma length_u16_le [simp]: "length (u16_le n) = 2"
  by (simp add: u16_le_def)

lemma le_int64_int64_le [simp]:
  assumes "in_int64 i"
  shows "le_int64 (int64_le i @ bs) = i"
proof -
  have "le_nat (take 8 (int64_le i @ bs)) = nat (i mod 2 ^ 64)"
    by (simp add: int64_le_def le_nat_nat_le_id nat_less_iff)
  then show ?thesis
    using assms by (simp add: le_int64_def in_int64_def Let_def mod_pos_pos_trivial)
      (smt (verit, best) mod_add_self2 mod_pos_pos_trivial)
qed

lemma le_int32_int32_le [simp]:
  assumes "in_int32 i"
  shows "le_int32 (int32_le i @ bs) = i"
proof -
  have "le_nat (take 4 (int32_le i @ bs)) = nat (i mod 2 ^ 32)"
    by (simp add: int32_le_def le_nat_nat_le_id nat_less_iff)
  then show ?thesis
    using assms by (simp add: le_int32_def in_int32_def Let_def)
      (smt (verit, best) mod_add_self2 mod_pos_pos_trivial)
qed

lemma le_size_size_le [simp]: "n < 2 ^ 64 \<Longrightarrow> le_size (size_le n @ bs) = n"
  by (simp add: le_size_def size_le_def le_nat_nat_le_id)

lemma le_u16_u16_le [simp]: "n < 2 ^ 16 \<Longrightarrow> le_u16 (u16_le n @ bs) = n"
  by (simp add: le_u16_def u16_le_def le_nat_nat_le_id)

end
