(* ===== verification/PgVector.thy ===== *)
theory PgVector
  imports MBT_Prelude
begin

text \<open>
  The growable array of \<^verbatim>\<open>src/backend/mbt/pgvector.c\<close> (header
  \<^verbatim>\<open>src/include/mbt/pgvector.h\<close>), byte for byte: a vector is its three \<^verbatim>\<open>size_t\<close>
  fields and the block its \<^verbatim>\<open>data\<close> pointer owns (\<open>None\<close> for a null pointer), and an
  element is the run of bytes \<^verbatim>\<open>memcpy\<close> reads at the address the caller passes.

  The allocator is an argument \<open>mal\<close>: \<open>mal n\<close> is the block a \<^verbatim>\<open>malloc(n)\<close> returns, with
  whatever bytes it happens to hold, or \<open>None\<close>. The fields and the products are \<^verbatim>\<open>size_t\<close> values
  and wrap at 64 bits; a difference is written without the wrap where a test before it rules the
  wrap out. A copy of no bytes is defined whatever its addresses are. The vector arguments themselves are
  addresses of objects in every call of the program, so their null checks are not
  modelled. The build does not define \<^verbatim>\<open>NDEBUG\<close>: a failed \<^verbatim>\<open>assert\<close> aborts, which is
  the result \<open>None\<close>.
\<close>

record pgvector =
  vsize :: nat
  vcapacity :: nat
  velement_size :: nat
  vdata :: "byte list option"

record Iterator =
  it_pointer :: "int option"
  it_element_size :: nat

definition VECTOR_MINIMUM_CAPACITY :: nat where
  "VECTOR_MINIMUM_CAPACITY = 2"

definition VECTOR_GROWTH_FACTOR :: nat where
  "VECTOR_GROWTH_FACTOR = 2"

definition VECTOR_SHRINK_THRESHOLD :: nat where
  "VECTOR_SHRINK_THRESHOLD = 1 div 4"

definition VECTOR_ERROR :: int where
  "VECTOR_ERROR = -1"

definition VECTOR_SUCCESS :: int where
  "VECTOR_SUCCESS = 0"

type_synonym malloc = "nat \<Rightarrow> byte list option"

subsection \<open>Information\<close>

definition vector_is_initialized :: "pgvector \<Rightarrow> bool" where
  "vector_is_initialized v \<longleftrightarrow> vdata v \<noteq> None"

definition vector_byte_size :: "pgvector \<Rightarrow> nat" where
  "vector_byte_size v = size_t (vsize v * velement_size v)"

definition vector_free_space :: "pgvector \<Rightarrow> nat" where
  "vector_free_space v = size_t (vcapacity v + 2 ^ 64 - vsize v)"

definition vector_is_empty :: "pgvector \<Rightarrow> bool" where
  "vector_is_empty v \<longleftrightarrow> vsize v = 0"

subsection \<open>Private helpers\<close>

definition vector_should_grow :: "pgvector \<Rightarrow> bool option" where
  "vector_should_grow v =
     (if vsize v \<le> vcapacity v then Some (vsize v = vcapacity v) else None)"

definition vector_should_shrink :: "pgvector \<Rightarrow> bool option" where
  "vector_should_shrink v =
     (if vsize v \<le> vcapacity v then Some (vsize v = vcapacity v * VECTOR_SHRINK_THRESHOLD)
      else None)"

definition vector_free_bytes :: "pgvector \<Rightarrow> nat" where
  "vector_free_bytes v = size_t (vector_free_space v * velement_size v)"

definition vector_offset :: "pgvector \<Rightarrow> nat \<Rightarrow> nat" where
  "vector_offset v index = size_t (index * velement_size v)"

definition vector_assign_raw :: "pgvector \<Rightarrow> nat \<Rightarrow> byte list \<Rightarrow> pgvector option" where
  "vector_assign_raw v index element =
     do { d \<leftarrow> vdata v;
          src \<leftarrow> slice element 0 (velement_size v);
          d' \<leftarrow> blit d (vector_offset v index) src;
          Some (v\<lparr>vdata := Some d'\<rparr>) }"

definition vector_move_right :: "pgvector \<Rightarrow> nat \<Rightarrow> pgvector option" where
  "vector_move_right v index =
     (if vsize v < vcapacity v then
        do { d \<leftarrow> vdata v;
             src \<leftarrow> slice d (vector_offset v index) (size_t ((vsize v - index) * velement_size v));
             d' \<leftarrow> blit d (vector_offset v index + velement_size v) src;
             Some (v\<lparr>vdata := Some d'\<rparr>) }
      else None)"

definition vector_move_left :: "pgvector \<Rightarrow> nat \<Rightarrow> pgvector option" where
  "vector_move_left v index =
     do { d \<leftarrow> vdata v;
          src \<leftarrow> slice d (vector_offset v index + velement_size v)
                   (size_t ((vsize v - index - 1) * velement_size v));
          d' \<leftarrow> blit d (vector_offset v index) src;
          Some (v\<lparr>vdata := Some d'\<rparr>) }"

definition vector_reallocate :: "malloc \<Rightarrow> pgvector \<Rightarrow> nat \<Rightarrow> (int \<times> pgvector) option" where
  "vector_reallocate mal v new_capacity =
     (let noop = new_capacity < VECTOR_MINIMUM_CAPACITY \<and> vcapacity v \<le> VECTOR_MINIMUM_CAPACITY;
          cap = (if new_capacity < VECTOR_MINIMUM_CAPACITY then VECTOR_MINIMUM_CAPACITY
                 else new_capacity)
      in if noop then Some (VECTOR_SUCCESS, v)
         else (case mal (size_t (cap * velement_size v)) of
                 None \<Rightarrow> Some (VECTOR_ERROR, v\<lparr>vdata := None\<rparr>)
               | Some blk \<Rightarrow>
                   do { src \<leftarrow> (if vector_byte_size v = 0 then Some []
                               else do { old \<leftarrow> vdata v; slice old 0 (vector_byte_size v) });
                        d' \<leftarrow> blit blk 0 src;
                        Some (VECTOR_SUCCESS, v\<lparr>vdata := Some d', vcapacity := cap\<rparr>) }))"

definition vector_adjust_capacity :: "malloc \<Rightarrow> pgvector \<Rightarrow> (int \<times> pgvector) option" where
  "vector_adjust_capacity mal v = vector_reallocate mal v (max 1 (size_t (vsize v * VECTOR_GROWTH_FACTOR)))"

text \<open>The shared prefix of \<^verbatim>\<open>vector_push_back\<close> and \<^verbatim>\<open>vector_insert\<close>: grow when full.\<close>

definition vector_make_room :: "malloc \<Rightarrow> pgvector \<Rightarrow> (int \<times> pgvector) option" where
  "vector_make_room mal v =
     do { grow \<leftarrow> vector_should_grow v;
          if grow then vector_adjust_capacity mal v else Some (VECTOR_SUCCESS, v) }"

definition vector_swap_size :: "nat \<Rightarrow> nat \<Rightarrow> nat \<times> nat" where
  "vector_swap_size first second = (second, first)"

subsection \<open>Construction, copying, destruction\<close>

definition vector_setup :: "malloc \<Rightarrow> nat \<Rightarrow> nat \<Rightarrow> int \<times> pgvector" where
  "vector_setup mal capacity element_size =
     (let cap = max VECTOR_MINIMUM_CAPACITY capacity;
          d = mal (size_t (cap * element_size))
      in (if d = None then VECTOR_ERROR else VECTOR_SUCCESS,
          \<lparr>vsize = 0, vcapacity = cap, velement_size = element_size, vdata = d\<rparr>))"

definition vector_destroy :: "pgvector \<Rightarrow> int \<times> pgvector" where
  "vector_destroy v = (VECTOR_SUCCESS, v\<lparr>vdata := None\<rparr>)"

definition vector_copy :: "malloc \<Rightarrow> pgvector \<Rightarrow> pgvector \<Rightarrow> (int \<times> pgvector) option" where
  "vector_copy mal destination source =
     (if \<not> vector_is_initialized source then None
      else if vector_is_initialized destination then None
      else
        (let dest = destination\<lparr>vsize := vsize source, vcapacity := size_t (vsize source * 2),
                                velement_size := velement_size source\<rparr>
         in case mal (size_t (vcapacity dest * velement_size source)) of
              None \<Rightarrow> Some (VECTOR_ERROR, dest\<lparr>vdata := None\<rparr>)
            | Some blk \<Rightarrow>
                do { d \<leftarrow> vdata source;
                     src \<leftarrow> slice d 0 (vector_byte_size source);
                     d' \<leftarrow> blit blk 0 src;
                     Some (VECTOR_SUCCESS, dest\<lparr>vdata := Some d'\<rparr>) }))"

definition vector_copy_assign :: "malloc \<Rightarrow> pgvector \<Rightarrow> pgvector \<Rightarrow> (int \<times> pgvector) option" where
  "vector_copy_assign mal destination source =
     (if \<not> vector_is_initialized source then None
      else if \<not> vector_is_initialized destination then None
      else vector_copy mal (snd (vector_destroy destination)) source)"

definition vector_move :: "pgvector \<Rightarrow> pgvector \<Rightarrow> int \<times> pgvector \<times> pgvector" where
  "vector_move destination source = (VECTOR_SUCCESS, source, source\<lparr>vdata := None\<rparr>)"

definition vector_swap :: "pgvector \<Rightarrow> pgvector \<Rightarrow> (int \<times> pgvector \<times> pgvector) option" where
  "vector_swap destination source =
     (if \<not> vector_is_initialized source then None
      else if \<not> vector_is_initialized destination then None
      else
        (let (ds, ss) = vector_swap_size (vsize destination) (vsize source);
             (dc, sc) = vector_swap_size (vcapacity destination) (vcapacity source);
             (de, se) = vector_swap_size (velement_size destination) (velement_size source)
         in Some (VECTOR_SUCCESS,
              \<lparr>vsize = ds, vcapacity = dc, velement_size = de, vdata = vdata source\<rparr>,
              \<lparr>vsize = ss, vcapacity = sc, velement_size = se, vdata = vdata destination\<rparr>)))"

definition vector_move_assign :: "pgvector \<Rightarrow> pgvector \<Rightarrow> (int \<times> pgvector \<times> pgvector) option" where
  "vector_move_assign destination source =
     do { (rc, dest, src) \<leftarrow> vector_swap destination source;
          let (rc', src') = vector_destroy src;
          Some (rc', dest, src') }"

subsection \<open>Insertion\<close>

definition vector_push_back ::
    "malloc \<Rightarrow> pgvector \<Rightarrow> byte list \<Rightarrow> (int \<times> pgvector) option" where
  "vector_push_back mal v element =
     do { (rc, v1) \<leftarrow> vector_make_room mal v;
          if rc = VECTOR_ERROR then Some (VECTOR_ERROR, v1)
          else do { v2 \<leftarrow> vector_assign_raw v1 (vsize v1) element;
                    Some (VECTOR_SUCCESS, v2\<lparr>vsize := size_t (vsize v2 + 1)\<rparr>) } }"

definition vector_insert ::
    "malloc \<Rightarrow> pgvector \<Rightarrow> nat \<Rightarrow> byte list \<Rightarrow> (int \<times> pgvector) option" where
  "vector_insert mal v index element =
     (if \<not> index \<le> vsize v then None
      else if velement_size v = 0 then Some (VECTOR_ERROR, v)
      else
        do { (rc, v1) \<leftarrow> vector_make_room mal v;
             if rc = VECTOR_ERROR then Some (VECTOR_ERROR, v1)
             else do { v2 \<leftarrow> vector_move_right v1 index;
                       v3 \<leftarrow> vector_assign_raw v2 index element;
                       Some (VECTOR_SUCCESS, v3\<lparr>vsize := size_t (vsize v3 + 1)\<rparr>) } })"

definition vector_push_front ::
    "malloc \<Rightarrow> pgvector \<Rightarrow> byte list \<Rightarrow> (int \<times> pgvector) option" where
  "vector_push_front mal v element = vector_insert mal v 0 element"

definition vector_assign :: "pgvector \<Rightarrow> nat \<Rightarrow> byte list \<Rightarrow> (int \<times> pgvector) option" where
  "vector_assign v index element =
     (if \<not> index < vsize v then None
      else if velement_size v = 0 then Some (VECTOR_ERROR, v)
      else do { v1 \<leftarrow> vector_assign_raw v index element; Some (VECTOR_SUCCESS, v1) })"

subsection \<open>Deletion and resizing\<close>

definition vector_pop_back :: "malloc \<Rightarrow> pgvector \<Rightarrow> (int \<times> pgvector) option" where
  "vector_pop_back mal v =
     (if \<not> vsize v > 0 then None
      else if velement_size v = 0 then Some (VECTOR_ERROR, v)
      else
        (let v1 = v\<lparr>vsize := vsize v - 1\<rparr> in
         do { shrink \<leftarrow> vector_should_shrink v1;
              (rc, v2) \<leftarrow> (if shrink then vector_adjust_capacity mal v1
                           else Some (VECTOR_SUCCESS, v1));
              Some (VECTOR_SUCCESS, v2) }))"

definition vector_erase :: "malloc \<Rightarrow> pgvector \<Rightarrow> nat \<Rightarrow> (int \<times> pgvector) option" where
  "vector_erase mal v index =
     (if \<not> index < vsize v then None
      else if velement_size v = 0 then Some (VECTOR_ERROR, v)
      else
        do { v1 \<leftarrow> vector_move_left v index;
             let v2 = v1\<lparr>vsize := vsize v1 - 1\<rparr>;
             (rc, v3) \<leftarrow> (if vsize v2 = vcapacity v2 div 4 then vector_adjust_capacity mal v2
                          else Some (VECTOR_SUCCESS, v2));
             Some (VECTOR_SUCCESS, v3) })"

definition vector_pop_front :: "malloc \<Rightarrow> pgvector \<Rightarrow> (int \<times> pgvector) option" where
  "vector_pop_front mal v = vector_erase mal v 0"

definition vector_resize :: "malloc \<Rightarrow> pgvector \<Rightarrow> nat \<Rightarrow> (int \<times> pgvector) option" where
  "vector_resize mal v new_size =
     do { (rc, v1) \<leftarrow>
            (if new_size \<le> vcapacity v * VECTOR_SHRINK_THRESHOLD then
               vector_reallocate mal (v\<lparr>vsize := new_size\<rparr>) (size_t (new_size * VECTOR_GROWTH_FACTOR))
             else if new_size > vcapacity v then
               vector_reallocate mal v (size_t (new_size * VECTOR_GROWTH_FACTOR))
             else Some (VECTOR_SUCCESS, v));
          if rc = VECTOR_ERROR then Some (VECTOR_ERROR, v1)
          else Some (VECTOR_SUCCESS, v1\<lparr>vsize := new_size\<rparr>) }"

definition vector_clear :: "malloc \<Rightarrow> pgvector \<Rightarrow> (int \<times> pgvector) option" where
  "vector_clear mal v = vector_resize mal v 0"

definition vector_reserve :: "malloc \<Rightarrow> pgvector \<Rightarrow> nat \<Rightarrow> (int \<times> pgvector) option" where
  "vector_reserve mal v minimum_capacity =
     (if minimum_capacity > vcapacity v then
        do { (rc, v1) \<leftarrow> vector_reallocate mal v minimum_capacity;
             if rc = VECTOR_ERROR then Some (VECTOR_ERROR, v1) else Some (VECTOR_SUCCESS, v1) }
      else Some (VECTOR_SUCCESS, v))"

definition vector_shrink_to_fit :: "malloc \<Rightarrow> pgvector \<Rightarrow> (int \<times> pgvector) option" where
  "vector_shrink_to_fit mal v = vector_reallocate mal v (vsize v)"

subsection \<open>Lookup\<close>

text \<open>
  A returned element address is its offset in the block (the inner \<open>None\<close> is the null
  pointer the code returns for a vector with element size 0); \<open>vector_deref\<close> reads the
  element there.
\<close>

definition vector_get :: "pgvector \<Rightarrow> nat \<Rightarrow> nat option option" where
  "vector_get v index =
     (if \<not> index < vsize v then None
      else if velement_size v = 0 then Some None
      else Some (Some (vector_offset v index)))"

definition vector_const_get :: "pgvector \<Rightarrow> nat \<Rightarrow> nat option option" where
  "vector_const_get v index =
     (if \<not> index < vsize v then None
      else if velement_size v = 0 then Some None
      else Some (Some (vector_offset v index)))"

definition vector_front :: "pgvector \<Rightarrow> nat option option" where
  "vector_front v = vector_get v 0"

definition vector_back :: "pgvector \<Rightarrow> nat option option" where
  "vector_back v = vector_get v (if vsize v = 0 then 2 ^ 64 - 1 else vsize v - 1)"

definition vector_deref :: "pgvector \<Rightarrow> nat option option \<Rightarrow> byte list option" where
  "vector_deref v p =
     do { a \<leftarrow> p; off \<leftarrow> a; d \<leftarrow> vdata v; slice d off (velement_size v) }"

subsection \<open>Iterators\<close>

definition vector_iterator :: "pgvector \<Rightarrow> nat \<Rightarrow> Iterator option" where
  "vector_iterator v index =
     (if \<not> index \<le> vsize v then None
      else if velement_size v = 0 then Some \<lparr>it_pointer = None, it_element_size = 0\<rparr>
      else Some \<lparr>it_pointer = Some (int (vector_offset v index)),
                 it_element_size = velement_size v\<rparr>)"

definition vector_begin :: "pgvector \<Rightarrow> Iterator option" where
  "vector_begin v = vector_iterator v 0"

definition vector_end :: "pgvector \<Rightarrow> Iterator option" where
  "vector_end v = vector_iterator v (vsize v)"

definition iterator_get :: "Iterator \<Rightarrow> int option" where
  "iterator_get it = it_pointer it"

definition iterator_increment :: "Iterator \<Rightarrow> Iterator option" where
  "iterator_increment it =
     do { p \<leftarrow> it_pointer it; Some (it\<lparr>it_pointer := Some (p + int (it_element_size it))\<rparr>) }"

definition iterator_decrement :: "Iterator \<Rightarrow> Iterator option" where
  "iterator_decrement it =
     do { p \<leftarrow> it_pointer it; Some (it\<lparr>it_pointer := Some (p - int (it_element_size it))\<rparr>) }"

definition iterator_next :: "Iterator \<Rightarrow> (int option \<times> Iterator) option" where
  "iterator_next it =
     (let current = it_pointer it in do { it' \<leftarrow> iterator_increment it; Some (current, it') })"

definition iterator_previous :: "Iterator \<Rightarrow> (int option \<times> Iterator) option" where
  "iterator_previous it =
     (let current = it_pointer it in do { it' \<leftarrow> iterator_decrement it; Some (current, it') })"

definition iterator_equals :: "Iterator \<Rightarrow> Iterator \<Rightarrow> bool option" where
  "iterator_equals first second =
     (if it_element_size first = it_element_size second
      then Some (it_pointer first = it_pointer second) else None)"

definition iterator_is_before :: "Iterator \<Rightarrow> Iterator \<Rightarrow> bool option" where
  "iterator_is_before first second =
     (if it_element_size first = it_element_size second
      then do { p \<leftarrow> it_pointer first; q \<leftarrow> it_pointer second; Some (p < q) } else None)"

definition iterator_is_after :: "Iterator \<Rightarrow> Iterator \<Rightarrow> bool option" where
  "iterator_is_after first second =
     (if it_element_size first = it_element_size second
      then do { p \<leftarrow> it_pointer first; q \<leftarrow> it_pointer second; Some (p > q) } else None)"

text \<open>\<^verbatim>\<open>VECTOR_FOR_EACH\<close>: the addresses visited from an iterator up to the end, with fuel.\<close>

primrec vector_for_each :: "nat \<Rightarrow> Iterator \<Rightarrow> Iterator \<Rightarrow> int list option" where
  "vector_for_each 0 it en = None"
| "vector_for_each (Suc fuel) it en =
     do { stop \<leftarrow> iterator_equals it en;
          if stop then Some []
          else do { p \<leftarrow> iterator_get it;
                    it' \<leftarrow> iterator_increment it;
                    ps \<leftarrow> vector_for_each fuel it' en;
                    Some (p # ps) } }"

subsection \<open>The abstract sequence\<close>

text \<open>The first \<open>n\<close> elements of \<open>es\<close> bytes each.\<close>

definition chunks :: "nat \<Rightarrow> nat \<Rightarrow> 'a list \<Rightarrow> 'a list list" where
  "chunks es n d = map (\<lambda>i. take es (drop (i * es) d)) [0..<n]"

definition vec_elems :: "pgvector \<Rightarrow> byte list list" where
  "vec_elems v = (case vdata v of None \<Rightarrow> [] | Some d \<Rightarrow> chunks (velement_size v) (vsize v) d)"

definition vec_ok :: "pgvector \<Rightarrow> bool" where
  "vec_ok v \<longleftrightarrow>
     VECTOR_MINIMUM_CAPACITY \<le> vcapacity v \<and> vsize v \<le> vcapacity v \<and> 0 < velement_size v \<and>
     (case vdata v of None \<Rightarrow> False | Some d \<Rightarrow> length d = vcapacity v * velement_size v \<and> length d < 2 ^ 64)"

text \<open>A client's sequence of calls, on the vector and on the list it stands for.\<close>

datatype vec_op =
    PushBack "byte list"
  | PushFront "byte list"
  | Insert nat "byte list"
  | Assign nat "byte list"
  | PopBack
  | PopFront
  | Erase nat
  | Clear

definition succeeded :: "(int \<times> pgvector) option \<Rightarrow> pgvector option" where
  "succeeded r = do { (rc, v) \<leftarrow> r; if rc = VECTOR_SUCCESS then Some v else None }"

primrec vec_step :: "malloc \<Rightarrow> pgvector \<Rightarrow> vec_op \<Rightarrow> pgvector option" where
  "vec_step mal v (PushBack e) = succeeded (vector_push_back mal v e)"
| "vec_step mal v (PushFront e) = succeeded (vector_push_front mal v e)"
| "vec_step mal v (Insert i e) = succeeded (vector_insert mal v i e)"
| "vec_step mal v (Assign i e) = succeeded (vector_assign v i e)"
| "vec_step mal v PopBack = succeeded (vector_pop_back mal v)"
| "vec_step mal v PopFront = succeeded (vector_pop_front mal v)"
| "vec_step mal v (Erase i) = succeeded (vector_erase mal v i)"
| "vec_step mal v Clear = succeeded (vector_clear mal v)"

text \<open>On lists of elements of \<open>es\<close> bytes; \<open>None\<close> where the call is out of contract.\<close>

definition guarded :: "bool \<Rightarrow> 'a \<Rightarrow> 'a option" where
  "guarded c x = (if c then Some x else None)"

primrec list_step :: "nat \<Rightarrow> byte list list \<Rightarrow> vec_op \<Rightarrow> byte list list option" where
  "list_step es xs (PushBack e) = guarded (length e = es) (xs @ [e])"
| "list_step es xs (PushFront e) = guarded (length e = es) (e # xs)"
| "list_step es xs (Insert i e) =
     guarded (length e = es \<and> i \<le> length xs) (take i xs @ e # drop i xs)"
| "list_step es xs (Assign i e) = guarded (length e = es \<and> i < length xs) (xs[i := e])"
| "list_step es xs PopBack = guarded (xs \<noteq> []) (butlast xs)"
| "list_step es xs PopFront = guarded (xs \<noteq> []) (tl xs)"
| "list_step es xs (Erase i) = guarded (i < length xs) (take i xs @ drop (Suc i) xs)"
| "list_step es xs Clear = Some []"

primrec vec_run :: "malloc \<Rightarrow> pgvector \<Rightarrow> vec_op list \<Rightarrow> pgvector option" where
  "vec_run mal v [] = Some v"
| "vec_run mal v (opn # ops) = do { v' \<leftarrow> vec_step mal v opn; vec_run mal v' ops }"

primrec list_run :: "nat \<Rightarrow> byte list list \<Rightarrow> vec_op list \<Rightarrow> byte list list option" where
  "list_run es xs [] = Some xs"
| "list_run es xs (opn # ops) = do { xs' \<leftarrow> list_step es xs opn; list_run es xs' ops }"

subsection \<open>The interface: a growable sequence\<close>

text \<open>
  What the clients of the vector rely on (\<^verbatim>\<open>set_node_id\<close>, the verification objects and
  their serialisation): appending elements that fit, and reading by index. \<open>room s n\<close> says that
  memory is left for \<open>n\<close> more elements.
\<close>

locale growable_seq =
  fixes inv :: "'s \<Rightarrow> bool"
    and elems :: "'s \<Rightarrow> 'e list"
    and fits :: "'s \<Rightarrow> 'e \<Rightarrow> bool"
    and room :: "'s \<Rightarrow> nat \<Rightarrow> bool"
    and push :: "'s \<Rightarrow> 'e \<Rightarrow> 's option"
    and read_at :: "'s \<Rightarrow> nat \<Rightarrow> 'e option"
  assumes push_law: "inv s \<Longrightarrow> fits s e \<Longrightarrow> room s (Suc n) \<Longrightarrow>
      \<exists>s'. push s e = Some s' \<and> inv s' \<and> elems s' = elems s @ [e] \<and> fits s' = fits s \<and> room s' n"
    and read_law: "inv s \<Longrightarrow> i < length (elems s) \<Longrightarrow> read_at s i = Some (elems s ! i)"
begin

primrec push_all :: "'s \<Rightarrow> 'e list \<Rightarrow> 's option" where
  "push_all s [] = Some s"
| "push_all s (e # es) = Option.bind (push s e) (\<lambda>s'. push_all s' es)"

lemma push_all_elems:
  "inv s \<Longrightarrow> \<forall>e \<in> set es. fits s e \<Longrightarrow> room s (length es) \<Longrightarrow>
     \<exists>s'. push_all s es = Some s' \<and> inv s' \<and> elems s' = elems s @ es \<and> fits s' = fits s"
proof (induction es arbitrary: s)
  case Nil
  then show ?case by simp
next
  case (Cons e es)
  then obtain s1 where s1: "push s e = Some s1" "inv s1" "elems s1 = elems s @ [e]" "fits s1 = fits s"
      "room s1 (length es)"
    using push_law [of s e "length es"] by auto
  with Cons show ?case using Cons.IH [of s1] by auto
qed

lemma read_pushed:
  assumes "inv s" and "\<forall>e \<in> set es. fits s e" and "room s (length es)" and "push_all s es = Some s'" and "i < length es"
  shows "read_at s' (length (elems s) + i) = Some (es ! i)"
  using push_all_elems [OF assms(1-3)] assms(4,5) by (auto simp: read_law nth_append)

end

subsection \<open>Chunks of a block\<close>

lemma length_chunks [simp]: "length (chunks es n d) = n"
  by (simp add: chunks_def)

lemma nth_chunks: "i < n \<Longrightarrow> chunks es n d ! i = take es (drop (i * es) d)"
  by (simp add: chunks_def)

lemma chunk_end: "i < n \<Longrightarrow> i * es + es \<le> n * (es::nat)"
  by (metis Suc_leI add.commute mult_Suc mult_le_mono1)

lemma chunks_cong:
  assumes "\<And>j. j < n * es \<Longrightarrow> d ! j = d' ! j" and "n * es \<le> length d" and "n * es \<le> length d'"
  shows "chunks es n d = chunks es n d'"
proof (rule nth_equalityI)
  fix i assume "i < length (chunks es n d)"
  then have i: "i < n" by simp
  note e = chunk_end [OF i, of es]
  have "take es (drop (i * es) d) = take es (drop (i * es) d')"
    using e assms by (intro nth_equalityI) auto
  with i show "chunks es n d ! i = chunks es n d' ! i" by (simp add: nth_chunks)
qed simp

lemma nth_blit:
  assumes "blit d off src = Some d'" and "j < length d"
  shows "d' ! j = (if off \<le> j \<and> j < off + length src then src ! (j - off) else d ! j)"
  using assms by (auto simp: blit_def nth_append split: if_splits)

lemma length_blit: "blit d off src = Some d' \<Longrightarrow> length d' = length d"
  by (auto simp: blit_def split: if_splits)

lemma blit_Some: "off + length src \<le> length d \<Longrightarrow> \<exists>d'. blit d off src = Some d'"
  by (simp add: blit_def)

text \<open>The chunk at index \<open>i\<close> as a run of cells.\<close>

lemma chunk_nth_cell:
  "i < n \<Longrightarrow> n * es \<le> length d \<Longrightarrow> c < es \<Longrightarrow> chunks es n d ! i ! c = d ! (i * es + c)"
  using chunk_end [of i n es] by (simp add: nth_chunks)

lemma length_chunk: "i < n \<Longrightarrow> n * es \<le> length d \<Longrightarrow> length (chunks es n d ! i) = es"
  using chunk_end [of i n es] by (simp add: nth_chunks)

text \<open>Two blocks whose elements agree, cell by cell.\<close>

lemma chunks_eqI:
  assumes "length xs = n" and "n * es \<le> length d"
    and "\<And>i. i < n \<Longrightarrow> length (xs ! i) = es"
    and "\<And>i c. i < n \<Longrightarrow> c < es \<Longrightarrow> d ! (i * es + c) = xs ! i ! c"
  shows "chunks es n d = xs"
proof (rule nth_equalityI)
  fix i assume "i < length (chunks es n d)"
  then have i: "i < n" by simp
  show "chunks es n d ! i = xs ! i"
    by (rule nth_equalityI) (use i assms in \<open>auto simp: length_chunk chunk_nth_cell\<close>)
qed (simp add: assms)

text \<open>Which chunk a cell belongs to.\<close>

lemma cell_less: "i < m \<Longrightarrow> c < es \<Longrightarrow> i * es + c < m * (es::nat)"
  using chunk_end [of i m es] by linarith

lemma cell_ge: "m \<le> i \<Longrightarrow> m * es \<le> i * es + (c::nat)"
  by (simp add: mult_le_mono1 trans_le_add1)

subsection \<open>The operations on a well-formed vector\<close>

text \<open>
  An allocator that grants the requests of up to \<open>limit\<close> bytes. A \<^verbatim>\<open>malloc\<close> refuses what exceeds
  \<^verbatim>\<open>PTRDIFF_MAX\<close>.
\<close>

locale allocator =
  fixes mal :: malloc and limit :: nat
  assumes malloc_block: "n \<le> limit \<Longrightarrow> \<exists>blk. mal n = Some blk \<and> length blk = n"
    and limit_bound: "limit < 2 ^ 63"

definition malloc_zeroed :: malloc where
  "malloc_zeroed n = (if n < 2 ^ 63 then Some (replicate n 0) else None)"

interpretation zeroed: allocator malloc_zeroed "2 ^ 63 - 1"
  by unfold_locales (simp_all add: malloc_zeroed_def)

lemma vec_okE:
  assumes "vec_ok v"
  obtains d where "vdata v = Some d" and "length d = vcapacity v * velement_size v"
    and "vsize v \<le> vcapacity v" and "0 < velement_size v"
    and "VECTOR_MINIMUM_CAPACITY \<le> vcapacity v" and "length d < 2 ^ 64"
  using assms by (auto simp: vec_ok_def split: option.splits)

lemma length_vec_elems: "vec_ok v \<Longrightarrow> length (vec_elems v) = vsize v"
  by (auto simp: vec_elems_def elim: vec_okE)

lemma used_bytes: "vsize v \<le> vcapacity v \<Longrightarrow> vsize v * es \<le> vcapacity v * es"
  by (rule mult_le_mono1)

text \<open>Inside the capacity no product wraps, and the size can be counted.\<close>

lemma count_less: "0 < es \<Longrightarrow> n * es < b \<Longrightarrow> n < b" for n es b :: nat
  by (rule le_less_trans [of n "n * es"]) simp_all

lemma vec_ok_bytes:
  assumes "vec_ok v" and "i \<le> vcapacity v"
  shows "size_t (i * velement_size v) = i * velement_size v"
proof -
  from assms(1) obtain d where "vdata v = Some d" "length d = vcapacity v * velement_size v" "length d < 2 ^ 64" by (rule vec_okE)
  then have "i * velement_size v < 2 ^ 64" using mult_le_mono1 [OF assms(2), of "velement_size v"] by linarith
  then show ?thesis by simp
qed

lemma vec_ok_capacity:
  assumes "vec_ok v" shows "vcapacity v < 2 ^ 64"
proof -
  from assms obtain d where d: "length d = vcapacity v * velement_size v" "length d < 2 ^ 64" "0 < velement_size v"
    "vdata v = Some d" by (rule vec_okE)
  show ?thesis by (rule count_less [OF d(3)]) (use d(1,2) in simp)
qed

text \<open>Writing one element inside the capacity.\<close>

lemma vector_assign_raw_ok:
  assumes "vec_ok v" and "index < vcapacity v" and "velement_size v \<le> length e"
  shows "\<exists>d d'. vdata v = Some d \<and> vector_assign_raw v index e = Some (v\<lparr>vdata := Some d'\<rparr>) \<and>
           length d' = length d \<and>
           (\<forall>j < length d. d' ! j =
              (if index * velement_size v \<le> j \<and> j < index * velement_size v + velement_size v
               then e ! (j - index * velement_size v) else d ! j))"
proof -
  from assms(1) obtain d where d: "vdata v = Some d" "length d = vcapacity v * velement_size v"
    by (rule vec_okE)
  let ?src = "take (velement_size v) e"
  have "index * velement_size v + length ?src \<le> length d"
    using chunk_end [OF assms(2), of "velement_size v"] assms(3) d(2) by simp
  then obtain d' where d': "blit d (index * velement_size v) ?src = Some d'"
    using blit_Some by blast
  show ?thesis
    using d d' assms(3) nth_blit [OF d'] length_blit [OF d']
    by (intro exI [of _ d] exI [of _ d'])
      (auto simp: vector_assign_raw_def slice_def vector_offset_def vec_ok_bytes [OF assms(1)] assms(2) less_imp_le)
qed

lemma vec_ok_data:
  "vec_ok v \<Longrightarrow> vdata v = Some d \<Longrightarrow> length d' = length d \<Longrightarrow> vec_ok (v\<lparr>vdata := Some d'\<rparr>)"
  by (auto simp: vec_ok_def)

lemma vector_assign_spec:
  assumes "vec_ok v" and "index < vsize v" and "length e = velement_size v"
  shows "\<exists>v'. vector_assign v index e = Some (VECTOR_SUCCESS, v') \<and> vec_ok v' \<and>
           velement_size v' = velement_size v \<and> vec_elems v' = (vec_elems v)[index := e]"
proof -
  let ?es = "velement_size v"
  from assms(1) have le: "vsize v \<le> vcapacity v" and es: "0 < ?es" by (auto elim: vec_okE)
  then obtain d d' where d: "vdata v = Some d"
    and asg: "vector_assign_raw v index e = Some (v\<lparr>vdata := Some d'\<rparr>)"
    and len: "length d' = length d"
    and nth: "\<And>j. j < length d \<Longrightarrow>
      d' ! j = (if index * ?es \<le> j \<and> j < index * ?es + ?es then e ! (j - index * ?es) else d ! j)"
    using vector_assign_raw_ok [OF assms(1), of index e] assms by auto
  have dlen: "vsize v * ?es \<le> length d"
    using assms(1) d le by (auto elim!: vec_okE)
  have "chunks ?es (vsize v) d' = (chunks ?es (vsize v) d)[index := e]"
  proof (rule chunks_eqI)
    fix i c assume i: "i < vsize v" and c: "c < ?es"
    have "i * ?es + c < length d" using cell_less [OF i c] dlen by simp
    then show "d' ! (i * ?es + c) = (chunks ?es (vsize v) d)[index := e] ! i ! c"
      using i c nth [of "i * ?es + c"] cell_less [of i index c ?es] cell_ge [of "Suc index" i ?es c]
        chunk_nth_cell [OF i dlen c] assms(2)
      by (cases i index rule: linorder_cases) (auto simp: nth_list_update)
  qed (use dlen len assms in \<open>auto simp: nth_list_update length_chunk\<close>)
  then show ?thesis
    using asg assms es d len by (auto simp: vector_assign_def vec_elems_def vec_ok_data)
qed

context allocator
begin

lemma within_limit: "n \<le> limit \<Longrightarrow> n < 2 ^ 64"
  using limit_bound by simp

lemma vector_reallocate_spec:
  assumes "vec_ok v" and "vsize v \<le> max n VECTOR_MINIMUM_CAPACITY"
    and "max n VECTOR_MINIMUM_CAPACITY * velement_size v \<le> limit"
  shows "\<exists>v'. vector_reallocate mal v n = Some (VECTOR_SUCCESS, v') \<and> vec_ok v' \<and>
           vsize v' = vsize v \<and> velement_size v' = velement_size v \<and> vec_elems v' = vec_elems v \<and>
           vcapacity v' = (if n < VECTOR_MINIMUM_CAPACITY \<and> vcapacity v \<le> VECTOR_MINIMUM_CAPACITY
                           then vcapacity v else max n VECTOR_MINIMUM_CAPACITY)"
proof (cases "n < VECTOR_MINIMUM_CAPACITY \<and> vcapacity v \<le> VECTOR_MINIMUM_CAPACITY")
  case True
  then show ?thesis using assms by (simp add: vector_reallocate_def)
next
  case False
  let ?es = "velement_size v" and ?cap = "max n VECTOR_MINIMUM_CAPACITY"
  from assms(1) obtain d where d: "vdata v = Some d" "length d = vcapacity v * ?es"
    "vsize v \<le> vcapacity v" "0 < ?es" by (rule vec_okE)
  have bytes: "?cap * ?es < 2 ^ 64" using assms(3) by (rule within_limit)
  obtain blk where blk: "mal (?cap * ?es) = Some blk" "length blk = ?cap * ?es"
    using malloc_block [OF assms(3)] by blast
  have used: "vsize v * ?es \<le> length d" and fits: "vsize v * ?es \<le> length blk"
    using d used_bytes [of v ?es] assms(2) blk(2) mult_le_mono1 [of "vsize v" ?cap ?es] by auto
  define d' where "d' = take (vsize v * ?es) d @ drop (vsize v * ?es) blk"
  have blit: "blit blk 0 (take (vsize v * ?es) d) = Some d'"
    using used fits by (simp add: blit_def d'_def)
  have cap: "(if n < VECTOR_MINIMUM_CAPACITY then VECTOR_MINIMUM_CAPACITY else n) = ?cap"
    by simp
  have same: "chunks ?es (vsize v) d' = chunks ?es (vsize v) d"
    using used fits by (intro chunks_cong) (auto simp: d'_def nth_append)
  have len: "length d' = ?cap * ?es" using used fits blk by (simp add: d'_def)
  have "vector_reallocate mal v n = Some (VECTOR_SUCCESS, v\<lparr>vdata := Some d', vcapacity := ?cap\<rparr>)"
    using False d blk used blit vec_ok_bytes [OF assms(1) d(3)] bytes
    by (auto simp: vector_reallocate_def Let_def cap slice_def vector_byte_size_def max_def)
  moreover have "vec_ok (v\<lparr>vdata := Some d', vcapacity := ?cap\<rparr>)"
    using len d assms(2) bytes by (simp add: vec_ok_def)
  ultimately show ?thesis using False same d by (auto simp: vec_elems_def)
qed

text \<open>Memory for the capacity that \<^verbatim>\<open>_vector_adjust_capacity\<close> asks for.\<close>

lemma adjust_room:
  assumes "vec_ok v" and "(2 * vsize v + 2) * velement_size v \<le> limit"
  shows "size_t (2 * vsize v) = 2 * vsize v"
    and "max (2 * vsize v) VECTOR_MINIMUM_CAPACITY * velement_size v \<le> limit"
proof -
  have "0 < velement_size v" using assms(1) by (auto elim: vec_okE)
  from count_less [OF this within_limit [OF assms(2)]]
  show "size_t (2 * vsize v) = 2 * vsize v" by simp
  have "max (2 * vsize v) VECTOR_MINIMUM_CAPACITY \<le> 2 * vsize v + 2" by (simp add: VECTOR_MINIMUM_CAPACITY_def)
  then show "max (2 * vsize v) VECTOR_MINIMUM_CAPACITY * velement_size v \<le> limit"
    using assms(2) mult_le_mono1 le_trans by blast
qed

lemma vector_make_room_spec:
  assumes "vec_ok v" and "(2 * vsize v + 2) * velement_size v \<le> limit"
  shows "\<exists>v'. vector_make_room mal v = Some (VECTOR_SUCCESS, v') \<and> vec_ok v' \<and>
           vsize v' = vsize v \<and> velement_size v' = velement_size v \<and> vec_elems v' = vec_elems v \<and>
           vsize v' < vcapacity v'"
proof -
  from assms have le: "vsize v \<le> vcapacity v" and m: "VECTOR_MINIMUM_CAPACITY \<le> vcapacity v"
    by (auto elim: vec_okE)
  show ?thesis
  proof (cases "vsize v = vcapacity v")
    case True
    with m have n: "max 1 (size_t (vsize v * VECTOR_GROWTH_FACTOR)) = 2 * vsize v" and "2 \<le> vsize v"
      and "max (2 * vsize v) VECTOR_MINIMUM_CAPACITY * velement_size v \<le> limit"
      using adjust_room [OF assms] by (auto simp: VECTOR_GROWTH_FACTOR_def VECTOR_MINIMUM_CAPACITY_def mult.commute)
    with True show ?thesis
      using vector_reallocate_spec [OF assms(1), of "2 * vsize v"]
      by (auto simp: vector_make_room_def vector_should_grow_def vector_adjust_capacity_def
          VECTOR_MINIMUM_CAPACITY_def)
  next
    case False
    with le assms show ?thesis
      by (simp add: vector_make_room_def vector_should_grow_def)
  qed
qed

lemma vector_push_back_spec:
  assumes "vec_ok v" and "length e = velement_size v" and "(2 * vsize v + 2) * velement_size v \<le> limit"
  shows "\<exists>v'. vector_push_back mal v e = Some (VECTOR_SUCCESS, v') \<and> vec_ok v' \<and>
           velement_size v' = velement_size v \<and> vec_elems v' = vec_elems v @ [e]"
proof -
  obtain w where w: "vector_make_room mal v = Some (VECTOR_SUCCESS, w)" "vec_ok w"
    "vsize w = vsize v" "velement_size w = velement_size v" "vec_elems w = vec_elems v"
    "vsize w < vcapacity w"
    using vector_make_room_spec [OF assms(1,3)] by blast
  let ?es = "velement_size w" and ?n = "vsize w"
  obtain d d' where d: "vdata w = Some d"
    and asg: "vector_assign_raw w ?n e = Some (w\<lparr>vdata := Some d'\<rparr>)"
    and len: "length d' = length d"
    and nth: "\<And>j. j < length d \<Longrightarrow>
      d' ! j = (if ?n * ?es \<le> j \<and> j < ?n * ?es + ?es then e ! (j - ?n * ?es) else d ! j)"
    using vector_assign_raw_ok [OF w(2,6), of e] assms(2) w(4) by auto
  have dlen: "Suc ?n * ?es \<le> length d"
    using w(2,6) d chunk_end [OF w(6), of ?es] by (auto elim!: vec_okE)
  have "chunks ?es (Suc ?n) d' = chunks ?es ?n d @ [e]"
  proof (rule chunks_eqI)
    fix i c assume i: "i < Suc ?n" and c: "c < ?es"
    have "i * ?es + c < length d" using cell_less [OF i c] dlen by simp
    then show "d' ! (i * ?es + c) = (chunks ?es ?n d @ [e]) ! i ! c"
      using i c nth [of "i * ?es + c"] cell_less [of i ?n c ?es] dlen chunk_nth_cell [of i ?n ?es d c]
      by (cases "i = ?n") (auto simp: nth_append)
  qed (use dlen len assms(2) w(4) in \<open>auto simp: nth_append length_chunk less_Suc_eq\<close>)
  moreover have "vec_ok (w\<lparr>vdata := Some d', vsize := Suc ?n\<rparr>)"
    using w(2,6) d len by (auto simp: vec_ok_def)
  ultimately show ?thesis
    using w d asg vec_ok_capacity [OF w(2)]
    by (auto simp: vector_push_back_def vec_elems_def VECTOR_ERROR_def VECTOR_SUCCESS_def)
qed

lemma vector_insert_spec:
  assumes "vec_ok v" and "index \<le> vsize v" and "length e = velement_size v"
    and "(2 * vsize v + 2) * velement_size v \<le> limit"
  shows "\<exists>v'. vector_insert mal v index e = Some (VECTOR_SUCCESS, v') \<and> vec_ok v' \<and>
           velement_size v' = velement_size v \<and>
           vec_elems v' = take index (vec_elems v) @ e # drop index (vec_elems v)"
proof -
  obtain w where w: "vector_make_room mal v = Some (VECTOR_SUCCESS, w)" "vec_ok w"
    "vsize w = vsize v" "velement_size w = velement_size v" "vec_elems w = vec_elems v"
    "vsize w < vcapacity w"
    using vector_make_room_spec [OF assms(1,4)] by blast
  let ?es = "velement_size w" and ?n = "vsize w"
  from w(2) obtain d where d: "vdata w = Some d" "length d = vcapacity w * ?es" "0 < ?es"
    by (rule vec_okE)
  have dlen: "Suc ?n * ?es \<le> length d" using chunk_end [OF w(6), of ?es] d(2) by simp
  have idx: "index * ?es \<le> ?n * ?es" using assms(2) w(3) by simp
  define src where "src = take ((?n - index) * ?es) (drop (index * ?es) d)"
  have srclen: "length src = ?n * ?es - index * ?es"
    using dlen by (simp add: src_def diff_mult_distrib)
  obtain d1 where d1: "blit d (index * ?es + ?es) src = Some d1"
    using blit_Some [of "index * ?es + ?es" src d] srclen dlen idx by (auto simp: add.commute)
  have d1len: "length d1 = length d" by (rule length_blit [OF d1])
  have d1nth: "j < length d \<Longrightarrow> d1 ! j = (if index * ?es + ?es \<le> j \<and> j < ?n * ?es + ?es
      then d ! (j - ?es) else d ! j)" for j
    using nth_blit [OF d1, of j] srclen dlen idx by (auto simp: src_def)
  have mr: "vector_move_right w index = Some (w\<lparr>vdata := Some d1\<rparr>)"
    using w(6) d(1) d1 dlen idx srclen vec_ok_bytes [OF w(2), of index] vec_ok_bytes [OF w(2), of "?n - index"] assms(2) w(3)
    by (simp add: vector_move_right_def slice_def vector_offset_def src_def diff_mult_distrib)
  have ok1: "vec_ok (w\<lparr>vdata := Some d1\<rparr>)" using w(2) d(1) d1len by (rule vec_ok_data)
  obtain d2 where asg: "vector_assign_raw (w\<lparr>vdata := Some d1\<rparr>) index e = Some (w\<lparr>vdata := Some d2\<rparr>)"
    and d2len: "length d2 = length d"
    and d2nth: "\<And>j. j < length d \<Longrightarrow>
      d2 ! j = (if index * ?es \<le> j \<and> j < index * ?es + ?es then e ! (j - index * ?es) else d1 ! j)"
    using vector_assign_raw_ok [OF ok1, of index e] assms(2,3) w(3,4,6) d1len by auto
  have "chunks ?es (Suc ?n) d2 = take index (chunks ?es ?n d) @ e # drop index (chunks ?es ?n d)"
  proof (rule chunks_eqI)
    fix i c assume i: "i < Suc ?n" and c: "c < ?es"
    have j: "i * ?es + c < length d" using cell_less [OF i c] dlen by simp
    show "d2 ! (i * ?es + c) = (take index (chunks ?es ?n d) @ e # drop index (chunks ?es ?n d)) ! i ! c"
    proof (cases i index rule: linorder_cases)
      case less
      then have "i < ?n" using assms(2) w(3) by simp
      then show ?thesis
        using less c j d1nth [OF j] d2nth [OF j] cell_less [OF less c] dlen
          chunk_nth_cell [of i ?n ?es d c] by (auto simp: nth_append)
    next
      case equal
      then show ?thesis
        using c j d2nth [OF j] assms(2) w(3) by (auto simp: nth_append)
    next
      case greater
      then obtain i' where i': "i = Suc i'" "index \<le> i'" by (cases i) auto
      then have "i' < ?n" using i by simp
      then show ?thesis
        using i' c j d1nth [OF j] d2nth [OF j] cell_ge [of "Suc index" i ?es c] cell_less [OF i c] dlen
          chunk_nth_cell [of i' ?n ?es d c] assms(2) w(3) by (auto simp: nth_append)
    qed
  next
    fix i assume "i < Suc ?n"
    then show "length ((take index (chunks ?es ?n d) @ e # drop index (chunks ?es ?n d)) ! i) = ?es"
      using assms(2,3) w(3,4) dlen by (auto simp: nth_append nth_Cons' length_chunk)
  qed (use dlen d2len assms(2) w(3) in auto)
  moreover have "vec_ok (w\<lparr>vdata := Some d2, vsize := Suc ?n\<rparr>)"
    using w(2,6) d d2len by (auto simp: vec_ok_def)
  ultimately show ?thesis
    using assms(2) w d mr asg vec_ok_capacity [OF w(2)]
    by (auto simp: vector_insert_def vec_elems_def VECTOR_ERROR_def VECTOR_SUCCESS_def)
qed

lemma shrink_spec:
  assumes "vec_ok v" and "(2 * vsize v + 2) * velement_size v \<le> limit"
  shows "\<exists>rc v'. (if b then vector_adjust_capacity mal v else Some (VECTOR_SUCCESS, v)) = Some (rc, v') \<and>
     vec_ok v' \<and> velement_size v' = velement_size v \<and> vec_elems v' = vec_elems v"
proof -
  have n: "max (max 1 (size_t (vsize v * VECTOR_GROWTH_FACTOR))) VECTOR_MINIMUM_CAPACITY =
      max (2 * vsize v) VECTOR_MINIMUM_CAPACITY"
    using adjust_room(1) [OF assms] by (simp add: VECTOR_GROWTH_FACTOR_def VECTOR_MINIMUM_CAPACITY_def mult.commute)
  have "vsize v \<le> max (2 * vsize v) VECTOR_MINIMUM_CAPACITY" by simp
  from vector_reallocate_spec [OF assms(1), of "max 1 (size_t (vsize v * VECTOR_GROWTH_FACTOR))", unfolded n, OF this adjust_room(2) [OF assms]]
  show ?thesis using assms(1) by (auto simp: vector_adjust_capacity_def)
qed

lemma smaller_room: "(2 * n + 2) * es \<le> limit \<Longrightarrow> m \<le> n \<Longrightarrow> (2 * m + 2) * es \<le> limit"
  using mult_le_mono1 [of "2 * m + 2" "2 * n + 2" es] by linarith

lemma vector_pop_back_spec:
  assumes "vec_ok v" and "vec_elems v \<noteq> []" and "(2 * vsize v + 2) * velement_size v \<le> limit"
  shows "\<exists>v'. vector_pop_back mal v = Some (VECTOR_SUCCESS, v') \<and> vec_ok v' \<and>
           velement_size v' = velement_size v \<and> vec_elems v' = butlast (vec_elems v)"
proof -
  let ?v1 = "v\<lparr>vsize := vsize v - 1\<rparr>"
  from assms(1) obtain d where d: "vdata v = Some d" "0 < velement_size v" by (rule vec_okE)
  have n: "vsize v > 0" using assms length_vec_elems [OF assms(1)] by (cases "vsize v") auto
  then obtain m where m: "vsize v = Suc m" by (cases "vsize v") auto
  have ok: "vec_ok ?v1" using assms(1) by (auto simp: vec_ok_def split: option.splits)
  have el: "vec_elems ?v1 = butlast (vec_elems v)"
    using d m by (simp add: vec_elems_def chunks_def)
  obtain rc v' where "(if vsize ?v1 = vcapacity ?v1 * VECTOR_SHRINK_THRESHOLD
      then vector_adjust_capacity mal ?v1 else Some (VECTOR_SUCCESS, ?v1)) = Some (rc, v')"
    "vec_ok v'" "velement_size v' = velement_size v" "vec_elems v' = vec_elems ?v1"
    using shrink_spec [OF ok, of "vsize ?v1 = vcapacity ?v1 * VECTOR_SHRINK_THRESHOLD"] smaller_room [OF assms(3), of m] m by auto
  moreover have "vsize ?v1 \<le> vcapacity ?v1" using ok by (auto elim: vec_okE)
  ultimately show ?thesis
    using n d el by (auto simp: vector_pop_back_def vector_should_shrink_def Let_def)
qed

lemma vector_erase_spec:
  assumes "vec_ok v" and "index < vsize v" and "(2 * vsize v + 2) * velement_size v \<le> limit"
  shows "\<exists>v'. vector_erase mal v index = Some (VECTOR_SUCCESS, v') \<and> vec_ok v' \<and>
           velement_size v' = velement_size v \<and>
           vec_elems v' = take index (vec_elems v) @ drop (Suc index) (vec_elems v)"
proof -
  let ?es = "velement_size v"
  from assms(1) obtain d where d: "vdata v = Some d" "length d = vcapacity v * ?es" "0 < ?es"
    "vsize v \<le> vcapacity v" by (rule vec_okE)
  obtain m where m: "vsize v = Suc m" using assms(2) by (cases "vsize v") auto
  have im: "index \<le> m" using assms(2) m by simp
  have dlen: "Suc m * ?es \<le> length d" using d used_bytes [of v ?es] m by simp
  have idx: "index * ?es \<le> m * ?es" using im by simp
  define src where "src = take ((m - index) * ?es) (drop (index * ?es + ?es) d)"
  have srclen: "length src = m * ?es - index * ?es"
    using dlen idx by (simp add: src_def diff_mult_distrib)
  obtain d1 where d1: "blit d (index * ?es) src = Some d1"
    using blit_Some [of "index * ?es" src d] srclen dlen idx by auto
  have d1len: "length d1 = length d" by (rule length_blit [OF d1])
  have d1nth: "j < m * ?es \<Longrightarrow> d1 ! j = (if index * ?es \<le> j then d ! (j + ?es) else d ! j)" for j
    using nth_blit [OF d1, of j] srclen dlen idx by (auto simp: src_def ac_simps)
  have ml: "vector_move_left v index = Some (v\<lparr>vdata := Some d1\<rparr>)"
    using d(1,4) d1 dlen idx srclen m im vec_ok_bytes [OF assms(1), of index] vec_ok_bytes [OF assms(1), of "m - index"]
    by (simp add: vector_move_left_def slice_def vector_offset_def src_def diff_mult_distrib)
  have el: "chunks ?es m d1 = take index (chunks ?es (Suc m) d) @ drop (Suc index) (chunks ?es (Suc m) d)"
  proof (rule chunks_eqI)
    fix i c assume i: "i < m" and c: "c < ?es"
    have j: "i * ?es + c < m * ?es" using cell_less [OF i c] .
    show "d1 ! (i * ?es + c) =
        (take index (chunks ?es (Suc m) d) @ drop (Suc index) (chunks ?es (Suc m) d)) ! i ! c"
    proof (cases "i < index")
      case True
      then show ?thesis
        using i c d1nth [OF j] cell_less [OF True c] dlen chunk_nth_cell [of i "Suc m" ?es d c] im
        by (auto simp: nth_append)
    next
      case False
      then show ?thesis
        using i c d1nth [OF j] cell_ge [of index i ?es c] dlen chunk_nth_cell [of "Suc i" "Suc m" ?es d c] im
        by (auto simp: nth_append ac_simps)
    qed
  next
    fix i assume "i < m"
    then show "length ((take index (chunks ?es (Suc m) d) @ drop (Suc index) (chunks ?es (Suc m) d)) ! i) = ?es"
      using im dlen by (auto simp: nth_append length_chunk)
  qed (use dlen d1len im in auto)
  let ?v2 = "v\<lparr>vdata := Some d1, vsize := m\<rparr>"
  have ok: "vec_ok ?v2" using assms(1) d d1len m by (auto simp: vec_ok_def)
  obtain rc v' where "(if m = vcapacity v div 4 then vector_adjust_capacity mal ?v2
      else Some (VECTOR_SUCCESS, ?v2)) = Some (rc, v')"
    "vec_ok v'" "velement_size v' = velement_size v" "vec_elems v' = vec_elems ?v2"
    using shrink_spec [OF ok, of "m = vcapacity v div 4"] smaller_room [OF assms(3), of m] m by auto
  then show ?thesis
    using assms(2) d ml m el by (auto simp: vector_erase_def vec_elems_def)
qed

lemma vector_clear_spec:
  assumes "vec_ok v" and "(2 * vsize v + 2) * velement_size v \<le> limit"
  shows "\<exists>v'. vector_clear mal v = Some (VECTOR_SUCCESS, v') \<and> vec_ok v' \<and>
           velement_size v' = velement_size v \<and> vec_elems v' = []"
proof -
  have ok: "vec_ok (v\<lparr>vsize := 0\<rparr>)" using assms by (auto simp: vec_ok_def split: option.splits)
  obtain w where w: "vector_reallocate mal (v\<lparr>vsize := 0\<rparr>) 0 = Some (VECTOR_SUCCESS, w)"
    "vec_ok w" "vsize w = 0" "velement_size w = velement_size v"
    using vector_reallocate_spec [OF ok, of 0] smaller_room [OF assms(2), of 0] by (auto simp: VECTOR_MINIMUM_CAPACITY_def)
  have same: "w\<lparr>vsize := 0\<rparr> = w" using w(3) by (cases w) simp
  show ?thesis
    using w length_vec_elems [OF w(2)]
    by (simp add: vector_clear_def vector_resize_def VECTOR_ERROR_def VECTOR_SUCCESS_def same size_t_def)
qed

lemma vec_step_spec:
  assumes "vec_ok v" and "list_step (velement_size v) (vec_elems v) opn = Some xs"
    and "(2 * vsize v + 2) * velement_size v \<le> limit"
  shows "\<exists>v'. vec_step mal v opn = Some v' \<and> vec_ok v' \<and> velement_size v' = velement_size v \<and>
           vec_elems v' = xs"
proof -
  note len = length_vec_elems [OF assms(1)]
  show ?thesis
    using assms(2) len vector_push_back_spec [OF assms(1) _ assms(3)] vector_insert_spec [OF assms(1) _ _ assms(3)]
      vector_assign_spec [OF assms(1)] vector_pop_back_spec [OF assms(1) _ assms(3)]
      vector_erase_spec [OF assms(1) _ assms(3)] vector_clear_spec [OF assms(1,3)]
    by (cases opn)
      (fastforce simp: succeeded_def guarded_def vector_push_front_def vector_pop_front_def drop_Suc
        split: if_splits)+
qed

lemma list_step_length: "list_step es xs opn = Some ys \<Longrightarrow> length ys \<le> Suc (length xs)"
  by (cases opn) (auto simp: guarded_def split: if_splits)

lemma vec_run_spec:
  "vec_ok v \<Longrightarrow> list_run (velement_size v) (vec_elems v) ops = Some xs \<Longrightarrow>
     (2 * (vsize v + length ops) + 2) * velement_size v \<le> limit \<Longrightarrow>
     \<exists>v'. vec_run mal v ops = Some v' \<and> vec_ok v' \<and> vec_elems v' = xs"
proof (induction ops arbitrary: v)
  case Nil
  then show ?case by simp
next
  case (Cons opn ops)
  then obtain ys where ys: "list_step (velement_size v) (vec_elems v) opn = Some ys"
    and rest: "list_run (velement_size v) ys ops = Some xs"
    by (auto split: bind_splits)
  obtain w where w: "vec_step mal v opn = Some w" "vec_ok w"
    "velement_size w = velement_size v" "vec_elems w = ys"
    using vec_step_spec [OF Cons.prems(1) ys] smaller_room [OF Cons.prems(3), of "vsize v"] by auto
  have "vsize w \<le> Suc (vsize v)"
    using list_step_length [OF ys] w(4) length_vec_elems [OF w(2)] length_vec_elems [OF Cons.prems(1)] by simp
  then have "(2 * (vsize w + length ops) + 2) * velement_size w \<le> limit"
    using smaller_room [OF Cons.prems(3), of "vsize w + length ops"] w(3) by simp
  with Cons.IH [of w] w rest show ?case by simp
qed

lemma vector_setup_spec:
  assumes "0 < es" and "max VECTOR_MINIMUM_CAPACITY n * es \<le> limit"
  shows "fst (vector_setup mal n es) = VECTOR_SUCCESS" and "vec_ok (snd (vector_setup mal n es))"
    and "vec_elems (snd (vector_setup mal n es)) = []"
    and "velement_size (snd (vector_setup mal n es)) = es"
proof -
  obtain blk where "mal (max VECTOR_MINIMUM_CAPACITY n * es) = Some blk"
    "length blk = max VECTOR_MINIMUM_CAPACITY n * es"
    using malloc_block [OF assms(2)] by blast
  moreover have "max VECTOR_MINIMUM_CAPACITY n * es < 2 ^ 64" using assms(2) by (rule within_limit)
  ultimately show "fst (vector_setup mal n es) = VECTOR_SUCCESS" and "vec_ok (snd (vector_setup mal n es))"
    and "vec_elems (snd (vector_setup mal n es)) = []"
    and "velement_size (snd (vector_setup mal n es)) = es"
    using assms by (simp_all add: vector_setup_def Let_def vec_ok_def vec_elems_def chunks_def)
qed

lemma read_elem:
  assumes "vec_ok v" and "i < length (vec_elems v)"
  shows "vector_deref v (vector_get v i) = Some (vec_elems v ! i)"
proof -
  let ?es = "velement_size v"
  from assms(1) obtain d where d: "vdata v = Some d" "length d = vcapacity v * ?es"
    "vsize v \<le> vcapacity v" "0 < ?es" by (rule vec_okE)
  have i: "i < vsize v" using assms by (simp add: length_vec_elems)
  then have "i * ?es + ?es \<le> length d"
    using chunk_end [of i "vcapacity v" ?es] d by simp
  then show ?thesis
    using d i vec_ok_bytes [OF assms(1), of i]
    by (simp add: vector_get_def vector_deref_def vector_offset_def slice_def vec_elems_def nth_chunks)
qed

end

sublocale allocator \<subseteq> vec: growable_seq vec_ok vec_elems
    "\<lambda>v e. length e = velement_size v" "\<lambda>v n. (2 * (vsize v + n) + 2) * velement_size v \<le> limit"
    "\<lambda>v e. succeeded (vector_push_back mal v e)"
    "\<lambda>v i. vector_deref v (vector_get v i)"
proof unfold_locales
  fix v :: pgvector and e :: "byte list" and n
  assume ok: "vec_ok v" and e: "length e = velement_size v"
    and room: "(2 * (vsize v + Suc n) + 2) * velement_size v \<le> limit"
  obtain v' where v': "vector_push_back mal v e = Some (VECTOR_SUCCESS, v')" "vec_ok v'"
      "velement_size v' = velement_size v" "vec_elems v' = vec_elems v @ [e]"
    using vector_push_back_spec [OF ok e] smaller_room [OF room, of "vsize v"] by auto
  have "vsize v' = Suc (vsize v)" using v'(4) length_vec_elems [OF ok] length_vec_elems [OF v'(2)] by simp
  then show "\<exists>v'. succeeded (vector_push_back mal v e) = Some v' \<and> vec_ok v' \<and>
      vec_elems v' = vec_elems v @ [e] \<and>
      (\<lambda>e. length e = velement_size v') = (\<lambda>e. length e = velement_size v) \<and>
      (2 * (vsize v' + n) + 2) * velement_size v' \<le> limit"
    using v' room by (auto simp: succeeded_def)
next
  fix v i assume "vec_ok v" and "i < length (vec_elems v)"
  then show "vector_deref v (vector_get v i) = Some (vec_elems v ! i)" by (rule read_elem)
qed

subsection \<open>Resizing, copying, iteration\<close>

lemma take_chunks: "take k (chunks es n d) = chunks es (min k n) d"
  by (simp add: chunks_def take_map min_def)

lemma vec_elems_vsize:
  "vdata v = Some d \<Longrightarrow> vec_elems (v\<lparr>vsize := n\<rparr>) = chunks (velement_size v) n d"
  by (simp add: vec_elems_def)

context allocator
begin

lemma vector_resize_spec:
  assumes "vec_ok v" and "0 < n" and "2 * n * velement_size v \<le> limit"
  shows "\<exists>v'. vector_resize mal v n = Some (VECTOR_SUCCESS, v') \<and> vec_ok v' \<and> vsize v' = n \<and>
           take (vsize v) (vec_elems v') = take n (vec_elems v)"
proof -
  have "0 < velement_size v" using assms(1) by (auto elim: vec_okE)
  from count_less [OF this within_limit [OF assms(3)]]
  have n2: "size_t (n * VECTOR_GROWTH_FACTOR) = n * 2" "max (n * 2) 2 = n * 2"
    using assms(2) by (simp_all add: VECTOR_GROWTH_FACTOR_def)
  have room: "\<exists>w d. (if n > vcapacity v then vector_reallocate mal v (size_t (n * VECTOR_GROWTH_FACTOR))
        else Some (VECTOR_SUCCESS, v)) = Some (VECTOR_SUCCESS, w) \<and> vec_ok w \<and> vdata w = Some d \<and>
      vsize w = vsize v \<and> vec_elems w = vec_elems v \<and> n \<le> vcapacity w"
  proof (cases "n > vcapacity v")
    case True
    moreover have "vsize v \<le> vcapacity v" and "2 \<le> vcapacity v"
      using assms(1) by (auto simp: VECTOR_MINIMUM_CAPACITY_def elim: vec_okE)
    ultimately have "vsize v \<le> max (n * 2) 2" and "\<not> n * 2 < 2" and "n \<le> max (n * 2) 2"
      by auto
    with True show ?thesis
      using vector_reallocate_spec [OF assms(1), of "n * 2"] assms(3) n2
      by (auto simp: VECTOR_MINIMUM_CAPACITY_def mult.commute) (auto elim: vec_okE)
  next
    case False
    with assms(1) show ?thesis by (auto elim: vec_okE)
  qed
  then obtain w d where w: "(if n > vcapacity v then vector_reallocate mal v (size_t (n * VECTOR_GROWTH_FACTOR))
        else Some (VECTOR_SUCCESS, v)) = Some (VECTOR_SUCCESS, w)" "vec_ok w" "vdata w = Some d"
      "vsize w = vsize v" "vec_elems w = vec_elems v" "n \<le> vcapacity w" by blast
  have "take (vsize v) (vec_elems (w\<lparr>vsize := n\<rparr>)) = chunks (velement_size w) (min (vsize v) n) d"
    using w(3) by (simp add: vec_elems_vsize take_chunks)
  moreover have "take n (vec_elems v) = chunks (velement_size w) (min (vsize v) n) d"
    unfolding w(5) [symmetric] using w(3,4) by (simp add: vec_elems_def take_chunks min.commute)
  moreover have "vec_ok (w\<lparr>vsize := n\<rparr>)" using w(2,6) by (auto simp: vec_ok_def split: option.splits)
  ultimately show ?thesis
    using w(1) assms(2)
    by (auto simp: vector_resize_def VECTOR_SHRINK_THRESHOLD_def VECTOR_ERROR_def VECTOR_SUCCESS_def
        split: if_splits)
qed

lemma vector_copy_spec:
  assumes "vec_ok src" and "vdata dst = None" and "2 * vsize src * velement_size src \<le> limit"
  shows "\<exists>v. vector_copy mal dst src = Some (VECTOR_SUCCESS, v) \<and> vec_elems v = vec_elems src \<and>
           vcapacity v = 2 * vsize src \<and> (vsize src \<noteq> 0 \<longrightarrow> vec_ok v)"
proof -
  let ?es = "velement_size src" and ?n = "vsize src"
  from assms(1) obtain d where d: "vdata src = Some d" "length d = vcapacity src * ?es"
    "?n \<le> vcapacity src" "0 < ?es" by (rule vec_okE)
  have room: "?n * 2 * ?es \<le> limit" using assms(3) by (simp add: mult.commute)
  have bytes: "?n * 2 < 2 ^ 64" "?n * 2 * ?es < 2 ^ 64"
    using within_limit [OF room] count_less [OF d(4) within_limit [OF room]] by simp_all
  obtain blk where blk: "mal (?n * 2 * ?es) = Some blk" "length blk = ?n * 2 * ?es"
    using malloc_block [OF room] by blast
  have used: "?n * ?es \<le> length d" using d used_bytes [of src ?es] by simp
  have fits: "?n * ?es \<le> length blk" using blk by simp
  define d' where "d' = take (?n * ?es) d @ drop (?n * ?es) blk"
  have len: "length d' = ?n * 2 * ?es" using used fits blk by (simp add: d'_def)
  have "blit blk 0 (take (?n * ?es) d) = Some d'"
    using used fits by (simp add: blit_def d'_def)
  moreover have "chunks ?es ?n d' = chunks ?es ?n d"
    using used fits by (intro chunks_cong) (auto simp: d'_def nth_append)
  ultimately show ?thesis
    using assms(2) d blk used len bytes vec_ok_bytes [OF assms(1) d(3)]
    by (auto simp: vector_copy_def vector_is_initialized_def Let_def slice_def vector_byte_size_def
        vec_elems_def vec_ok_def VECTOR_MINIMUM_CAPACITY_def)
qed

end

lemma vector_for_each_from:
  assumes "0 < es"
  shows "i + k = n \<Longrightarrow> vector_for_each (Suc k) \<lparr>it_pointer = Some (int (i * es)), it_element_size = es\<rparr>
           \<lparr>it_pointer = Some (int (n * es)), it_element_size = es\<rparr> =
         Some (map (\<lambda>i. int (i * es)) [i..<n])"
proof (induction k arbitrary: i)
  case 0
  then show ?case by (simp add: iterator_equals_def)
next
  case (Suc k)
  have next_cell: "int (i * es) + int es = int (Suc i * es)" by simp
  have "int (i * es) \<noteq> int (n * es)" using Suc.prems assms by simp
  then show ?case
    using Suc.prems Suc.IH [of "Suc i"]
    by (subst vector_for_each.simps)
      (simp add: iterator_equals_def iterator_get_def iterator_increment_def next_cell
        upt_conv_Cons del: of_nat_mult vector_for_each.simps mult_Suc)
qed

lemma setup_room:
  assumes "allocator mal limit" and "0 < es" and "(n + 2 * k + 2) * es \<le> limit"
  shows "vec_ok (snd (vector_setup mal n es))" and "vec_elems (snd (vector_setup mal n es)) = []"
    and "velement_size (snd (vector_setup mal n es)) = es"
    and "(2 * (vsize (snd (vector_setup mal n es)) + k) + 2) * velement_size (snd (vector_setup mal n es)) \<le> limit"
proof -
  have "max VECTOR_MINIMUM_CAPACITY n * es \<le> (n + 2 * k + 2) * es"
    by (rule mult_le_mono1) (simp add: VECTOR_MINIMUM_CAPACITY_def)
  then have r: "max VECTOR_MINIMUM_CAPACITY n * es \<le> limit" using assms(3) by simp
  note s = allocator.vector_setup_spec [OF assms(1,2) r]
  show "vec_ok (snd (vector_setup mal n es))" "vec_elems (snd (vector_setup mal n es)) = []"
    "velement_size (snd (vector_setup mal n es)) = es" using s by simp_all
  have "(2 * k + 2) * es \<le> limit" by (rule le_trans [OF mult_le_mono1 assms(3)]) simp
  moreover have "vsize (snd (vector_setup mal n es)) = 0" using s(3) length_vec_elems [OF s(2)] by simp
  ultimately show "(2 * (vsize (snd (vector_setup mal n es)) + k) + 2) * velement_size (snd (vector_setup mal n es)) \<le> limit"
    by (simp only: s(4) add_0)
qed

subsection \<open>Properties of the vector\<close>

text \<open>
  C18. The vector refines the list: from \<^verbatim>\<open>vector_setup\<close>, every sequence of
  \<^verbatim>\<open>push_back\<close>, \<^verbatim>\<open>push_front\<close>, \<^verbatim>\<open>insert\<close>, \<^verbatim>\<open>assign\<close>, \<^verbatim>\<open>pop_back\<close>,
  \<^verbatim>\<open>pop_front\<close>, \<^verbatim>\<open>erase\<close> and \<^verbatim>\<open>clear\<close> calls within contract returns
  \<^verbatim>\<open>VECTOR_SUCCESS\<close> at every call (no access outside the block, whatever the allocated
  blocks hold and whenever the vector grows or shrinks), and the elements it then holds
  are those of the same sequence of list operations. The allocator grants every request of up to
  \<open>limit\<close> bytes, and the first capacity and twice the number of calls, in elements, stay below that.
\<close>

theorem pgvector_refines_list:
  assumes "allocator mal limit" and "0 < es" and "list_run es [] ops = Some xs"
    and "(n + 2 * length ops + 2) * es \<le> limit"
  shows "\<exists>v. vec_run mal (snd (vector_setup mal n es)) ops = Some v \<and> vec_elems v = xs"
proof -
  note s = setup_room [OF assms(1,2,4)]
  show ?thesis using allocator.vec_run_spec [OF assms(1) s(1) _ s(4), of xs] s(2,3) assms(3) by auto
qed

text \<open>
  C19. Elements pushed onto a fresh vector are read back by index, in order, by
  \<^verbatim>\<open>vector_get\<close>, when the first capacity and twice their number, in elements, stay below the
  number of bytes the allocator grants.
\<close>

theorem pgvector_push_get:
  assumes "allocator mal limit" and "0 < es" and "\<forall>e \<in> set xs. length e = es"
    and "(n + 2 * length xs + 2) * es \<le> limit"
  shows "\<exists>v. vec_run mal (snd (vector_setup mal n es)) (map PushBack xs) = Some v \<and>
           vsize v = length xs \<and>
           (\<forall>i < length xs. vector_deref v (vector_get v i) = Some (xs ! i))"
proof -
  have run: "list_run es ys (map PushBack xs) = Some (ys @ xs)" for ys
    using assms(3) by (induction xs arbitrary: ys) (simp_all add: guarded_def)
  note s = setup_room [OF assms(1,2,4)]
  obtain v where v: "vec_run mal (snd (vector_setup mal n es)) (map PushBack xs) = Some v"
    "vec_ok v" "vec_elems v = xs"
    using allocator.vec_run_spec [OF assms(1) s(1), of "map PushBack xs" xs] run [of "[]"] s(2-4) by auto
  then show ?thesis
    using allocator.read_elem [OF assms(1) v(2)] length_vec_elems [OF v(2)] by auto
qed

text \<open>
  C20. \<^verbatim>\<open>VECTOR_FOR_EACH\<close> terminates after one step per element and visits exactly the
  elements of the vector, in order.
\<close>

theorem vector_for_each_visits_all:
  assumes "vec_ok v"
  shows "\<exists>b e ps. vector_begin v = Some b \<and> vector_end v = Some e \<and>
           vector_for_each (Suc (vsize v)) b e = Some ps \<and>
           map (\<lambda>p. vector_deref v (Some (Some (nat p)))) ps = map Some (vec_elems v)"
proof -
  let ?es = "velement_size v"
  from assms have es: "0 < ?es" by (auto elim: vec_okE)
  have bytes: "size_t (i * ?es) = i * ?es" if "i \<le> vsize v" for i
    by (rule vec_ok_bytes [OF assms]) (use assms that in \<open>auto elim: vec_okE\<close>)
  have deref: "vector_deref v (Some (Some (i * ?es))) = Some (vec_elems v ! i)" if "i < vsize v" for i
    using zeroed.read_elem [OF assms, of i] that es length_vec_elems [OF assms] bytes [of i]
    by (simp add: vector_get_def vector_offset_def)
  show ?thesis
    using es vector_for_each_from [OF es, of 0 "vsize v" "vsize v"] deref length_vec_elems [OF assms]
      bytes [of "vsize v"] bytes [of 0]
    by (simp add: vector_begin_def vector_end_def vector_iterator_def vector_offset_def nat_mult_distrib)
      (auto intro!: nth_equalityI simp: nat_mult_distrib)
qed

text \<open>
  C21. \<^verbatim>\<open>vector_resize\<close> to a positive size keeps the elements both sizes have and
  leaves a well-formed vector of the new size, when the allocator grants twice that size.
\<close>

theorem vector_resize_keeps_prefix:
  assumes "allocator mal limit" and "vec_ok v" and "0 < n" and "2 * n * velement_size v \<le> limit"
  shows "\<exists>v'. vector_resize mal v n = Some (VECTOR_SUCCESS, v') \<and> vec_ok v' \<and> vsize v' = n \<and>
           take (vsize v) (vec_elems v') = take n (vec_elems v)"
  using allocator.vector_resize_spec [OF assms] .

text \<open>
  When the allocation of \<^verbatim>\<open>vector_push_back\<close> fails, the vector is lost: the call returns
  \<^verbatim>\<open>VECTOR_ERROR\<close>, and the only pointer to the old block has been overwritten by null.
\<close>

lemma vector_push_back_failure_loses_data:
  assumes "vec_ok v" and "vsize v = vcapacity v" and "2 * vsize v * velement_size v < 2 ^ 64"
    and "mal (2 * vsize v * velement_size v) = None"
  shows "vector_push_back mal v e = Some (VECTOR_ERROR, v\<lparr>vdata := None\<rparr>)"
proof -
  have "0 < velement_size v" using assms(1) by (auto elim: vec_okE)
  from count_less [OF this assms(3)] show ?thesis using assms
  by (auto simp: vector_push_back_def vector_make_room_def vector_should_grow_def
      vector_adjust_capacity_def vector_reallocate_def VECTOR_GROWTH_FACTOR_def
      VECTOR_MINIMUM_CAPACITY_def Let_def mult.commute mult.left_commute max_def elim!: vec_okE)
qed

text \<open>
  Clearing never fails for want of a block to read: the new block has no bytes to take over from the old
  one. So a vector may be cleared after it has been destroyed, as the end of a scan does.
\<close>

lemma vector_clear_returns: "\<exists>rc v'. vector_clear mal v = Some (rc, v') \<and> vsize v' = 0"
  by (cases "mal (size_t (VECTOR_MINIMUM_CAPACITY * velement_size v))")
    (simp_all add: vector_clear_def vector_resize_def vector_reallocate_def vector_byte_size_def size_t_def
      Let_def blit_def VECTOR_ERROR_def VECTOR_SUCCESS_def VECTOR_MINIMUM_CAPACITY_def)

text \<open>
  \<^verbatim>\<open>vector_copy\<close> of an empty vector makes a vector of capacity 0, and the first
  \<^verbatim>\<open>vector_push_back\<close> on it writes outside its block: \<^verbatim>\<open>_vector_reallocate\<close> treats a
  request for one element as a no-op when the capacity is at most the minimum.
\<close>

lemma vector_copy_empty_then_push_faults:
  "\<exists>v. vector_copy malloc_zeroed \<lparr>vsize = 0, vcapacity = 0, velement_size = 0, vdata = None\<rparr>
         (snd (vector_setup malloc_zeroed 4 1)) = Some (VECTOR_SUCCESS, v) \<and>
       vector_push_back malloc_zeroed v [7] = None"
  by (simp add: vector_copy_def vector_setup_def vector_is_initialized_def malloc_zeroed_def Let_def
      slice_def vector_byte_size_def blit_def vector_push_back_def vector_make_room_def
      vector_should_grow_def vector_adjust_capacity_def vector_reallocate_def VECTOR_GROWTH_FACTOR_def
      VECTOR_MINIMUM_CAPACITY_def vector_assign_raw_def vector_offset_def VECTOR_ERROR_def
      VECTOR_SUCCESS_def size_t_def)

subsection \<open>Concrete instances\<close>

theorem pgvector_refines_list_witness:
  "allocator malloc_zeroed (2 ^ 63 - 1) \<and>
   list_run 1 [] [PushBack [1], PushFront [2], PopBack, PushBack [3]] = Some [[2], [3]] \<and>
   (\<exists>v. vec_run malloc_zeroed (snd (vector_setup malloc_zeroed 0 1))
          [PushBack [1], PushFront [2], PopBack, PushBack [3]] = Some v \<and> vec_elems v = [[2], [3]])"
proof -
  have "list_run 1 [] [PushBack [1], PushFront [2], PopBack, PushBack [3]] = Some [[2], [3]]"
    by (simp add: guarded_def)
  then show ?thesis
    using pgvector_refines_list [OF zeroed.allocator_axioms, of 1 "[PushBack [1], PushFront [2], PopBack, PushBack [3]]" "[[2], [3]]" 0]
      zeroed.allocator_axioms by simp
qed

theorem pgvector_push_get_witness:
  "allocator malloc_zeroed (2 ^ 63 - 1) \<and>
   (\<exists>v. vec_run malloc_zeroed (snd (vector_setup malloc_zeroed 0 2)) (map PushBack [[1, 2], [3, 4], [5, 6]]) = Some v \<and>
      vsize v = length [[1, 2], [3, 4], [5, 6 :: byte]] \<and>
      (\<forall>i < length [[1, 2], [3, 4], [5, 6 :: byte]]. vector_deref v (vector_get v i) = Some ([[1, 2], [3, 4], [5, 6]] ! i)))"
  using pgvector_push_get [OF zeroed.allocator_axioms, of 2 "[[1, 2], [3, 4], [5, 6]]" 0]
    zeroed.allocator_axioms by simp

definition sample_vector :: pgvector where
  "sample_vector = \<lparr>vsize = 2, vcapacity = 4, velement_size = 1, vdata = Some [7, 8, 0, 0]\<rparr>"

lemma vec_ok_sample_vector: "vec_ok sample_vector"
  by (simp add: vec_ok_def sample_vector_def VECTOR_MINIMUM_CAPACITY_def)

theorem vector_for_each_visits_all_witness:
  "vec_ok sample_vector \<and>
   (\<exists>b e ps. vector_begin sample_vector = Some b \<and> vector_end sample_vector = Some e \<and>
      vector_for_each 3 b e = Some ps \<and>
      map (\<lambda>p. vector_deref sample_vector (Some (Some (nat p)))) ps = [Some [7], Some [8]])"
proof -
  have "vec_elems sample_vector = [[7], [8]]" "Suc (vsize sample_vector) = 3"
    by (simp_all add: vec_elems_def sample_vector_def chunks_def upt_rec)
  then show ?thesis
    using vector_for_each_visits_all [OF vec_ok_sample_vector] vec_ok_sample_vector by simp
qed

theorem vector_resize_keeps_prefix_witness:
  "allocator malloc_zeroed (2 ^ 63 - 1) \<and> vec_ok sample_vector \<and>
   (\<exists>v'. vector_resize malloc_zeroed sample_vector 3 = Some (VECTOR_SUCCESS, v') \<and> vec_ok v' \<and>
      vsize v' = 3 \<and> take 2 (vec_elems v') = take 3 (vec_elems sample_vector))"
  using vector_resize_keeps_prefix [OF zeroed.allocator_axioms vec_ok_sample_vector, of 3]
    vec_ok_sample_vector zeroed.allocator_axioms by (simp add: sample_vector_def)

end
