(* ===== verification/HashFunc.thy ===== *)
theory HashFunc
  imports MBT_Prelude
begin

text \<open>
  The hash functions of \<^verbatim>\<open>access/hash/hashfunc.c\<close> and of \<^verbatim>\<open>utils/hash/hashfn.c\<close>: Bob Jenkins' hash of a block of bytes,
  its variant for one word, and the hash functions of the data types that do not need floating point. A pointer
  is the block it points to and whether its address is a multiple of 4; the code is that for little-endian
  machines. Shown: the word-wise and the byte-wise path agree, the mixing step is reversible, the variant
  for one word agrees with the general function, and equal integers of different widths have equal hashes.
\<close>

unbundle bit_operations_syntax

type_synonym uint32 = "32 word"

subsection \<open>Mixing\<close>

definition rot :: "uint32 \<Rightarrow> nat \<Rightarrow> uint32" where
  "rot x k = push_bit k x OR drop_bit (32 - k) x"

definition mix :: "uint32 \<times> uint32 \<times> uint32 \<Rightarrow> uint32 \<times> uint32 \<times> uint32" where
  "mix = (\<lambda>(a, b, c).
     let a = a - c; a = a XOR rot c 4; c = c + b;
         b = b - a; b = b XOR rot a 6; a = a + c;
         c = c - b; c = c XOR rot b 8; b = b + a;
         a = a - c; a = a XOR rot c 16; c = c + b;
         b = b - a; b = b XOR rot a 19; a = a + c;
         c = c - b; c = c XOR rot b 4; b = b + a
     in (a, b, c))"

definition final_mix :: "uint32 \<times> uint32 \<times> uint32 \<Rightarrow> uint32 \<times> uint32 \<times> uint32" where
  "final_mix = (\<lambda>(a, b, c).
     let c = c XOR b; c = c - rot b 14;
         a = a XOR c; a = a - rot c 11;
         b = b XOR a; b = b - rot a 25;
         c = c XOR b; c = c - rot b 16;
         a = a XOR c; a = a - rot c 4;
         b = b XOR a; b = b - rot a 14;
         c = c XOR b; c = c - rot b 24
     in (a, b, c))"

subsection \<open>The hash of a block of bytes\<close>

text \<open>A fetch of a word from a little-endian memory, and the terms \<^verbatim>\<open>(uint32) k[i] << s\<close>.\<close>

definition fetch32 :: "byte list \<Rightarrow> nat \<Rightarrow> uint32 option" where
  "fetch32 k i = do { bs \<leftarrow> slice k i 4; Some (word_of_nat (le_nat bs)) }"

definition shifted :: "byte list \<Rightarrow> nat \<Rightarrow> nat \<Rightarrow> uint32 option" where
  "shifted k i s = do { v \<leftarrow> aget k (int i); Some (push_bit s (ucast v)) }"

text \<open>A statement \<^verbatim>\<open>x += (uint32) k[i] << s\<close> of a switch, reached when \<open>cond\<close> holds.\<close>

definition plus_byte :: "bool \<Rightarrow> byte list \<Rightarrow> nat \<Rightarrow> nat \<Rightarrow> uint32 \<Rightarrow> uint32 option" where
  "plus_byte cond k i s x = (if cond then do { v \<leftarrow> shifted k i s; Some (x + v) } else Some x)"

function aligned_loop :: "byte list \<Rightarrow> nat \<Rightarrow> uint32 \<times> uint32 \<times> uint32 \<Rightarrow> (byte list \<times> nat \<times> uint32 \<times> uint32 \<times> uint32) option" where
  "aligned_loop k len st =
     (if 12 \<le> len then
        do { x \<leftarrow> fetch32 k 0; y \<leftarrow> fetch32 k 4; z \<leftarrow> fetch32 k 8;
             let (a, b, c) = st;
             aligned_loop (drop 12 k) (len - 12) (mix (a + x, b + y, c + z)) }
      else Some (k, len, st))"
  by pat_completeness auto
termination by (relation "measure (\<lambda>(k, len, st). len)") auto

definition aligned_tail :: "byte list \<times> nat \<times> uint32 \<times> uint32 \<times> uint32 \<Rightarrow> (uint32 \<times> uint32 \<times> uint32) option" where
  "aligned_tail = (\<lambda>(k, len, a, b, c).
     do { c \<leftarrow> plus_byte (11 \<le> len) k 10 24 c;
          c \<leftarrow> plus_byte (10 \<le> len) k 9 16 c;
          c \<leftarrow> plus_byte (9 \<le> len) k 8 8 c;
          (if 8 \<le> len then
             do { y \<leftarrow> fetch32 k 4; x \<leftarrow> fetch32 k 0; Some (a + x, b + y, c) }
           else
             do { b \<leftarrow> plus_byte (7 \<le> len) k 6 16 b;
                  b \<leftarrow> plus_byte (6 \<le> len) k 5 8 b;
                  b \<leftarrow> plus_byte (5 \<le> len) k 4 0 b;
                  (if 4 \<le> len then
                     do { x \<leftarrow> fetch32 k 0; Some (a + x, b, c) }
                   else
                     do { a \<leftarrow> plus_byte (3 \<le> len) k 2 16 a;
                          a \<leftarrow> plus_byte (2 \<le> len) k 1 8 a;
                          a \<leftarrow> plus_byte (1 \<le> len) k 0 0 a;
                          Some (a, b, c) }) }) })"

definition bytes32 :: "byte list \<Rightarrow> nat \<Rightarrow> uint32 option" where
  "bytes32 k i =
     do { p \<leftarrow> shifted k i 0; q \<leftarrow> shifted k (i + 1) 8; r \<leftarrow> shifted k (i + 2) 16; s \<leftarrow> shifted k (i + 3) 24;
          Some (p + q + r + s) }"

function unaligned_loop :: "byte list \<Rightarrow> nat \<Rightarrow> uint32 \<times> uint32 \<times> uint32 \<Rightarrow> (byte list \<times> nat \<times> uint32 \<times> uint32 \<times> uint32) option" where
  "unaligned_loop k len st =
     (if 12 \<le> len then
        do { x \<leftarrow> bytes32 k 0; y \<leftarrow> bytes32 k 4; z \<leftarrow> bytes32 k 8;
             let (a, b, c) = st;
             unaligned_loop (drop 12 k) (len - 12) (mix (a + x, b + y, c + z)) }
      else Some (k, len, st))"
  by pat_completeness auto
termination by (relation "measure (\<lambda>(k, len, st). len)") auto

definition unaligned_tail :: "byte list \<times> nat \<times> uint32 \<times> uint32 \<times> uint32 \<Rightarrow> (uint32 \<times> uint32 \<times> uint32) option" where
  "unaligned_tail = (\<lambda>(k, len, a, b, c).
     do { c \<leftarrow> plus_byte (11 \<le> len) k 10 24 c;
          c \<leftarrow> plus_byte (10 \<le> len) k 9 16 c;
          c \<leftarrow> plus_byte (9 \<le> len) k 8 8 c;
          b \<leftarrow> plus_byte (8 \<le> len) k 7 24 b;
          b \<leftarrow> plus_byte (7 \<le> len) k 6 16 b;
          b \<leftarrow> plus_byte (6 \<le> len) k 5 8 b;
          b \<leftarrow> plus_byte (5 \<le> len) k 4 0 b;
          a \<leftarrow> plus_byte (4 \<le> len) k 3 24 a;
          a \<leftarrow> plus_byte (3 \<le> len) k 2 16 a;
          a \<leftarrow> plus_byte (2 \<le> len) k 1 8 a;
          a \<leftarrow> plus_byte (1 \<le> len) k 0 0 a;
          Some (a, b, c) })"

declare aligned_loop.simps [simp del] unaligned_loop.simps [simp del]

text \<open>
  \<^verbatim>\<open>hash_any\<close>; \<open>aligned\<close> says whether the address \<open>k\<close> is a multiple of 4. The length goes through an \<^verbatim>\<open>int\<close>
  into a \<^verbatim>\<open>uint32\<close>, which leaves its last 32 bits.
\<close>

definition hash_any :: "bool \<Rightarrow> byte list \<Rightarrow> nat \<Rightarrow> uint32 option" where
  "hash_any aligned k keylen =
     do { let len = keylen mod 2 ^ 32;
          let s = 0x9e3779b9 + word_of_nat len + 3923095;
          st \<leftarrow> (if aligned then aligned_loop k len (s, s, s) \<bind> aligned_tail
                 else unaligned_loop k len (s, s, s) \<bind> unaligned_tail);
          let (a, b, c) = final_mix st;
          Some c }"

definition hash_uint32 :: "uint32 \<Rightarrow> uint32" where
  "hash_uint32 k =
     (let s = 0x9e3779b9 + 4 + 3923095; (a, b, c) = final_mix (s + k, s, s) in c)"

subsection \<open>Hash functions of the data types\<close>

definition hashchar :: "8 word \<Rightarrow> uint32" where
  "hashchar v = hash_uint32 (scast v)"

definition hashint2 :: "16 word \<Rightarrow> uint32" where
  "hashint2 v = hash_uint32 (scast v)"

definition hashint4 :: "32 word \<Rightarrow> uint32" where
  "hashint4 v = hash_uint32 v"

definition hashint8 :: "64 word \<Rightarrow> uint32" where
  "hashint8 val =
     (let lohalf = ucast val; hihalf = ucast (signed_drop_bit 32 val);
          lohalf = lohalf XOR (if 0 \<le> sint val then hihalf else NOT hihalf)
      in hash_uint32 lohalf)"

definition hashoid :: "uint32 \<Rightarrow> uint32" where
  "hashoid v = hash_uint32 v"

definition hashenum :: "uint32 \<Rightarrow> uint32" where
  "hashenum v = hash_uint32 v"

definition hashoidvector :: "bool \<Rightarrow> byte list \<Rightarrow> nat \<Rightarrow> uint32 option" where
  "hashoidvector aligned vals dim1 = hash_any aligned vals (dim1 * 4)"

definition hashint2vector :: "bool \<Rightarrow> byte list \<Rightarrow> nat \<Rightarrow> uint32 option" where
  "hashint2vector aligned vals dim1 = hash_any aligned vals (dim1 * 2)"

definition hashname :: "bool \<Rightarrow> byte list \<Rightarrow> uint32 option" where
  "hashname aligned key = hash_any aligned key (strlen key)"

text \<open>\<open>key\<close> is the payload of the variable-length value.\<close>

definition hashtext :: "bool \<Rightarrow> byte list \<Rightarrow> uint32 option" where
  "hashtext aligned key = hash_any aligned key (length key)"

definition hashvarlena :: "bool \<Rightarrow> byte list \<Rightarrow> uint32 option" where
  "hashvarlena aligned key = hash_any aligned key (length key)"

subsection \<open>Hash functions of the hash tables\<close>

definition string_hash :: "bool \<Rightarrow> byte list \<Rightarrow> nat \<Rightarrow> uint32 option" where
  "string_hash aligned key keysize =
     (let s_len = strlen key; s_len = min s_len ((keysize + (2 ^ 64 - 1)) mod 2 ^ 64)
      in hash_any aligned key s_len)"

definition tag_hash :: "bool \<Rightarrow> byte list \<Rightarrow> nat \<Rightarrow> uint32 option" where
  "tag_hash aligned key keysize = hash_any aligned key keysize"

definition oid_hash :: "byte list \<Rightarrow> uint32 option" where
  "oid_hash key = do { v \<leftarrow> fetch32 key 0; Some (hash_uint32 v) }"

subsection \<open>The mixing step\<close>

definition mix_line :: "nat \<Rightarrow> uint32 \<times> uint32 \<times> uint32 \<Rightarrow> uint32 \<times> uint32 \<times> uint32" where
  "mix_line k = (\<lambda>(a, b, c). (b, c + b, (a - c) XOR rot c k))"

lemma mix_lines: "mix = mix_line 4 \<circ> mix_line 19 \<circ> mix_line 16 \<circ> mix_line 8 \<circ> mix_line 6 \<circ> mix_line 4"
  by (rule ext) (simp add: mix_def mix_line_def Let_def split: prod.splits)

lemma bij_mix_line: "bij (mix_line k)"
proof (rule o_bij)
  let ?g = "\<lambda>(b, c', a'). ((a' XOR rot (c' - b) k) + (c' - b), b, c' - b)"
  show "?g \<circ> mix_line k = id" "mix_line k \<circ> ?g = id"
    by (auto simp: mix_line_def fun_eq_iff xor.assoc)
qed

text \<open>C33. \<^verbatim>\<open>mix\<close> is reversible: no two states of the three words are mixed into the same state and every state
  is the result of one.\<close>

theorem mix_reversible: "bij mix"
  unfolding mix_lines by (intro bij_comp bij_mix_line)

subsection \<open>The two paths\<close>

lemma fetch32_bytes32: "i + 4 \<le> length k \<Longrightarrow> fetch32 k i = bytes32 k i \<and> bytes32 k i \<noteq> None"
proof -
  assume i: "i + 4 \<le> length k"
  have e: "take 4 (drop i k) = [k ! i, k ! (i + 1), k ! (i + 2), k ! (i + 3)]"
    using i by (intro nth_equalityI) (auto simp: less_Suc_eq numeral_eq_Suc)
  show ?thesis
    using i e by (simp add: fetch32_def bytes32_def shifted_def slice_def aget_def nat_add_distrib) (simp add: push_bit_eq_mult distrib_left)
qed

lemma loops_agree:
  "len \<le> length k \<Longrightarrow> \<exists>k' len' st'. aligned_loop k len st = Some (k', len', st') \<and> unaligned_loop k len st = Some (k', len', st') \<and>
     len' < 12 \<and> len' \<le> length k'"
proof (induction k len st rule: aligned_loop.induct)
  case (1 k len st)
  show ?case
  proof (cases "12 \<le> len")
    case True
    obtain a b c where st: "st = (a, b, c)" by (cases st)
    from True 1(2) obtain x y z where f: "fetch32 k 0 = Some x" "fetch32 k 4 = Some y" "fetch32 k 8 = Some z"
      and b: "bytes32 k 0 = Some x" "bytes32 k 4 = Some y" "bytes32 k 8 = Some z"
      using fetch32_bytes32 [of 0 k] fetch32_bytes32 [of 4 k] fetch32_bytes32 [of 8 k] by auto
    have "len - 12 \<le> length (drop 12 k)" using 1(2) by simp
    from 1(1) [OF True f refl st [symmetric] refl this] show ?thesis
      using True f b st by (simp add: aligned_loop.simps [of k] unaligned_loop.simps [of k])
  next
    case False
    then show ?thesis using 1(2) by (simp add: aligned_loop.simps [of k] unaligned_loop.simps [of k])
  qed
qed

lemma shifted_eq: "i < length k \<Longrightarrow> shifted k i s = Some (push_bit s (ucast (k ! i)))"
  by (simp add: shifted_def aget_def)

lemma tails_agree:
  assumes "len < 12" "len \<le> length k"
  shows "aligned_tail (k, len, a, b, c) = unaligned_tail (k, len, a, b, c)" "unaligned_tail (k, len, a, b, c) \<noteq> None"
proof -
  have f: "i + 4 \<le> length k \<Longrightarrow> fetch32 k i = bytes32 k i" for i using fetch32_bytes32 by blast
  have "len = 0 \<or> len = 1 \<or> len = 2 \<or> len = 3 \<or> len = 4 \<or> len = 5 \<or> len = 6 \<or> len = 7 \<or> len = 8 \<or> len = 9 \<or> len = 10 \<or> len = 11"
    using assms(1) by presburger
  moreover have n: "len = 0 \<or> k \<noteq> []" using assms(2) by auto
  ultimately show "aligned_tail (k, len, a, b, c) = unaligned_tail (k, len, a, b, c)"
    using assms(2)
    by (elim disjE) (simp_all add: aligned_tail_def unaligned_tail_def plus_byte_def f bytes32_def shifted_eq ac_simps
        numeral_2_eq_2 numeral_3_eq_3)
  show "unaligned_tail (k, len, a, b, c) \<noteq> None"
    using assms(2) n by (auto simp: unaligned_tail_def plus_byte_def shifted_eq)
qed

lemma hash_any_paths:
  assumes "keylen \<le> length k"
  shows "\<exists>h. hash_any True k keylen = Some h \<and> hash_any False k keylen = Some h"
proof -
  define len where "len = keylen mod 2 ^ 32"
  define s :: uint32 where "s = 0x9e3779b9 + word_of_nat len + 3923095"
  have "len \<le> length k" using assms mod_less_eq_dividend [of keylen "2 ^ 32"] unfolding len_def by (rule order_trans [rotated])
  then obtain k' len' a b c where l: "aligned_loop k len (s, s, s) = Some (k', len', a, b, c)"
    "unaligned_loop k len (s, s, s) = Some (k', len', a, b, c)" "len' < 12" "len' \<le> length k'"
    using loops_agree [of len k "(s, s, s)"] by auto
  obtain st where "unaligned_tail (k', len', a, b, c) = Some st" "aligned_tail (k', len', a, b, c) = Some st"
    using tails_agree [OF l(3,4), of a b c] by auto
  then show ?thesis
    using l(1,2) unfolding hash_any_def Let_def len_def [symmetric] s_def [symmetric] by (simp split: prod.splits)
qed

text \<open>C32. \<^verbatim>\<open>hash_any\<close> does not depend on the alignment of its argument: on every block of at least \<open>keylen\<close> bytes both
  paths stay inside the block, return, and return the same hash.\<close>

theorem hash_any_alignment:
  assumes "keylen \<le> length k"
  shows "\<exists>h. hash_any True k keylen = Some h \<and> hash_any False k keylen = Some h"
  using hash_any_paths [OF assms] .

theorem hash_any_alignment_witness:
  "\<exists>h. hash_any True (ascii ''merkle b+ tree'') 14 = Some h \<and> hash_any False (ascii ''merkle b+ tree'') 14 = Some h"
  using hash_any_alignment [of 14 "ascii ''merkle b+ tree''"] by (simp add: ascii_def)

subsection \<open>Hashes of integers\<close>

lemma le_nat4: "le_nat (nat_le 4 (unat k)) = unat (k :: uint32)"
  using unsigned_less [of k, where 'a = nat] by (simp add: le_nat_nat_le_id)

lemma hash_any_word: "hash_any True (nat_le 4 (unat k)) 4 = Some (hash_uint32 k)"
proof -
  have "fetch32 (nat_le 4 (unat k)) 0 = Some k" by (simp add: fetch32_def slice_def le_nat4)
  moreover have len: "(4 :: nat) mod 2 ^ 32 = 4" by simp
  ultimately show ?thesis
    unfolding hash_any_def len by (simp add: aligned_loop.simps [of _ 4] aligned_tail_def plus_byte_def hash_uint32_def Let_def add.commute
        split: prod.splits)
qed

text \<open>C34. \<^verbatim>\<open>hash_uint32\<close> has the same result as \<^verbatim>\<open>hash_any\<close> of the four bytes of the word, wherever they are stored, and so
  \<^verbatim>\<open>oid_hash\<close> and \<^verbatim>\<open>tag_hash\<close> agree on object identifiers.\<close>

theorem hash_uint32_any:
  "hash_any aligned (nat_le 4 (unat k)) 4 = Some (hash_uint32 k) \<and>
   oid_hash (nat_le 4 (unat k)) = tag_hash aligned (nat_le 4 (unat k)) 4"
  using hash_any_word [of k] hash_any_paths [of 4 "nat_le 4 (unat k)"]
  by (cases aligned) (auto simp: oid_hash_def tag_hash_def fetch32_def slice_def le_nat4)

lemma fold_halves:
  fixes v :: "'a :: len word"
  assumes "LENGTH('a) \<le> 32"
  shows "(ucast (scast v :: 64 word) :: uint32) XOR
      (if 0 \<le> sint (scast v :: 64 word) then ucast (signed_drop_bit 32 (scast v :: 64 word))
       else NOT (ucast (signed_drop_bit 32 (scast v :: 64 word)))) = scast v"
proof -
  have "0 \<le> sint (scast v :: 64 word) \<longleftrightarrow> \<not> bit (scast v :: 64 word) 63"
    using bit_last_iff [of "scast v :: 64 word"] by auto
  also have "\<dots> \<longleftrightarrow> \<not> bit v (LENGTH('a) - Suc 0)"
    using assms min_absorb1 [of "LENGTH('a) - Suc 0" 63] by (simp add: bit_simps)
  finally show ?thesis using assms by (auto intro!: bit_word_eqI simp: bit_simps)
qed

text \<open>C35. Integers that are equal have equal hashes whatever their widths, as hash joins across the types need: the hash
  of a 32-bit or 16-bit integer is that of the same integer in 64 bits.\<close>

theorem hashint8_compatible:
  "hashint8 (scast v) = hashint4 v \<and> hashint8 (scast w) = hashint2 w"
  using fold_halves [of v] fold_halves [of w] by (simp add: hashint8_def hashint4_def hashint2_def Let_def)

end
