(* ===== verification/MBT_Node.thy ===== *)
theory MBT_Node
  imports MBT_Prelude
begin

text \<open>
  The nodes of the Merkle B+ tree and the heap they live in: the structures of
  \<^verbatim>\<open>src/include/mbt/mbtree.h\<close>, its circular doubly linked lists, and the
  constructors, destructors and initialisers of \<^verbatim>\<open>src/backend/mbt/mbtree.c\<close>.

  \<^item> A heap maps addresses to nodes and, separately, to item pointers; the tree
    descriptor \<^verbatim>\<open>struct bplus_tree\<close> is part of it, since the list heads of the
    levels are inside it.
  \<^item> \<^verbatim>\<open>bplus_node\<close>, \<^verbatim>\<open>bplus_leaf\<close> and \<^verbatim>\<open>bplus_non_leaf\<close> share their first fields:
    the records extend \<open>bplus_node\<close>, and its \<open>count\<close> is \<^verbatim>\<open>entries\<close> of a leaf and
    \<^verbatim>\<open>children\<close> of a non-leaf.
  \<^item> A \<^verbatim>\<open>struct node_list_head *\<close> points into a node or at a head of the tree's array
    of lists (\<open>link_ref\<close>); \<^verbatim>\<open>list_entry\<close> on a head is a fault.
  \<^item> \<^verbatim>\<open>malloc\<close> of a node or an item pointer returns the next unused address with
    unspecified contents, given by the \<open>raw_\<close> fields; that it succeeds is what
    the code asserts.
\<close>

subsection \<open>Constants and structures\<close>

definition BPLUS_MIN_ORDER :: int where
  "BPLUS_MIN_ORDER = 3"

definition BPLUS_MAX_ORDER :: int where
  "BPLUS_MAX_ORDER = 50"

definition BPLUS_MAX_ENTRIES :: int where
  "BPLUS_MAX_ENTRIES = 50"

definition BPLUS_MAX_LEVEL :: nat where
  "BPLUS_MAX_LEVEL = 10"

definition PAGESIZE :: nat where
  "PAGESIZE = 4096"

definition DATA_SIZE :: nat where
  "DATA_SIZE = 32"

definition BPLUS_TREE_LEAF :: int where
  "BPLUS_TREE_LEAF = 0"

definition BPLUS_TREE_NON_LEAF :: int where
  "BPLUS_TREE_NON_LEAF = 1"

record ItemPointerData =
  bi_hi :: "16 word"
  bi_lo :: "16 word"
  ip_posid :: "16 word"

datatype link_ref = Head nat | Link ptr

record node_list_head =
  prev :: link_ref
  "next" :: link_ref

record bplus_node =
  node_type :: int
  parent_key_idx :: int
  parent :: "ptr option"
  link :: node_list_head
  count :: int
  tids :: "ptr option list"

record bplus_non_leaf = bplus_node +
  nkey :: "int list"
  sub_ptr :: "ptr option list"
  nchildhash :: "byte list list"
  nnode_hash :: "byte list"
  chindrenoffset :: "int list"
  nnode_id :: int
  nparent_id :: int

record bplus_leaf = bplus_node +
  lkey :: "int list"
  ldata :: "byte list list"
  lchildhash :: "byte list list"
  lnode_hash :: "byte list"
  lnode_id :: int
  lparent_id :: int

datatype node = Leaf bplus_leaf | NonLeaf bplus_non_leaf

record bplus_tree =
  order :: int
  entries :: int
  level :: int
  root :: "ptr option"
  levels :: "node_list_head list"
  offset :: int

record heap =
  tree :: bplus_tree
  nodes :: "ptr \<Rightarrow> node option"
  items :: "ptr \<Rightarrow> ItemPointerData option"
  next_ptr :: ptr
  raw_leaf :: "ptr \<Rightarrow> bplus_leaf"
  raw_non_leaf :: "ptr \<Rightarrow> bplus_non_leaf"
  raw_item :: "ptr \<Rightarrow> ItemPointerData"

text \<open>The fixed array lengths of the C structures.\<close>

definition leaf_shape :: "bplus_leaf \<Rightarrow> bool" where
  "leaf_shape l \<longleftrightarrow>
     length (tids l) = 50 \<and> length (lkey l) = 50 \<and> length (ldata l) = 50 \<and>
     length (lchildhash l) = 50 \<and> length (lnode_hash l) = 33 \<and>
     (\<forall>b \<in> set (ldata l). length b = 33) \<and> (\<forall>b \<in> set (lchildhash l). length b = 33)"

definition non_leaf_shape :: "bplus_non_leaf \<Rightarrow> bool" where
  "non_leaf_shape n \<longleftrightarrow>
     length (tids n) = 50 \<and> length (nkey n) = 49 \<and> length (sub_ptr n) = 50 \<and>
     length (nchildhash n) = 50 \<and> length (nnode_hash n) = 33 \<and> length (chindrenoffset n) = 50 \<and>
     (\<forall>b \<in> set (nchildhash n). length b = 33)"

subsection \<open>Access through pointers\<close>

fun node_hd :: "node \<Rightarrow> bplus_node" where
  "node_hd (Leaf l) = bplus_node.truncate l"
| "node_hd (NonLeaf n) = bplus_node.truncate n"

fun set_parent :: "ptr option \<Rightarrow> node \<Rightarrow> node" where
  "set_parent q (Leaf l) = Leaf (l\<lparr>parent := q\<rparr>)"
| "set_parent q (NonLeaf n) = NonLeaf (n\<lparr>parent := q\<rparr>)"

fun set_parent_key_idx :: "int \<Rightarrow> node \<Rightarrow> node" where
  "set_parent_key_idx i (Leaf l) = Leaf (l\<lparr>parent_key_idx := i\<rparr>)"
| "set_parent_key_idx i (NonLeaf n) = NonLeaf (n\<lparr>parent_key_idx := i\<rparr>)"

fun set_link :: "node_list_head \<Rightarrow> node \<Rightarrow> node" where
  "set_link k (Leaf l) = Leaf (l\<lparr>link := k\<rparr>)"
| "set_link k (NonLeaf n) = NonLeaf (n\<lparr>link := k\<rparr>)"

definition get_node :: "heap \<Rightarrow> ptr \<Rightarrow> bplus_node option" where
  "get_node s p = map_option node_hd (nodes s p)"

definition get_leaf :: "heap \<Rightarrow> ptr \<Rightarrow> bplus_leaf option" where
  "get_leaf s p = (case nodes s p of Some (Leaf l) \<Rightarrow> Some l | _ \<Rightarrow> None)"

definition get_non_leaf :: "heap \<Rightarrow> ptr \<Rightarrow> bplus_non_leaf option" where
  "get_non_leaf s p = (case nodes s p of Some (NonLeaf n) \<Rightarrow> Some n | _ \<Rightarrow> None)"

definition put_leaf :: "ptr \<Rightarrow> bplus_leaf \<Rightarrow> heap \<Rightarrow> heap" where
  "put_leaf p l s = s\<lparr>nodes := (nodes s)(p \<mapsto> Leaf l)\<rparr>"

definition put_non_leaf :: "ptr \<Rightarrow> bplus_non_leaf \<Rightarrow> heap \<Rightarrow> heap" where
  "put_non_leaf p n s = s\<lparr>nodes := (nodes s)(p \<mapsto> NonLeaf n)\<rparr>"

definition upd_node :: "(node \<Rightarrow> node) \<Rightarrow> ptr \<Rightarrow> heap \<Rightarrow> heap option" where
  "upd_node f p s =
     (case nodes s p of None \<Rightarrow> None | Some nd \<Rightarrow> Some (s\<lparr>nodes := (nodes s)(p \<mapsto> f nd)\<rparr>))"

definition is_leaf :: "bplus_node \<Rightarrow> bool" where
  "is_leaf node \<longleftrightarrow> node_type node = BPLUS_TREE_LEAF"

subsection \<open>The linked lists of the levels\<close>

definition get_link :: "heap \<Rightarrow> link_ref \<Rightarrow> node_list_head option" where
  "get_link s r =
     (case r of
        Head i \<Rightarrow> if i < length (levels (tree s)) then Some (levels (tree s) ! i) else None
      | Link p \<Rightarrow> map_option link (get_node s p))"

definition put_link :: "link_ref \<Rightarrow> node_list_head \<Rightarrow> heap \<Rightarrow> heap option" where
  "put_link r k s =
     (case r of
        Head i \<Rightarrow>
          if i < length (levels (tree s))
          then Some (s\<lparr>tree := (tree s)\<lparr>levels := (levels (tree s))[i := k]\<rparr>\<rparr>) else None
      | Link p \<Rightarrow> upd_node (set_link k) p s)"

definition put_next :: "link_ref \<Rightarrow> link_ref \<Rightarrow> heap \<Rightarrow> heap option" where
  "put_next r x s = do { k \<leftarrow> get_link s r; put_link r (k\<lparr>next := x\<rparr>) s }"

definition put_prev :: "link_ref \<Rightarrow> link_ref \<Rightarrow> heap \<Rightarrow> heap option" where
  "put_prev r x s = do { k \<leftarrow> get_link s r; put_link r (k\<lparr>prev := x\<rparr>) s }"

definition list_init :: "link_ref \<Rightarrow> heap \<Rightarrow> heap option" where
  "list_init k s = do { s \<leftarrow> put_prev k k s; put_next k k s }"

text \<open>\<^verbatim>\<open>__list_add\<close> and \<^verbatim>\<open>__list_del\<close>.\<close>

definition list_add_between :: "link_ref \<Rightarrow> link_ref \<Rightarrow> link_ref \<Rightarrow> heap \<Rightarrow> heap option" where
  "list_add_between k pv nx s =
     do { s \<leftarrow> put_next k nx s;
          s \<leftarrow> put_prev k pv s;
          s \<leftarrow> put_prev nx k s;
          put_next pv k s }"

definition list_del_between :: "link_ref \<Rightarrow> link_ref \<Rightarrow> heap \<Rightarrow> heap option" where
  "list_del_between pv nx s = do { s \<leftarrow> put_next pv nx s; put_prev nx pv s }"

definition list_add :: "link_ref \<Rightarrow> link_ref \<Rightarrow> heap \<Rightarrow> heap option" where
  "list_add k pv s = do { h \<leftarrow> get_link s pv; list_add_between k pv (next h) s }"

definition list_add_tail :: "link_ref \<Rightarrow> link_ref \<Rightarrow> heap \<Rightarrow> heap option" where
  "list_add_tail k head s = do { h \<leftarrow> get_link s head; list_add_between k (prev h) head s }"

definition list_del :: "link_ref \<Rightarrow> heap \<Rightarrow> heap option" where
  "list_del k s =
     do { h \<leftarrow> get_link s k; s \<leftarrow> list_del_between (prev h) (next h) s; list_init k s }"

definition list_is_first :: "link_ref \<Rightarrow> link_ref \<Rightarrow> heap \<Rightarrow> bool option" where
  "list_is_first k head s = do { h \<leftarrow> get_link s k; Some (prev h = head) }"

definition list_is_last :: "link_ref \<Rightarrow> link_ref \<Rightarrow> heap \<Rightarrow> bool option" where
  "list_is_last k head s = do { h \<leftarrow> get_link s k; Some (next h = head) }"

text \<open>\<^verbatim>\<open>list_entry\<close> of a link inside a node is that node.\<close>

definition list_entry :: "link_ref \<Rightarrow> ptr option" where
  "list_entry r = (case r of Link p \<Rightarrow> Some p | Head i \<Rightarrow> None)"

definition list_next_entry :: "heap \<Rightarrow> ptr \<Rightarrow> ptr option" where
  "list_next_entry s p = do { h \<leftarrow> get_link s (Link p); list_entry (next h) }"

definition list_prev_entry :: "heap \<Rightarrow> ptr \<Rightarrow> ptr option" where
  "list_prev_entry s p = do { h \<leftarrow> get_link s (Link p); list_entry (prev h) }"

subsection \<open>Initialisers, constructors and destructors\<close>

definition bplus_non_leaf_reset :: "bplus_non_leaf \<Rightarrow> bplus_non_leaf" where
  "bplus_non_leaf_reset n = n\<lparr>nchildhash := replicate 50 (replicate 33 0)\<rparr>"

definition bplus_non_leaf_init :: "bplus_non_leaf \<Rightarrow> bplus_non_leaf" where
  "bplus_non_leaf_init n =
     n\<lparr>node_type := -1, parent_key_idx := 0, parent := None, count := 0,
       nnode_id := -1, nparent_id := -1, tids := replicate 50 None,
       nkey := replicate 49 0, chindrenoffset := replicate 50 0\<rparr>"

definition bplus_leaf_init :: "bplus_leaf \<Rightarrow> bplus_leaf" where
  "bplus_leaf_init l =
     l\<lparr>node_type := -1, parent_key_idx := 0, parent := None, lnode_id := -1, lparent_id := -1\<rparr>"

definition non_leaf_new :: "heap \<Rightarrow> (ptr \<times> heap) option" where
  "non_leaf_new s =
     (let p = next_ptr s; n = bplus_non_leaf_init (raw_non_leaf s p)
      in do { s \<leftarrow> list_init (Link p) (put_non_leaf p n (s\<lparr>next_ptr := Suc p\<rparr>));
              n \<leftarrow> get_non_leaf s p;
              Some (p, put_non_leaf p (n\<lparr>node_type := BPLUS_TREE_NON_LEAF, parent_key_idx := -1\<rparr>) s) })"

text \<open>The 50 item pointers of a new leaf are allocated after it, one per entry.\<close>

definition new_items :: "ptr \<Rightarrow> heap \<Rightarrow> heap" where
  "new_items p s =
     foldl (\<lambda>s i. s\<lparr>items := (items s)(next_ptr s \<mapsto> raw_item s (next_ptr s)),
                    nodes := (nodes s)(p := map_option
                       (\<lambda>nd. case nd of Leaf l \<Rightarrow> Leaf (l\<lparr>tids := (tids l)[i := Some (next_ptr s)]\<rparr>)
                                      | NonLeaf n \<Rightarrow> NonLeaf n) (nodes s p)),
                    next_ptr := Suc (next_ptr s)\<rparr>) s [0..<50]"

definition leaf_new :: "heap \<Rightarrow> (ptr \<times> heap) option" where
  "leaf_new s =
     (let p = next_ptr s; l = bplus_leaf_init (raw_leaf s p)
      in do { s \<leftarrow> list_init (Link p) (put_leaf p l (s\<lparr>next_ptr := Suc p\<rparr>));
              l \<leftarrow> get_leaf s p;
              Some (p, new_items p
                (put_leaf p (l\<lparr>node_type := BPLUS_TREE_LEAF, parent_key_idx := -1\<rparr>) s)) })"

definition non_leaf_delete :: "ptr \<Rightarrow> heap \<Rightarrow> heap option" where
  "non_leaf_delete p s = do { s \<leftarrow> list_del (Link p) s; Some (s\<lparr>nodes := (nodes s)(p := None)\<rparr>) }"

definition leaf_delete :: "ptr \<Rightarrow> heap \<Rightarrow> heap option" where
  "leaf_delete p s = do { s \<leftarrow> list_del (Link p) s; Some (s\<lparr>nodes := (nodes s)(p := None)\<rparr>) }"

text \<open>
  \<^verbatim>\<open>bplus_tree_init\<close>: the two assertions, then the descriptor. The offset, and the
  memory the tree will be given, are what they were: the code does not set them.
\<close>

definition bplus_tree_init :: "int \<Rightarrow> int \<Rightarrow> heap \<Rightarrow> heap option" where
  "bplus_tree_init ord ent s =
     (if BPLUS_MIN_ORDER < BPLUS_MAX_ORDER \<and> ord \<le> BPLUS_MAX_ORDER \<and> ent \<le> BPLUS_MAX_ENTRIES
      then Some (s\<lparr>tree := (tree s)\<lparr>root := None, order := ord, entries := ent, level := 0,
             levels := map (\<lambda>i. \<lparr>prev = Head i, next = Head i\<rparr>) [0..<BPLUS_MAX_LEVEL]\<rparr>\<rparr>)
      else None)"

text \<open>\<^verbatim>\<open>mybplus_tree_init\<close> opens the data file and starts at its beginning.\<close>

definition mybplus_tree_init :: "bplus_tree \<Rightarrow> bplus_tree" where
  "mybplus_tree_init t = t\<lparr>offset := 0\<rparr>"

subsection \<open>A concrete memory\<close>

text \<open>
  Memory as \<^verbatim>\<open>malloc\<close> may return it (nothing in it is meaningful), used where a
  statement is applied to a concrete heap.
\<close>

definition garbage_leaf :: bplus_leaf where
  "garbage_leaf =
     \<lparr>node_type = 7, parent_key_idx = 7, parent = Some 9, link = \<lparr>prev = Head 99, next = Head 99\<rparr>,
      count = 77, tids = replicate 50 (Some 99), lkey = replicate 50 (-9),
      ldata = replicate 50 (replicate 33 5), lchildhash = replicate 50 (replicate 33 5),
      lnode_hash = replicate 33 5, lnode_id = 9, lparent_id = 9\<rparr>"

definition garbage_non_leaf :: bplus_non_leaf where
  "garbage_non_leaf =
     \<lparr>node_type = 7, parent_key_idx = 7, parent = Some 9, link = \<lparr>prev = Head 99, next = Head 99\<rparr>,
      count = 77, tids = replicate 50 (Some 99), nkey = replicate 49 (-9),
      sub_ptr = replicate 50 (Some 9), nchildhash = replicate 50 (replicate 33 5),
      nnode_hash = replicate 33 5, chindrenoffset = replicate 50 9, nnode_id = 9, nparent_id = 9\<rparr>"

definition blank_heap :: heap where
  "blank_heap =
     \<lparr>tree = \<lparr>order = 0, entries = 0, level = 0, root = None, levels = [], offset = 0\<rparr>,
      nodes = Map.empty, items = Map.empty, next_ptr = 1, raw_leaf = (\<lambda>_. garbage_leaf),
      raw_non_leaf = (\<lambda>_. garbage_non_leaf),
      raw_item = (\<lambda>_. \<lparr>bi_hi = 0, bi_lo = 0, ip_posid = 0\<rparr>)\<rparr>"

end
