(* ===== verification/MBT_Search.thy ===== *)
theory MBT_Search
  imports MBT_Node
begin

text \<open>
  The binary search over the key array of a node and the lookup functions of
  \<^verbatim>\<open>src/backend/mbt/mbtree.c\<close>. A read of the array outside its bounds is a fault.
  The descents are loops over the heap, whose pointers could form a cycle: they
  carry a fuel, and the result \<open>None\<close> stands for a fault or for fuel that ran out.
\<close>

function kbs_loop :: "int list \<Rightarrow> int \<Rightarrow> int \<Rightarrow> int \<Rightarrow> int option" where
  "kbs_loop arr target low high =
     (if low + 1 < high then
        let mid = low + c_div (high - low) 2 in
        (case aget arr mid of
           None \<Rightarrow> None
         | Some a \<Rightarrow> if a < target then kbs_loop arr target mid high else kbs_loop arr target low mid)
      else Some high)"
  by pat_completeness auto
termination
  by (relation "measure (\<lambda>(arr, target, low, high). nat (high - low))") auto

declare kbs_loop.simps [simp del]

definition key_binary_search :: "int list \<Rightarrow> int \<Rightarrow> int \<Rightarrow> int option" where
  "key_binary_search arr len target =
     do { high \<leftarrow> kbs_loop arr target (-1) len;
          if high \<ge> len then Some (- high - 1)
          else do { a \<leftarrow> aget arr high;
                    Some (if a \<noteq> target then - high - 1 else high) } }"

text \<open>The child a descent follows: \<^verbatim>\<open>sub_ptr[i + 1]\<close> on a hit, \<^verbatim>\<open>sub_ptr[-i - 1]\<close> otherwise.\<close>

definition descend :: "bplus_non_leaf \<Rightarrow> int \<Rightarrow> ptr option option" where
  "descend nln key =
     do { i \<leftarrow> key_binary_search (nkey nln) (count nln - 1) key;
          aget (sub_ptr nln) (if i \<ge> 0 then i + 1 else - i - 1) }"

text \<open>
  \<^verbatim>\<open>bplus_tree_search\<close> initialises every non-leaf node on its way before it looks
  at the keys. \<open>ret\<close> is the 32-byte buffer of the result.
\<close>

primrec search_loop :: "nat \<Rightarrow> ptr option \<Rightarrow> int \<Rightarrow> byte list \<Rightarrow> heap \<Rightarrow> (byte list \<times> heap) option" where
  "search_loop 0 nd key ret s = None"
| "search_loop (Suc fuel) nd key ret s =
     (case nd of
        None \<Rightarrow> Some (ret, s)
      | Some p \<Rightarrow> do {
          h \<leftarrow> get_node s p;
          if is_leaf h then do {
            ln \<leftarrow> get_leaf s p;
            i \<leftarrow> key_binary_search (lkey ln) (count ln) key;
            ret \<leftarrow> (if i \<ge> 0 then do { d \<leftarrow> aget (ldata ln) i; strcpy ret d }
                    else strcpy ret (ascii ''0'' @ [0]));
            Some (ret, s) }
          else do {
            nln \<leftarrow> get_non_leaf s p;
            let nln' = bplus_non_leaf_init nln;
            c \<leftarrow> descend nln' key;
            search_loop fuel c key ret (put_non_leaf p nln' s) } })"

text \<open>The fuel of a descent: one step per level, the null test included.\<close>

definition descent_fuel :: nat where
  "descent_fuel = BPLUS_MAX_LEVEL + 2"

definition bplus_tree_search :: "byte list \<Rightarrow> int \<Rightarrow> heap \<Rightarrow> (byte list \<times> heap) option" where
  "bplus_tree_search raw key s =
     do { ret \<leftarrow> strcpy raw (ascii ''-1'' @ [0]);
          search_loop descent_fuel (root (tree s)) key ret s }"

definition bplus_tree_get :: "byte list \<Rightarrow> byte list \<Rightarrow> int \<Rightarrow> heap \<Rightarrow> (byte list \<times> heap) option" where
  "bplus_tree_get raw raw' key s =
     do { (r, s) \<leftarrow> bplus_tree_search raw key s;
          data \<leftarrow> strcpy raw' r;
          Some (if cstr data \<noteq> ascii ''0'' then data else ascii ''-1'' @ [0], s) }"

subsection \<open>The binary search\<close>

text \<open>\<open>key_pos ks t\<close>: the number of keys below \<open>t\<close>.\<close>

definition key_pos :: "int list \<Rightarrow> int \<Rightarrow> nat" where
  "key_pos ks t = length (takeWhile (\<lambda>k. k < t) ks)"

lemma key_pos_le: "key_pos ks t \<le> length ks"
  by (simp add: key_pos_def length_takeWhile_le)

lemma key_pos_below: "i < key_pos ks t \<Longrightarrow> ks ! i < t"
  unfolding key_pos_def by (metis nth_mem set_takeWhileD takeWhile_nth)

lemma key_pos_above:
  assumes "sorted ks" "key_pos ks t \<le> i" "i < length ks"
  shows "t \<le> ks ! i"
proof -
  have "\<not> ks ! key_pos ks t < t"
    using nth_length_takeWhile [of "\<lambda>k. k < t" ks] assms(2,3) by (simp add: key_pos_def)
  then show ?thesis
    using sorted_nth_mono [OF assms(1,2,3)] by linarith
qed

lemma key_pos_unique:
  assumes "p \<le> length ks" "\<And>i. i < p \<Longrightarrow> ks ! i < t" "p < length ks \<Longrightarrow> t \<le> ks ! p"
  shows "key_pos ks t = p"
proof -
  have "takeWhile (\<lambda>k. k < t) ks = take p ks"
    using assms by (intro takeWhile_eq_take_P_nth) (auto simp: not_less)
  then show ?thesis
    using assms(1) by (simp add: key_pos_def)
qed

lemma kbs_loop_pos:
  assumes "length ks \<le> length arr" "take (length ks) arr = ks" "sorted ks"
    and "-1 \<le> low" "low < high" "high \<le> int (length ks)"
    and "low \<ge> 0 \<Longrightarrow> ks ! nat low < t" "high < int (length ks) \<Longrightarrow> t \<le> ks ! nat high"
  shows "kbs_loop arr t low high = Some (int (key_pos ks t))"
  using assms
proof (induction arr t low high rule: kbs_loop.induct)
  case (1 arr t low high)
  show ?case
  proof (cases "low + 1 < high")
    case True
    let ?mid = "low + c_div (high - low) 2"
    have mid: "low < ?mid" "?mid < high" "0 \<le> ?mid"
      using True 1(6) by auto
    have "nat ?mid < length ks"
      using mid 1(8) by linarith
    then have get: "aget arr ?mid = Some (ks ! nat ?mid)"
      using mid(3) 1(3) nth_take [of "nat ?mid" "length ks" arr] 1(4) by (simp add: aget_def)
    note IH = 1(1) [OF True refl get _ 1(3-5)] 1(2) [OF True refl get _ 1(3-5)]
    have "kbs_loop arr t low high =
        (if ks ! nat ?mid < t then kbs_loop arr t ?mid high else kbs_loop arr t low ?mid)"
      using True get by (subst kbs_loop.simps) (simp only: Let_def if_True option.simps)
    then show ?thesis
      using IH mid 1(6-10) by (cases "ks ! nat ?mid < t") simp_all
  next
    case False
    then have h: "high = low + 1" "0 \<le> high" using 1 by auto
    have "key_pos ks t = nat high"
    proof (rule key_pos_unique)
      fix i assume "i < nat high"
      then have "i \<le> nat low" "0 \<le> low" using h by auto
      then show "ks ! i < t"
        using 1(9) sorted_nth_mono [OF 1(5), of i "nat low"] 1(7,8) by force
    qed (use 1 h in auto)
    then show ?thesis
      using False h by (subst kbs_loop.simps) simp
  qed
qed

lemma key_pos_mem:
  assumes "sorted ks"
  shows "t \<in> set ks \<longleftrightarrow> key_pos ks t < length ks \<and> ks ! key_pos ks t = t"
proof
  assume "t \<in> set ks"
  then obtain i where i: "i < length ks" "ks ! i = t" by (auto simp: in_set_conv_nth)
  then have "key_pos ks t \<le> i" using key_pos_below [of i ks t] by (metis less_irrefl not_le)
  moreover have "ks ! key_pos ks t \<le> ks ! i"
    using sorted_nth_mono [OF assms calculation] i by simp
  moreover have "t \<le> ks ! key_pos ks t"
    using key_pos_above [OF assms order_refl] calculation i by simp
  ultimately show "key_pos ks t < length ks \<and> ks ! key_pos ks t = t" using i by simp
qed (metis nth_mem)

lemma key_binary_search_eq:
  assumes "length ks \<le> length arr" "take (length ks) arr = ks" "sorted ks"
  shows "key_binary_search arr (int (length ks)) t =
    Some (if t \<in> set ks then int (key_pos ks t) else - int (key_pos ks t) - 1)"
proof -
  have loop: "kbs_loop arr t (-1) (int (length ks)) = Some (int (key_pos ks t))"
    using assms by (intro kbs_loop_pos) auto
  have get: "aget arr (int (key_pos ks t)) = Some (ks ! key_pos ks t)" if "key_pos ks t < length ks"
    using that assms(1,2) by (auto simp: aget_def) (metis nth_take)
  note mem = key_pos_mem [OF assms(3), of t]
  show ?thesis
    using loop get mem key_pos_le [of ks t]
    by (cases "key_pos ks t < length ks") (auto simp: key_binary_search_def)
qed

lemma takeWhile_le_key:
  assumes "sorted_wrt (<) ks"
  shows "length (takeWhile (\<lambda>k. k \<le> t) ks) = (if t \<in> set ks then Suc (key_pos ks t) else key_pos ks t)"
proof -
  let ?p = "key_pos ks t"
  have srt: "sorted ks" using assms by (rule strict_sorted_imp_sorted)
  show ?thesis
  proof (cases "t \<in> set ks")
    case True
    then have p: "?p < length ks" "ks ! ?p = t" using key_pos_mem [OF srt] by auto
    have "takeWhile (\<lambda>k. k \<le> t) ks = take (Suc ?p) ks"
    proof (rule takeWhile_eq_take_P_nth)
      fix i assume "i < Suc ?p" "i < length ks"
      then show "ks ! i \<le> t"
        using key_pos_below [of i ks t] p(2) less_antisym by fastforce
    next
      assume "Suc ?p < length ks"
      then show "\<not> ks ! Suc ?p \<le> t"
        using sorted_wrt_nth_less [OF assms, of ?p "Suc ?p"] p(2) by simp
    qed
    then show ?thesis using True p by simp
  next
    case False
    have "takeWhile (\<lambda>k. k \<le> t) ks = take ?p ks"
    proof (rule takeWhile_eq_take_P_nth)
      assume "?p < length ks"
      then show "\<not> ks ! ?p \<le> t"
        using key_pos_above [OF srt order_refl, of t] False by (metis nth_mem order_antisym)
    qed (metis key_pos_below less_imp_le)
    then show ?thesis using False key_pos_le [of ks t] by simp
  qed
qed

lemma descend_eq:
  assumes "length ks \<le> length (nkey n)" "take (length ks) (nkey n) = ks" "sorted_wrt (<) ks"
    "count n = int (length ks) + 1" "length ks < length (sub_ptr n)"
  shows "descend n key = Some (sub_ptr n ! length (takeWhile (\<lambda>k. k \<le> key) ks))"
proof -
  have srt: "sorted ks" using assms(3) by (rule strict_sorted_imp_sorted)
  have "key_pos ks key < length ks" if "key \<in> set ks"
    using key_pos_mem [OF srt] that by simp
  then show ?thesis
    using key_binary_search_eq [OF assms(1,2) srt, of key] assms(4,5) key_pos_le [of ks key]
    by (auto simp: descend_def aget_def takeWhile_le_key [OF assms(3)] nat_add_distrib)
qed

subsection \<open>Properties\<close>

text \<open>
  C24. On a sorted array \<^verbatim>\<open>key_binary_search\<close> returns the first place of the target
  when the target is there, and otherwise \<open>- p - 1\<close> for the place \<open>p\<close> that splits the
  array into the keys below and the keys above the target. It reads inside the
  first \<^verbatim>\<open>len\<close> cells only, and it returns.
\<close>

theorem key_binary_search_correct:
  assumes "sorted ks"
  shows "\<exists>r. key_binary_search (ks @ rest) (int (length ks)) t = Some r \<and>
    (if t \<in> set ks
     then 0 \<le> r \<and> nat r < length ks \<and> ks ! nat r = t \<and> (\<forall>i < nat r. ks ! i < t)
     else r < 0 \<and> nat (- r - 1) \<le> length ks \<and> (\<forall>i < nat (- r - 1). ks ! i < t) \<and>
          (\<forall>i < length ks. nat (- r - 1) \<le> i \<longrightarrow> t < ks ! i))"
proof -
  have "t < ks ! i" if "t \<notin> set ks" "key_pos ks t \<le> i" "i < length ks" for i
    using key_pos_above [OF assms that(2,3)] that(1,3) by (metis nth_mem order_le_less)
  then show ?thesis
    using key_binary_search_eq [of ks "ks @ rest" t] key_pos_mem [OF assms, of t] key_pos_below
      key_pos_le [of ks t] assms by auto
qed

theorem key_binary_search_correct_witness:
  "sorted [2, 5, 9 :: int] \<and>
   (\<exists>r. key_binary_search ([2, 5, 9] @ [1, 1]) 3 7 = Some r \<and> r < 0 \<and> nat (- r - 1) \<le> 3 \<and>
     (\<forall>i < nat (- r - 1). [2, 5, 9] ! i < (7 :: int)) \<and>
     (\<forall>i < 3. nat (- r - 1) \<le> i \<longrightarrow> 7 < [2, 5, 9 :: int] ! i))"
  using key_binary_search_correct [of "[2, 5, 9]" "[1, 1]" 7] by (simp add: numeral_3_eq_3)

end
