(* ===== verification/MBT_Insert.thy ===== *)
theory MBT_Insert
  imports MBT_Search
begin

text \<open>
  Insertion into the tree: \<^verbatim>\<open>bplus_tree_insert\<close> of \<^verbatim>\<open>src/backend/mbt/mbtree.c\<close> and
  everything it calls, from the node splits to the construction of a new root.
  Non-leaf nodes are changed in the heap, write by write, since the loops also
  write the parent fields of the children. The loops over two leaves work on the
  two leaf structures and the store of item pointers, which the entries of
  different leaves may share; the structures are written back at the end. The
  index the code calls \<^verbatim>\<open>insert\<close> is \<open>ins\<close> here.
\<close>

subsection \<open>Writes to a non-leaf node and its children\<close>

definition get_sub :: "heap \<Rightarrow> ptr \<Rightarrow> int \<Rightarrow> ptr option option" where
  "get_sub s p i = do { n \<leftarrow> get_non_leaf s p; aget (sub_ptr n) i }"

definition put_sub :: "ptr \<Rightarrow> int \<Rightarrow> ptr option \<Rightarrow> heap \<Rightarrow> heap option" where
  "put_sub p i c s =
     do { n \<leftarrow> get_non_leaf s p; xs \<leftarrow> aput (sub_ptr n) i c;
          Some (put_non_leaf p (n\<lparr>sub_ptr := xs\<rparr>) s) }"

definition get_nkey :: "heap \<Rightarrow> ptr \<Rightarrow> int \<Rightarrow> int option" where
  "get_nkey s p i = do { n \<leftarrow> get_non_leaf s p; aget (nkey n) i }"

definition put_nkey :: "ptr \<Rightarrow> int \<Rightarrow> int \<Rightarrow> heap \<Rightarrow> heap option" where
  "put_nkey p i k s =
     do { n \<leftarrow> get_non_leaf s p; xs \<leftarrow> aput (nkey n) i k;
          Some (put_non_leaf p (n\<lparr>nkey := xs\<rparr>) s) }"

definition put_children :: "ptr \<Rightarrow> int \<Rightarrow> heap \<Rightarrow> heap option" where
  "put_children p c s = do { n \<leftarrow> get_non_leaf s p; Some (put_non_leaf p (n\<lparr>count := c\<rparr>) s) }"

text \<open>\<^verbatim>\<open>p->sub_ptr[j]->parent = q\<close> and \<^verbatim>\<open>p->sub_ptr[j]->parent_key_idx = idx\<close>.\<close>

definition sub_set_parent :: "ptr \<Rightarrow> int \<Rightarrow> ptr option \<Rightarrow> heap \<Rightarrow> heap option" where
  "sub_set_parent p j q s = do { c \<leftarrow> get_sub s p j; c \<leftarrow> c; upd_node (set_parent q) c s }"

definition sub_set_idx :: "ptr \<Rightarrow> int \<Rightarrow> int \<Rightarrow> heap \<Rightarrow> heap option" where
  "sub_set_idx p j idx s = do { c \<leftarrow> get_sub s p j; c \<leftarrow> c; upd_node (set_parent_key_idx idx) c s }"

text \<open>The three assignments with which the code hangs the child \<open>c\<close> under \<open>p\<close> at \<open>j\<close>.\<close>

definition attach :: "ptr \<Rightarrow> int \<Rightarrow> ptr option \<Rightarrow> int \<Rightarrow> heap \<Rightarrow> heap option" where
  "attach p j c idx s =
     do { s \<leftarrow> put_sub p j c s; s \<leftarrow> sub_set_parent p j (Some p) s; sub_set_idx p j idx s }"

subsection \<open>Splitting and filling non-leaf nodes\<close>

function nl_split_left_subs ::
    "ptr \<Rightarrow> ptr \<Rightarrow> ptr \<Rightarrow> ptr \<Rightarrow> int \<Rightarrow> int \<Rightarrow> int \<Rightarrow> int \<Rightarrow> heap \<Rightarrow> heap option" where
  "nl_split_left_subs node left l_ch r_ch ins split i j s =
     (if i < split then
        if j = ins then do {
          s \<leftarrow> attach left j (Some l_ch) (j - 1) s;
          s \<leftarrow> attach left (j + 1) (Some r_ch) j s;
          nl_split_left_subs node left l_ch r_ch ins split (i + 1) (j + 2) s }
        else do {
          c \<leftarrow> get_sub s node i;
          s \<leftarrow> attach left j c (j - 1) s;
          nl_split_left_subs node left l_ch r_ch ins split (i + 1) (j + 1) s }
      else Some s)"
  by pat_completeness auto
termination
  by (relation "measure (\<lambda>(node, left, l_ch, r_ch, ins, split, i, j, s). nat (split - i))") auto

function nl_split_left_keys ::
    "ptr \<Rightarrow> ptr \<Rightarrow> int \<Rightarrow> int \<Rightarrow> int \<Rightarrow> int \<Rightarrow> int \<Rightarrow> heap \<Rightarrow> (int \<times> heap) option" where
  "nl_split_left_keys node left key ins split i j s =
     (if i < split - 1 then
        if j = ins then do {
          s \<leftarrow> put_nkey left j key s;
          nl_split_left_keys node left key ins split i (j + 1) s }
        else do {
          k \<leftarrow> get_nkey s node i;
          s \<leftarrow> put_nkey left j k s;
          nl_split_left_keys node left key ins split (i + 1) (j + 1) s }
      else Some (j, s))"
  by pat_completeness auto
termination
  by (relation "measures [\<lambda>(node, left, key, ins, split, i, j, s). nat (split - 1 - i),
        \<lambda>(node, left, key, ins, split, i, j, s). nat (ins + 1 - j)]") auto

text \<open>The left shift of the split node; \<open>i - j\<close> stays the same.\<close>

function nl_shift_left :: "ptr \<Rightarrow> int \<Rightarrow> int \<Rightarrow> int \<Rightarrow> heap \<Rightarrow> (int \<times> int \<times> heap) option" where
  "nl_shift_left node ord i j s =
     (if i < ord - 1 then do {
        k \<leftarrow> get_nkey s node i;
        s \<leftarrow> put_nkey node j k s;
        c \<leftarrow> get_sub s node (i + 1);
        s \<leftarrow> attach node (j + 1) c j s;
        nl_shift_left node ord (i + 1) (j + 1) s }
      else Some (i, j, s))"
  by pat_completeness auto
termination
  by (relation "measure (\<lambda>(node, ord, i, j, s). nat (ord - 1 - i))") auto

definition non_leaf_split_left ::
    "ptr \<Rightarrow> ptr \<Rightarrow> ptr \<Rightarrow> ptr \<Rightarrow> int \<Rightarrow> int \<Rightarrow> heap \<Rightarrow> (int \<times> heap) option" where
  "non_leaf_split_left node left l_ch r_ch key ins s =
     do { n \<leftarrow> get_non_leaf s node;
          let ord = count n;
          let split = c_div (ord + 1) 2;
          s \<leftarrow> list_add_between (Link left) (prev (link n)) (Link node) s;
          s \<leftarrow> nl_split_left_subs node left l_ch r_ch ins split 0 0 s;
          s \<leftarrow> put_children left split s;
          (j, s) \<leftarrow> nl_split_left_keys node left key ins split 0 0 s;
          (split_key, s) \<leftarrow>
            (if ins = split - 1 then do {
               s \<leftarrow> put_nkey left ins key s;
               s \<leftarrow> attach left ins (Some l_ch) (j - 1) s;
               s \<leftarrow> put_sub node 0 (Some r_ch) s;
               Some (key, s) }
             else do {
               c \<leftarrow> get_sub s node (split - 1);
               s \<leftarrow> put_sub node 0 c s;
               k \<leftarrow> get_nkey s node (split - 2);
               Some (k, s) });
          s \<leftarrow> sub_set_parent node 0 (Some node) s;
          s \<leftarrow> sub_set_idx node 0 (-1) s;
          (i, j, s) \<leftarrow> nl_shift_left node ord (split - 1) 0 s;
          c \<leftarrow> get_sub s node i;
          s \<leftarrow> put_sub node j c s;
          s \<leftarrow> put_children node (j + 1) s;
          Some (split_key, s) }"

function nl_split_right1_copy :: "ptr \<Rightarrow> ptr \<Rightarrow> int \<Rightarrow> int \<Rightarrow> int \<Rightarrow> heap \<Rightarrow> (int \<times> heap) option" where
  "nl_split_right1_copy node right ord i j s =
     (if i < ord - 1 then do {
        k \<leftarrow> get_nkey s node i;
        s \<leftarrow> put_nkey right j k s;
        c \<leftarrow> get_sub s node (i + 1);
        s \<leftarrow> attach right (j + 1) c j s;
        nl_split_right1_copy node right ord (i + 1) (j + 1) s }
      else Some (j, s))"
  by pat_completeness auto
termination
  by (relation "measure (\<lambda>(node, right, ord, i, j, s). nat (ord - 1 - i))") auto

definition non_leaf_split_right1 ::
    "ptr \<Rightarrow> ptr \<Rightarrow> ptr \<Rightarrow> ptr \<Rightarrow> int \<Rightarrow> int \<Rightarrow> heap \<Rightarrow> (int \<times> heap) option" where
  "non_leaf_split_right1 node right l_ch r_ch key ins s =
     do { n \<leftarrow> get_non_leaf s node;
          let ord = count n;
          let split = c_div (ord + 1) 2;
          s \<leftarrow> list_add (Link right) (Link node) s;
          split_key \<leftarrow> get_nkey s node (split - 1);
          s \<leftarrow> put_children node split s;
          s \<leftarrow> put_nkey right 0 key s;
          s \<leftarrow> attach right 0 (Some l_ch) (-1) s;
          s \<leftarrow> attach right 1 (Some r_ch) 0 s;
          (j, s) \<leftarrow> nl_split_right1_copy node right ord split 1 s;
          s \<leftarrow> put_children right (j + 1) s;
          Some (split_key, s) }"

text \<open>The loop skips the place of the new key; \<open>hole = ins - split - 1\<close>.\<close>

function nl_split_right2_copy ::
    "ptr \<Rightarrow> ptr \<Rightarrow> int \<Rightarrow> int \<Rightarrow> int \<Rightarrow> int \<Rightarrow> heap \<Rightarrow> (int \<times> heap) option" where
  "nl_split_right2_copy node right ord hole i j s =
     (if i < ord - 1 then
        if j \<noteq> hole then do {
          k \<leftarrow> get_nkey s node i;
          s \<leftarrow> put_nkey right j k s;
          c \<leftarrow> get_sub s node (i + 1);
          s \<leftarrow> attach right (j + 1) c j s;
          nl_split_right2_copy node right ord hole (i + 1) (j + 1) s }
        else nl_split_right2_copy node right ord hole i (j + 1) s
      else Some (j, s))"
  by pat_completeness auto
termination
  by (relation "measures [\<lambda>(node, right, ord, hole, i, j, s). nat (ord - 1 - i),
        \<lambda>(node, right, ord, hole, i, j, s). nat (hole + 1 - j)]") auto

definition non_leaf_split_right2 ::
    "ptr \<Rightarrow> ptr \<Rightarrow> ptr \<Rightarrow> ptr \<Rightarrow> int \<Rightarrow> int \<Rightarrow> heap \<Rightarrow> (int \<times> heap) option" where
  "non_leaf_split_right2 node right l_ch r_ch key ins s =
     do { n \<leftarrow> get_non_leaf s node;
          let ord = count n;
          let split = c_div (ord + 1) 2;
          let hole = ins - split - 1;
          s \<leftarrow> put_children node (split + 1) s;
          s \<leftarrow> list_add (Link right) (Link node) s;
          split_key \<leftarrow> get_nkey s node split;
          c \<leftarrow> get_sub s node (split + 1);
          s \<leftarrow> attach right 0 c (-1) s;
          (j, s) \<leftarrow> nl_split_right2_copy node right ord hole (split + 1) 0 s;
          s \<leftarrow> (if j > hole then put_children right (j + 1) s
                else if j = hole then put_children right (j + 2) s else None);
          s \<leftarrow> put_nkey right hole key s;
          s \<leftarrow> attach right hole (Some l_ch) (hole - 1) s;
          s \<leftarrow> attach right (hole + 1) (Some r_ch) hole s;
          Some (split_key, s) }"

definition non_leaf_simple_insert ::
    "ptr \<Rightarrow> ptr \<Rightarrow> ptr \<Rightarrow> int \<Rightarrow> int \<Rightarrow> heap \<Rightarrow> heap option" where
  "non_leaf_simple_insert node l_ch r_ch key ins s =
     do { n \<leftarrow> get_non_leaf s node;
          s \<leftarrow> for_down (count n - 1) ins
                 (\<lambda>i s. do {
                    k \<leftarrow> get_nkey s node (i - 1);
                    s \<leftarrow> put_nkey node i k s;
                    c \<leftarrow> get_sub s node i;
                    s \<leftarrow> put_sub node (i + 1) c s;
                    sub_set_idx node (i + 1) i s }) s;
          let i = min ins (count n - 1);
          s \<leftarrow> put_nkey node i key s;
          s \<leftarrow> put_sub node i (Some l_ch) s;
          s \<leftarrow> sub_set_idx node i (i - 1) s;
          s \<leftarrow> put_sub node (i + 1) (Some r_ch) s;
          s \<leftarrow> sub_set_idx node (i + 1) i s;
          n \<leftarrow> get_non_leaf s node;
          put_children node (count n + 1) s }"

declare nl_split_left_subs.simps [simp del] nl_split_left_keys.simps [simp del]
  nl_shift_left.simps [simp del] nl_split_right1_copy.simps [simp del]
  nl_split_right2_copy.simps [simp del]

subsection \<open>The way up\<close>

text \<open>
  \<^verbatim>\<open>parent_node_build\<close> and \<^verbatim>\<open>non_leaf_insert\<close> call each other on the way to the root:
  the first takes the second as an argument, and the second carries a fuel, one
  unit per non-leaf level.
\<close>

definition parent_node_build ::
    "(ptr \<Rightarrow> ptr \<Rightarrow> ptr \<Rightarrow> int \<Rightarrow> int \<Rightarrow> heap \<Rightarrow> (int \<times> heap) option) \<Rightarrow>
     ptr \<Rightarrow> ptr \<Rightarrow> int \<Rightarrow> int \<Rightarrow> heap \<Rightarrow> (int \<times> heap) option" where
  "parent_node_build nl_insert left right key lv s =
     do { l \<leftarrow> get_node s left;
          r \<leftarrow> get_node s right;
          case (parent l, parent r) of
            (None, None) \<Rightarrow> do {
              (par, s) \<leftarrow> non_leaf_new s;
              s \<leftarrow> put_nkey par 0 key s;
              s \<leftarrow> attach par 0 (Some left) (-1) s;
              s \<leftarrow> attach par 1 (Some right) 0 s;
              s \<leftarrow> put_children par 2 s;
              let lev = level (tree s) + 1;
              let s = s\<lparr>tree := (tree s)\<lparr>root := Some par, level := lev\<rparr>\<rparr>;
              s \<leftarrow> (if lev < 0 then None else list_add (Link par) (Head (nat lev)) s);
              Some (0, s) }
          | (Some q, None) \<Rightarrow> do {
              s \<leftarrow> upd_node (set_parent (Some q)) right s;
              nl_insert q left right key (lv + 1) s }
          | (_, Some q) \<Rightarrow> do {
              s \<leftarrow> upd_node (set_parent (Some q)) left s;
              nl_insert q left right key (lv + 1) s } }"

primrec non_leaf_insert ::
    "nat \<Rightarrow> ptr \<Rightarrow> ptr \<Rightarrow> ptr \<Rightarrow> int \<Rightarrow> int \<Rightarrow> heap \<Rightarrow> (int \<times> heap) option" where
  "non_leaf_insert 0 node l_ch r_ch key lv s = None"
| "non_leaf_insert (Suc fuel) node l_ch r_ch key lv s =
     do { n \<leftarrow> get_non_leaf s node;
          i \<leftarrow> key_binary_search (nkey n) (count n - 1) key;
          if i < 0 then
            let ins = - i - 1 in
            if count n = order (tree s) then
              let split = c_div (count n + 1) 2 in
              do { (sibling, s) \<leftarrow> non_leaf_new s;
                   (split_key, s) \<leftarrow>
                     (if ins < split then non_leaf_split_left node sibling l_ch r_ch key ins s
                      else if ins = split then non_leaf_split_right1 node sibling l_ch r_ch key ins s
                      else non_leaf_split_right2 node sibling l_ch r_ch key ins s);
                   if ins < split
                   then parent_node_build (non_leaf_insert fuel) sibling node split_key lv s
                   else parent_node_build (non_leaf_insert fuel) node sibling split_key lv s }
            else do { s \<leftarrow> non_leaf_simple_insert node l_ch r_ch key ins s; Some (0, s) }
          else None }"

subsection \<open>Leaves\<close>

text \<open>Copying entry \<open>i\<close> of one leaf to place \<open>j\<close> of another: the item pointer is shared.\<close>

definition leaf_copy_entry :: "bplus_leaf \<Rightarrow> int \<Rightarrow> bplus_leaf \<Rightarrow> int \<Rightarrow> bplus_leaf option" where
  "leaf_copy_entry src i dst j =
     do { k \<leftarrow> aget (lkey src) i;
          ks \<leftarrow> aput (lkey dst) j k;
          d \<leftarrow> aget (ldata src) i;
          ds \<leftarrow> put_str (ldata dst) j d;
          t \<leftarrow> aget (tids src) i;
          ts \<leftarrow> aput (tids dst) j t;
          Some (dst\<lparr>lkey := ks, ldata := ds, tids := ts\<rparr>) }"

type_synonym item_store = "ptr \<Rightarrow> ItemPointerData option"

text \<open>\<^verbatim>\<open>l->tids[j]->... = tid->...\<close>, the three fields: a write through the pointer in \<^verbatim>\<open>tids[j]\<close>.\<close>

definition write_tid :: "bplus_leaf \<Rightarrow> int \<Rightarrow> ItemPointerData \<Rightarrow> item_store \<Rightarrow> item_store option" where
  "write_tid l j tid it =
     do { t \<leftarrow> aget (tids l) j; q \<leftarrow> t; old \<leftarrow> it q; Some (it(q \<mapsto> tid)) }"

definition leaf_put_entry ::
    "int \<Rightarrow> byte list \<Rightarrow> ItemPointerData \<Rightarrow> bplus_leaf \<Rightarrow> int \<Rightarrow> item_store \<Rightarrow> (bplus_leaf \<times> item_store) option" where
  "leaf_put_entry key data tid dst j it =
     do { ks \<leftarrow> aput (lkey dst) j key;
          ds \<leftarrow> put_str (ldata dst) j data;
          it \<leftarrow> write_tid dst j tid it;
          Some (dst\<lparr>lkey := ks, ldata := ds\<rparr>, it) }"

function leaf_split_left_copy ::
    "bplus_leaf \<Rightarrow> int \<Rightarrow> byte list \<Rightarrow> ItemPointerData \<Rightarrow> int \<Rightarrow> int \<Rightarrow> int \<Rightarrow> int \<Rightarrow> bplus_leaf \<Rightarrow> item_store \<Rightarrow>
     (int \<times> int \<times> bplus_leaf \<times> item_store) option" where
  "leaf_split_left_copy leaf key data tid ins split i j left it =
     (if i < split - 1 then
        if j = ins then do {
          (left, it) \<leftarrow> leaf_put_entry key data tid left j it;
          leaf_split_left_copy leaf key data tid ins split i (j + 1) left it }
        else do {
          left \<leftarrow> leaf_copy_entry leaf i left j;
          leaf_split_left_copy leaf key data tid ins split (i + 1) (j + 1) left it }
      else Some (i, j, left, it))"
  by pat_completeness auto
termination
  by (relation "measures [\<lambda>(leaf, key, data, tid, ins, split, i, j, left, it). nat (split - 1 - i),
        \<lambda>(leaf, key, data, tid, ins, split, i, j, left, it). nat (ins + 1 - j)]") auto

text \<open>
  The loop commented \<^verbatim>\<open>left shift for right node\<close>: keys and item pointers move
  inside the leaf, the data is copied into the left leaf.
\<close>

function leaf_split_left_shift ::
    "int \<Rightarrow> int \<Rightarrow> int \<Rightarrow> bplus_leaf \<Rightarrow> bplus_leaf \<Rightarrow> (int \<times> bplus_leaf \<times> bplus_leaf) option" where
  "leaf_split_left_shift n i j leaf left =
     (if i < n then do {
        k \<leftarrow> aget (lkey leaf) i;
        ks \<leftarrow> aput (lkey leaf) j k;
        t \<leftarrow> aget (tids leaf) i;
        ts \<leftarrow> aput (tids leaf) j t;
        d \<leftarrow> aget (ldata leaf) i;
        ds \<leftarrow> put_str (ldata left) j d;
        leaf_split_left_shift n (i + 1) (j + 1) (leaf\<lparr>lkey := ks, tids := ts\<rparr>) (left\<lparr>ldata := ds\<rparr>) }
      else Some (j, leaf, left))"
  by pat_completeness auto
termination
  by (relation "measure (\<lambda>(n, i, j, leaf, left). nat (n - i))") auto

definition leaf_split_left ::
    "ptr \<Rightarrow> ptr \<Rightarrow> int \<Rightarrow> byte list \<Rightarrow> ItemPointerData \<Rightarrow> int \<Rightarrow> heap \<Rightarrow> heap option" where
  "leaf_split_left p q key data tid ins s =
     do { l \<leftarrow> get_leaf s p;
          let split = c_div (count l + 1) 2;
          s \<leftarrow> list_add_between (Link q) (prev (link l)) (Link p) s;
          leaf \<leftarrow> get_leaf s p;
          left \<leftarrow> get_leaf s q;
          (i, j, left, it) \<leftarrow> leaf_split_left_copy leaf key data tid ins split 0 0 left (items s);
          (j, left, it) \<leftarrow>
            (if j = ins then do { (left, it) \<leftarrow> leaf_put_entry key data tid left j it;
                                  Some (j + 1, left, it) }
             else Some (j, left, it));
          let left = left\<lparr>count := j\<rparr>;
          (j, leaf, left) \<leftarrow> leaf_split_left_shift (count leaf) i 0 leaf left;
          Some (put_leaf p (leaf\<lparr>count := j\<rparr>) (put_leaf q left (s\<lparr>items := it\<rparr>))) }"

text \<open>Here the loop leaves out place \<open>hole = ins - split\<close> of the right leaf.\<close>

function leaf_split_right_copy ::
    "bplus_leaf \<Rightarrow> int \<Rightarrow> int \<Rightarrow> int \<Rightarrow> bplus_leaf \<Rightarrow> (int \<times> bplus_leaf) option" where
  "leaf_split_right_copy leaf hole i j right =
     (if i < count leaf then
        if j \<noteq> hole then do {
          right \<leftarrow> leaf_copy_entry leaf i right j;
          leaf_split_right_copy leaf hole (i + 1) (j + 1) right }
        else leaf_split_right_copy leaf hole i (j + 1) right
      else Some (j, right))"
  by pat_completeness auto
termination
  by (relation "measures [\<lambda>(leaf, hole, i, j, right). nat (count leaf - i),
        \<lambda>(leaf, hole, i, j, right). nat (hole + 1 - j)]") auto

definition leaf_split_right ::
    "ptr \<Rightarrow> ptr \<Rightarrow> int \<Rightarrow> byte list \<Rightarrow> ItemPointerData \<Rightarrow> int \<Rightarrow> heap \<Rightarrow> heap option" where
  "leaf_split_right p q key data tid ins s =
     do { l \<leftarrow> get_leaf s p;
          let split = c_div (count l + 1) 2;
          let hole = ins - split;
          s \<leftarrow> list_add (Link q) (Link p) s;
          leaf \<leftarrow> get_leaf s p;
          right \<leftarrow> get_leaf s q;
          (j, right) \<leftarrow> leaf_split_right_copy leaf hole split 0 right;
          right \<leftarrow> (if j > hole then Some (right\<lparr>count := j\<rparr>)
                    else if j = hole then Some (right\<lparr>count := j + 1\<rparr>) else None);
          (right, it) \<leftarrow> leaf_put_entry key data tid right hole (items s);
          Some (put_leaf p (leaf\<lparr>count := split\<rparr>) (put_leaf q right (s\<lparr>items := it\<rparr>))) }"

definition leaf_simple_insert ::
    "ptr \<Rightarrow> int \<Rightarrow> byte list \<Rightarrow> ItemPointerData \<Rightarrow> int \<Rightarrow> heap \<Rightarrow> heap option" where
  "leaf_simple_insert p key data tid ins s =
     do { leaf \<leftarrow> get_leaf s p;
          let n = count leaf;
          leaf \<leftarrow> for_down n ins (\<lambda>i leaf. leaf_copy_entry leaf (i - 1) leaf i) leaf;
          (leaf, it) \<leftarrow> leaf_put_entry key data tid leaf (min ins n) (items s);
          Some (put_leaf p (leaf\<lparr>count := n + 1\<rparr>) (s\<lparr>items := it\<rparr>)) }"

declare leaf_split_left_copy.simps [simp del] leaf_split_left_shift.simps [simp del]
  leaf_split_right_copy.simps [simp del]

text \<open>The fuel of the way up: there are at most \<^verbatim>\<open>BPLUS_MAX_LEVEL\<close> levels.\<close>

definition ascent_fuel :: nat where
  "ascent_fuel = BPLUS_MAX_LEVEL"

definition leaf_insert ::
    "ptr \<Rightarrow> int \<Rightarrow> byte list \<Rightarrow> ItemPointerData \<Rightarrow> heap \<Rightarrow> (int \<times> heap) option" where
  "leaf_insert p key data tid s =
     do { leaf \<leftarrow> get_leaf s p;
          i \<leftarrow> key_binary_search (lkey leaf) (count leaf) key;
          if i \<ge> 0 then Some (-1, s)
          else
            let ins = - i - 1 in
            if count leaf = entries (tree s) then
              let split = c_div (entries (tree s) + 1) 2 in
              do { (sibling, s) \<leftarrow> leaf_new s;
                   s \<leftarrow> (if ins < split then leaf_split_left p sibling key data tid ins s
                         else leaf_split_right p sibling key data tid ins s);
                   if ins < split then do {
                     leaf \<leftarrow> get_leaf s p;
                     k \<leftarrow> aget (lkey leaf) 0;
                     parent_node_build (non_leaf_insert ascent_fuel) sibling p k 0 s }
                   else do {
                     sib \<leftarrow> get_leaf s sibling;
                     k \<leftarrow> aget (lkey sib) 0;
                     parent_node_build (non_leaf_insert ascent_fuel) p sibling k 0 s } }
            else do { s \<leftarrow> leaf_simple_insert p key data tid ins s; Some (0, s) } }"

text \<open>The new root leaf of an empty tree.\<close>

definition insert_new_root :: "int \<Rightarrow> byte list \<Rightarrow> ItemPointerData \<Rightarrow> heap \<Rightarrow> (int \<times> heap) option" where
  "insert_new_root key data tid s =
     do { (p, s) \<leftarrow> leaf_new s;
          leaf \<leftarrow> get_leaf s p;
          (leaf, it) \<leftarrow> leaf_put_entry key data tid leaf 0 (items s);
          let s = put_leaf p (leaf\<lparr>count := 1\<rparr>) (s\<lparr>items := it\<rparr>);
          let s = s\<lparr>tree := (tree s)\<lparr>root := Some p\<rparr>\<rparr>;
          s \<leftarrow> (if level (tree s) < 0 then None
                else list_add (Link p) (Head (nat (level (tree s)))) s);
          Some (0, s) }"

primrec insert_loop ::
    "nat \<Rightarrow> ptr option \<Rightarrow> int \<Rightarrow> byte list \<Rightarrow> ItemPointerData \<Rightarrow> heap \<Rightarrow> (int \<times> heap) option" where
  "insert_loop 0 nd key data tid s = None"
| "insert_loop (Suc fuel) nd key data tid s =
     (case nd of
        None \<Rightarrow> insert_new_root key data tid s
      | Some p \<Rightarrow> do {
          h \<leftarrow> get_node s p;
          if is_leaf h then leaf_insert p key data tid s
          else do {
            nln \<leftarrow> get_non_leaf s p;
            c \<leftarrow> descend nln key;
            insert_loop fuel c key data tid s } })"

definition bplus_tree_insert :: "int \<Rightarrow> byte list \<Rightarrow> ItemPointerData \<Rightarrow> heap \<Rightarrow> (int \<times> heap) option" where
  "bplus_tree_insert key data tid s = insert_loop descent_fuel (root (tree s)) key data tid s"

end
