(* ===== verification/MBT_Delete.thy ===== *)
theory MBT_Delete
  imports MBT_Insert
begin

text \<open>
  Deletion: \<^verbatim>\<open>bplus_tree_delete\<close> of \<^verbatim>\<open>src/backend/mbt/mbtree.c\<close>, the borrowing and
  merging of nodes it falls back on, and \<^verbatim>\<open>bplus_tree_put\<close>, which chooses between
  insertion and deletion. As for insertion, non-leaf nodes are changed in the heap
  write by write. The siblings are the neighbours in the list of the level; they are
  looked at only when the code reads through them.
\<close>

subsection \<open>Non-leaf nodes\<close>

datatype sibling = LEFT_SIBLING | RIGHT_SIBLING

text \<open>\<^verbatim>\<open>non_leaf_sibling_select\<close> and \<^verbatim>\<open>leaf_sibling_select\<close>; \<open>count\<close> is the field both compare.\<close>

definition sibling_select ::
    "ptr option \<Rightarrow> ptr option \<Rightarrow> ptr \<Rightarrow> int \<Rightarrow> heap \<Rightarrow> sibling option" where
  "sibling_select l_sib r_sib par i s =
     (if i = -1 then Some RIGHT_SIBLING
      else do {
        pn \<leftarrow> get_non_leaf s par;
        if i = count pn - 2 then Some LEFT_SIBLING
        else do {
          lp \<leftarrow> l_sib; rp \<leftarrow> r_sib;
          l \<leftarrow> get_node s lp; r \<leftarrow> get_node s rp;
          Some (if count l \<ge> count r then LEFT_SIBLING else RIGHT_SIBLING) } })"

definition non_leaf_shift_from_left :: "ptr \<Rightarrow> ptr \<Rightarrow> int \<Rightarrow> int \<Rightarrow> heap \<Rightarrow> heap option" where
  "non_leaf_shift_from_left node left pidx remove s =
     do { s \<leftarrow> for_down remove 0 (\<lambda>i s. do { k \<leftarrow> get_nkey s node (i - 1); put_nkey node i k s }) s;
          s \<leftarrow> for_down (remove + 1) 0
                 (\<lambda>i s. do { c \<leftarrow> get_sub s node (i - 1); s \<leftarrow> put_sub node i c s;
                             sub_set_idx node i (i - 1) s }) s;
          n \<leftarrow> get_non_leaf s node;
          par \<leftarrow> parent n;
          k \<leftarrow> get_nkey s par pidx;
          s \<leftarrow> put_nkey node 0 k s;
          l \<leftarrow> get_non_leaf s left;
          k \<leftarrow> get_nkey s left (count l - 2);
          s \<leftarrow> put_nkey par pidx k s;
          c \<leftarrow> get_sub s left (count l - 1);
          s \<leftarrow> attach node 0 c (-1) s;
          put_children left (count l - 1) s }"

text \<open>The two merge loops; \<open>skip\<close> is the place left out, \<open>i\<close> the next free place.\<close>

function nl_merge_keys :: "ptr \<Rightarrow> ptr \<Rightarrow> int \<Rightarrow> int \<Rightarrow> int \<Rightarrow> int \<Rightarrow> heap \<Rightarrow> (int \<times> heap) option" where
  "nl_merge_keys node left skip n i j s =
     (if j < n then
        if j \<noteq> skip then do {
          k \<leftarrow> get_nkey s node j;
          s \<leftarrow> put_nkey left i k s;
          nl_merge_keys node left skip n (i + 1) (j + 1) s }
        else nl_merge_keys node left skip n i (j + 1) s
      else Some (i, s))"
  by pat_completeness auto
termination
  by (relation "measure (\<lambda>(node, left, skip, n, i, j, s). nat (n - j))") auto

function nl_merge_subs :: "ptr \<Rightarrow> ptr \<Rightarrow> int \<Rightarrow> int \<Rightarrow> int \<Rightarrow> int \<Rightarrow> heap \<Rightarrow> (int \<times> heap) option" where
  "nl_merge_subs node left skip n i j s =
     (if j < n then
        if j \<noteq> skip then do {
          c \<leftarrow> get_sub s node j;
          s \<leftarrow> attach left i c (i - 1) s;
          nl_merge_subs node left skip n (i + 1) (j + 1) s }
        else nl_merge_subs node left skip n i (j + 1) s
      else Some (i, s))"
  by pat_completeness auto
termination
  by (relation "measure (\<lambda>(node, left, skip, n, i, j, s). nat (n - j))") auto

declare nl_merge_keys.simps [simp del] nl_merge_subs.simps [simp del]

text \<open>\<^verbatim>\<open>non_leaf_merge_int64_to_left\<close>\<close>

definition non_leaf_merge_int64_to_left :: "ptr \<Rightarrow> ptr \<Rightarrow> int \<Rightarrow> int \<Rightarrow> heap \<Rightarrow> heap option" where
  "non_leaf_merge_int64_to_left node left pidx remove s =
     do { n \<leftarrow> get_non_leaf s node;
          l \<leftarrow> get_non_leaf s left;
          par \<leftarrow> parent n;
          k \<leftarrow> get_nkey s par pidx;
          s \<leftarrow> put_nkey left (count l - 1) k s;
          (i, s) \<leftarrow> nl_merge_keys node left remove (count n - 1) (count l) 0 s;
          (i, s) \<leftarrow> nl_merge_subs node left (remove + 1) (count n) (count l) 0 s;
          s \<leftarrow> put_children left i s;
          non_leaf_delete node s }"

definition non_leaf_shift_from_right :: "ptr \<Rightarrow> ptr \<Rightarrow> int \<Rightarrow> heap \<Rightarrow> heap option" where
  "non_leaf_shift_from_right node right pidx s =
     do { n \<leftarrow> get_non_leaf s node;
          par \<leftarrow> parent n;
          k \<leftarrow> get_nkey s par pidx;
          s \<leftarrow> put_nkey node (count n - 1) k s;
          k \<leftarrow> get_nkey s right 0;
          s \<leftarrow> put_nkey par pidx k s;
          c \<leftarrow> get_sub s right 0;
          s \<leftarrow> attach node (count n) c (count n - 1) s;
          s \<leftarrow> put_children node (count n + 1) s;
          r \<leftarrow> get_non_leaf s right;
          s \<leftarrow> for_up 0 (count r - 2) (\<lambda>i s. do { k \<leftarrow> get_nkey s right (i + 1); put_nkey right i k s }) s;
          s \<leftarrow> for_up 0 (count r - 1)
                 (\<lambda>i s. do { c \<leftarrow> get_sub s right (i + 1); s \<leftarrow> put_sub right i c s;
                             sub_set_idx right i (i - 1) s }) s;
          put_children right (count r - 1) s }"

text \<open>Merging from the right leaves nothing out, so \<open>skip = -1\<close>.\<close>

definition non_leaf_merge_from_right :: "ptr \<Rightarrow> ptr \<Rightarrow> int \<Rightarrow> heap \<Rightarrow> heap option" where
  "non_leaf_merge_from_right node right pidx s =
     do { n \<leftarrow> get_non_leaf s node;
          par \<leftarrow> parent n;
          k \<leftarrow> get_nkey s par pidx;
          s \<leftarrow> put_nkey node (count n - 1) k s;
          s \<leftarrow> put_children node (count n + 1) s;
          r \<leftarrow> get_non_leaf s right;
          (i, s) \<leftarrow> nl_merge_keys right node (-1) (count r - 1) (count n) 0 s;
          (i, s) \<leftarrow> nl_merge_subs right node (-1) (count r) (count n) 0 s;
          s \<leftarrow> put_children node i s;
          non_leaf_delete right s }"

definition non_leaf_simple_remove :: "ptr \<Rightarrow> int \<Rightarrow> heap \<Rightarrow> heap option" where
  "non_leaf_simple_remove node remove s =
     do { n \<leftarrow> get_non_leaf s node;
          if count n \<ge> 2 then do {
            s \<leftarrow> for_up remove (count n - 2)
                   (\<lambda>r s. do {
                      k \<leftarrow> get_nkey s node (r + 1);
                      s \<leftarrow> put_nkey node r k s;
                      c \<leftarrow> get_sub s node (r + 2);
                      s \<leftarrow> put_sub node (r + 1) c s;
                      sub_set_idx node (r + 1) r s }) s;
            put_children node (count n - 1) s }
          else None }"

primrec non_leaf_remove :: "nat \<Rightarrow> ptr \<Rightarrow> int \<Rightarrow> heap \<Rightarrow> heap option" where
  "non_leaf_remove 0 node remove s = None"
| "non_leaf_remove (Suc fuel) node remove s =
     do { n \<leftarrow> get_non_leaf s node;
          let half = c_div (order (tree s) + 1) 2;
          if count n \<le> half then do {
            let l_sib = list_entry (prev (link n));
            let r_sib = list_entry (next (link n));
            case parent n of
              Some par \<Rightarrow> do {
                let i = parent_key_idx n;
                sel \<leftarrow> sibling_select l_sib r_sib par i s;
                if sel = LEFT_SIBLING then do {
                  lp \<leftarrow> l_sib;
                  l \<leftarrow> get_non_leaf s lp;
                  if count l > half then non_leaf_shift_from_left node lp i remove s
                  else do {
                    s \<leftarrow> non_leaf_merge_int64_to_left node lp i remove s;
                    non_leaf_remove fuel par i s } }
                else do {
                  s \<leftarrow> non_leaf_simple_remove node remove s;
                  rp \<leftarrow> r_sib;
                  r \<leftarrow> get_non_leaf s rp;
                  if count r > half then non_leaf_shift_from_right node rp (i + 1) s
                  else do {
                    s \<leftarrow> non_leaf_merge_from_right node rp (i + 1) s;
                    non_leaf_remove fuel par (i + 1) s } } }
            | None \<Rightarrow>
                if count n = 2 then
                  if remove = 0 then do {
                    s \<leftarrow> sub_set_parent node 0 None s;
                    c \<leftarrow> get_sub s node 0;
                    let s = s\<lparr>tree := (tree s)\<lparr>root := c\<rparr>\<rparr>;
                    s \<leftarrow> non_leaf_delete node s;
                    Some (s\<lparr>tree := (tree s)\<lparr>level := level (tree s) - 1\<rparr>\<rparr>) }
                  else None
                else non_leaf_simple_remove node remove s }
          else non_leaf_simple_remove node remove s }"

subsection \<open>Leaves\<close>

text \<open>Moving an entry: the key and the data; the code does not move the item pointers here.\<close>

definition leaf_move_entry :: "bplus_leaf \<Rightarrow> int \<Rightarrow> bplus_leaf \<Rightarrow> int \<Rightarrow> bplus_leaf option" where
  "leaf_move_entry src i dst j =
     do { k \<leftarrow> aget (lkey src) i;
          ks \<leftarrow> aput (lkey dst) j k;
          d \<leftarrow> aget (ldata src) i;
          ds \<leftarrow> put_str (ldata dst) j d;
          Some (dst\<lparr>lkey := ks, ldata := ds\<rparr>) }"

definition leaf_shift_from_left :: "ptr \<Rightarrow> ptr \<Rightarrow> int \<Rightarrow> int \<Rightarrow> heap \<Rightarrow> heap option" where
  "leaf_shift_from_left p q pidx remove s =
     do { leaf \<leftarrow> get_leaf s p;
          leaf \<leftarrow> for_down remove 0 (\<lambda>r leaf. leaf_move_entry leaf (r - 1) leaf r) leaf;
          left \<leftarrow> get_leaf s q;
          leaf \<leftarrow> leaf_move_entry left (count left - 1) leaf 0;
          let s = put_leaf q (left\<lparr>count := count left - 1\<rparr>) (put_leaf p leaf s);
          par \<leftarrow> parent leaf;
          k \<leftarrow> aget (lkey leaf) 0;
          put_nkey par pidx k s }"

function leaf_merge_loop ::
    "bplus_leaf \<Rightarrow> int \<Rightarrow> int \<Rightarrow> int \<Rightarrow> bplus_leaf \<Rightarrow> (int \<times> bplus_leaf) option" where
  "leaf_merge_loop src skip i j dst =
     (if j < count src then
        if j \<noteq> skip then do {
          dst \<leftarrow> leaf_move_entry src j dst i;
          leaf_merge_loop src skip (i + 1) (j + 1) dst }
        else leaf_merge_loop src skip i (j + 1) dst
      else Some (i, dst))"
  by pat_completeness auto
termination
  by (relation "measure (\<lambda>(src, skip, i, j, dst). nat (count src - j))") auto

declare leaf_merge_loop.simps [simp del]

definition leaf_merge_int64_to_left :: "ptr \<Rightarrow> ptr \<Rightarrow> int \<Rightarrow> heap \<Rightarrow> heap option" where
  "leaf_merge_int64_to_left p q remove s =
     do { leaf \<leftarrow> get_leaf s p;
          left \<leftarrow> get_leaf s q;
          (i, left) \<leftarrow> leaf_merge_loop leaf remove (count left) 0 left;
          leaf_delete p (put_leaf q (left\<lparr>count := i\<rparr>) s) }"

definition leaf_shift_from_right :: "ptr \<Rightarrow> ptr \<Rightarrow> int \<Rightarrow> heap \<Rightarrow> heap option" where
  "leaf_shift_from_right p q pidx s =
     do { leaf \<leftarrow> get_leaf s p;
          right \<leftarrow> get_leaf s q;
          leaf \<leftarrow> leaf_move_entry right 0 leaf (count leaf);
          let leaf = leaf\<lparr>count := count leaf + 1\<rparr>;
          right \<leftarrow> for_up 0 (count right - 1) (\<lambda>i right. leaf_move_entry right (i + 1) right i) right;
          let right = right\<lparr>count := count right - 1\<rparr>;
          let s = put_leaf q right (put_leaf p leaf s);
          par \<leftarrow> parent leaf;
          k \<leftarrow> aget (lkey right) 0;
          put_nkey par pidx k s }"

definition leaf_merge_from_right :: "ptr \<Rightarrow> ptr \<Rightarrow> heap \<Rightarrow> heap option" where
  "leaf_merge_from_right p q s =
     do { leaf \<leftarrow> get_leaf s p;
          right \<leftarrow> get_leaf s q;
          (i, leaf) \<leftarrow> leaf_merge_loop right (-1) (count leaf) 0 leaf;
          leaf_delete q (put_leaf p (leaf\<lparr>count := i\<rparr>) s) }"

definition leaf_simple_remove :: "ptr \<Rightarrow> int \<Rightarrow> heap \<Rightarrow> heap option" where
  "leaf_simple_remove p remove s =
     do { leaf \<leftarrow> get_leaf s p;
          leaf \<leftarrow> for_up remove (count leaf - 1) (\<lambda>r leaf. leaf_move_entry leaf (r + 1) leaf r) leaf;
          Some (put_leaf p (leaf\<lparr>count := count leaf - 1\<rparr>) s) }"

definition leaf_remove :: "ptr \<Rightarrow> int \<Rightarrow> heap \<Rightarrow> (int \<times> heap) option" where
  "leaf_remove p key s =
     do { leaf \<leftarrow> get_leaf s p;
          remove \<leftarrow> key_binary_search (lkey leaf) (count leaf) key;
          let half = c_div (entries (tree s) + 1) 2;
          if remove < 0 then Some (-1, s)
          else if count leaf \<le> half then do {
            let l_sib = list_entry (prev (link leaf));
            let r_sib = list_entry (next (link leaf));
            case parent leaf of
              Some par \<Rightarrow> do {
                let i = parent_key_idx leaf;
                sel \<leftarrow> sibling_select l_sib r_sib par i s;
                s \<leftarrow>
                  (if sel = LEFT_SIBLING then do {
                     lp \<leftarrow> l_sib;
                     l \<leftarrow> get_leaf s lp;
                     if count l > half then leaf_shift_from_left p lp i remove s
                     else do {
                       s \<leftarrow> leaf_merge_int64_to_left p lp remove s;
                       non_leaf_remove ascent_fuel par i s } }
                   else do {
                     s \<leftarrow> leaf_simple_remove p remove s;
                     rp \<leftarrow> r_sib;
                     r \<leftarrow> get_leaf s rp;
                     if count r > half then leaf_shift_from_right p rp (i + 1) s
                     else do {
                       s \<leftarrow> leaf_merge_from_right p rp s;
                       non_leaf_remove ascent_fuel par (i + 1) s } });
                Some (0, s) }
            | None \<Rightarrow>
                if count leaf = 1 then do {
                  k \<leftarrow> aget (lkey leaf) 0;
                  s \<leftarrow> (if key = k then leaf_delete p (s\<lparr>tree := (tree s)\<lparr>root := None\<rparr>\<rparr>) else None);
                  Some (0, s) }
                else do { s \<leftarrow> leaf_simple_remove p remove s; Some (0, s) } }
          else do { s \<leftarrow> leaf_simple_remove p remove s; Some (0, s) } }"

primrec delete_loop :: "nat \<Rightarrow> ptr option \<Rightarrow> int \<Rightarrow> heap \<Rightarrow> (int \<times> heap) option" where
  "delete_loop 0 nd key s = None"
| "delete_loop (Suc fuel) nd key s =
     (case nd of
        None \<Rightarrow> Some (-1, s)
      | Some p \<Rightarrow> do {
          h \<leftarrow> get_node s p;
          if is_leaf h then leaf_remove p key s
          else do {
            nln \<leftarrow> get_non_leaf s p;
            c \<leftarrow> descend nln key;
            delete_loop fuel c key s } })"

definition bplus_tree_delete :: "int \<Rightarrow> heap \<Rightarrow> (int \<times> heap) option" where
  "bplus_tree_delete key s = delete_loop descent_fuel (root (tree s)) key s"

definition bplus_tree_put :: "int \<Rightarrow> byte list \<Rightarrow> ItemPointerData \<Rightarrow> heap \<Rightarrow> (int \<times> heap) option" where
  "bplus_tree_put key data tid s =
     (if cstr data \<noteq> ascii ''0'' then bplus_tree_insert key data tid s else bplus_tree_delete key s)"

end
