(* ===== verification/MBT_Shape.thy ===== *)
theory MBT_Shape
  imports MBT_Delete
begin

text \<open>
  What it means that the heap holds a B+ tree. The abstract tree \<open>atree\<close> carries the
  address and the live keys of every node; \<open>repr\<close> says that the heap holds it, parent
  pointers included, \<open>ordered\<close> that its keys are in search order, \<open>sized\<close> that its
  nodes are filled between the bounds of the splits, \<open>balanced\<close> that its leaves are on
  one level, and \<open>dl\<close> that the list of a level runs through the nodes of that level from
  left to right. \<open>tree_rep\<close> puts them together.
\<close>

subsection \<open>Abstract trees\<close>

datatype atree = ALeaf ptr "int list" | ANode ptr "atree list" "int list"

fun root_ptr :: "atree \<Rightarrow> ptr" where
  "root_ptr (ALeaf p ks) = p"
| "root_ptr (ANode p ts ks) = p"

fun ptrs :: "atree \<Rightarrow> ptr list" where
  "ptrs (ALeaf p ks) = [p]"
| "ptrs (ANode p ts ks) = p # concat (map ptrs ts)"

text \<open>The keys stored in the tree, from left to right.\<close>

fun keys :: "atree \<Rightarrow> int list" where
  "keys (ALeaf p ks) = ks"
| "keys (ANode p ts ks) = concat (map keys ts)"

fun balanced :: "nat \<Rightarrow> atree \<Rightarrow> bool" where
  "balanced h (ALeaf p ks) \<longleftrightarrow> h = 0"
| "balanced h (ANode p ts ks) \<longleftrightarrow> 0 < h \<and> (\<forall>t \<in> set ts. balanced (h - 1) t)"

text \<open>The addresses of the nodes at height \<open>l\<close> of a tree of height \<open>h\<close>, from left to right.\<close>

fun level_ptrs :: "nat \<Rightarrow> nat \<Rightarrow> atree \<Rightarrow> ptr list" where
  "level_ptrs h l (ALeaf p ks) = (if l = h then [p] else [])"
| "level_ptrs h l (ANode p ts ks) = (if l = h then [p] else concat (map (level_ptrs (h - 1) l) ts))"

text \<open>
  Search order: \<open>lo\<close> is the separator to the left of a subtree and \<open>hi\<close> the one to its
  right, \<open>None\<close> at the border of the tree. Keys equal to a separator are on its right.
\<close>

fun olt :: "int option \<Rightarrow> int option \<Rightarrow> bool" where
  "olt (Some a) (Some b) = (a < b)"
| "olt _ _ = True"

definition in_range :: "int option \<Rightarrow> int option \<Rightarrow> int \<Rightarrow> bool" where
  "in_range lo hi k \<longleftrightarrow>
     (case lo of None \<Rightarrow> True | Some a \<Rightarrow> a \<le> k) \<and> (case hi of None \<Rightarrow> True | Some b \<Rightarrow> k < b)"

fun ordered :: "int option \<Rightarrow> int option \<Rightarrow> atree \<Rightarrow> bool"
and ordereds :: "int option \<Rightarrow> int option \<Rightarrow> atree list \<Rightarrow> int list \<Rightarrow> bool" where
  "ordered lo hi (ALeaf p ks) \<longleftrightarrow> sorted_wrt (<) ks \<and> (\<forall>k \<in> set ks. in_range lo hi k)"
| "ordered lo hi (ANode p ts ks) \<longleftrightarrow> ordereds lo hi ts ks"
| "ordereds lo hi [] ks \<longleftrightarrow> False"
| "ordereds lo hi (t # ts) [] \<longleftrightarrow> ts = [] \<and> olt lo hi \<and> ordered lo hi t"
| "ordereds lo hi (t # ts) (k # ks) \<longleftrightarrow> olt lo (Some k) \<and> ordered lo (Some k) t \<and> ordereds (Some k) hi ts ks"

text \<open>
  Occupancy. A non-leaf node other than the root has at least \<open>min_children ord\<close>
  children, a leaf other than the root half its entries.
\<close>

definition min_children :: "nat \<Rightarrow> nat" where
  "min_children ord = max 2 (ord div 2)"

fun sized :: "nat \<Rightarrow> nat \<Rightarrow> bool \<Rightarrow> atree \<Rightarrow> bool" where
  "sized ord ent rt (ALeaf p ks) \<longleftrightarrow>
     (if rt then 1 else (ent + 1) div 2) \<le> length ks \<and> length ks \<le> ent"
| "sized ord ent rt (ANode p ts ks) \<longleftrightarrow>
     (if rt then 2 else min_children ord) \<le> length ts \<and> length ts \<le> ord \<and>
     (\<forall>t \<in> set ts. sized ord ent False t)"

subsection \<open>Trees in the heap\<close>

text \<open>
  The live entries of a leaf have NUL-terminated data, and its item pointers are
  allocated.
\<close>

definition leaf_wf :: "item_store \<Rightarrow> bplus_leaf \<Rightarrow> bool" where
  "leaf_wf it l \<longleftrightarrow>
     leaf_shape l \<and> (\<forall>t \<in> set (tids l). \<exists>q. t = Some q \<and> it q \<noteq> None) \<and>
     (\<forall>i < nat (count l). 0 \<in> set (ldata l ! i))"

definition leaf_at :: "node option \<Rightarrow> item_store \<Rightarrow> ptr option \<Rightarrow> int \<Rightarrow> int list \<Rightarrow> bool" where
  "leaf_at nd it par idx ks \<longleftrightarrow>
     (\<exists>l. nd = Some (Leaf l) \<and> leaf_wf it l \<and> node_type l = BPLUS_TREE_LEAF \<and>
        parent l = par \<and> parent_key_idx l = idx \<and> count l = int (length ks) \<and>
        length ks \<le> 50 \<and> take (length ks) (lkey l) = ks)"

definition non_leaf_at ::
    "node option \<Rightarrow> ptr option \<Rightarrow> int \<Rightarrow> ptr list \<Rightarrow> int list \<Rightarrow> bool" where
  "non_leaf_at nd par idx cs ks \<longleftrightarrow>
     (\<exists>n. nd = Some (NonLeaf n) \<and> non_leaf_shape n \<and> node_type n = BPLUS_TREE_NON_LEAF \<and>
        parent n = par \<and> parent_key_idx n = idx \<and> count n = int (length cs) \<and>
        length cs = Suc (length ks) \<and> length cs \<le> 50 \<and> take (length ks) (nkey n) = ks \<and>
        take (length cs) (sub_ptr n) = map Some cs)"

fun repr :: "(ptr \<Rightarrow> node option) \<Rightarrow> item_store \<Rightarrow> ptr option \<Rightarrow> int \<Rightarrow> atree \<Rightarrow> bool"
and reprs :: "(ptr \<Rightarrow> node option) \<Rightarrow> item_store \<Rightarrow> ptr \<Rightarrow> int \<Rightarrow> atree list \<Rightarrow> bool" where
  "repr N it par idx (ALeaf p ks) \<longleftrightarrow> leaf_at (N p) it par idx ks"
| "repr N it par idx (ANode p ts ks) \<longleftrightarrow>
     non_leaf_at (N p) par idx (map root_ptr ts) ks \<and> reprs N it p 0 ts"
| "reprs N it p i [] \<longleftrightarrow> True"
| "reprs N it p i (t # ts) \<longleftrightarrow> repr N it (Some p) (i - 1) t \<and> reprs N it p (i + 1) ts"

text \<open>\<open>dl L a rs b\<close>: the links lead from \<open>a\<close> through \<open>rs\<close> to \<open>b\<close> and back.\<close>

fun dl :: "(link_ref \<Rightarrow> node_list_head option) \<Rightarrow> link_ref \<Rightarrow> link_ref list \<Rightarrow> link_ref \<Rightarrow> bool" where
  "dl L a [] b \<longleftrightarrow> map_option next (L a) = Some b \<and> map_option prev (L b) = Some a"
| "dl L a (r # rs) b \<longleftrightarrow>
     map_option next (L a) = Some r \<and> map_option prev (L r) = Some a \<and> dl L r rs b"

definition rings :: "heap \<Rightarrow> (nat \<Rightarrow> ptr list) \<Rightarrow> bool" where
  "rings s P \<longleftrightarrow> (\<forall>i < BPLUS_MAX_LEVEL. dl (get_link s) (Head i) (map Link (P i)) (Head i))"

definition heap_ok :: "heap \<Rightarrow> bool" where
  "heap_ok s \<longleftrightarrow>
     (\<forall>p. next_ptr s \<le> p \<longrightarrow> nodes s p = None) \<and>
     (\<forall>p. leaf_shape (raw_leaf s p)) \<and> (\<forall>p. non_leaf_shape (raw_non_leaf s p)) \<and>
     length (levels (tree s)) = BPLUS_MAX_LEVEL \<and>
     3 \<le> order (tree s) \<and> order (tree s) \<le> BPLUS_MAX_ORDER \<and>
     1 \<le> entries (tree s) \<and> entries (tree s) \<le> BPLUS_MAX_ENTRIES"

definition tree_rep :: "heap \<Rightarrow> atree \<Rightarrow> bool" where
  "tree_rep s t \<longleftrightarrow>
     heap_ok s \<and> root (tree s) = Some (root_ptr t) \<and> repr (nodes s) (items s) None (-1) t \<and>
     distinct (ptrs t) \<and> ordered None None t \<and>
     0 \<le> level (tree s) \<and> level (tree s) < int BPLUS_MAX_LEVEL \<and>
     balanced (nat (level (tree s))) t \<and>
     sized (nat (order (tree s))) (nat (entries (tree s))) True t \<and>
     rings s (\<lambda>i. level_ptrs (nat (level (tree s))) i t)"

definition empty_rep :: "heap \<Rightarrow> bool" where
  "empty_rep s \<longleftrightarrow>
     heap_ok s \<and> root (tree s) = None \<and> level (tree s) = 0 \<and> rings s (\<lambda>i. [])"

subsection \<open>Search order\<close>

lemma ordereds_length: "ordereds lo hi ts ks \<Longrightarrow> length ts = Suc (length ks)"
proof (induction ks arbitrary: lo ts)
  case Nil
  then show ?case by (cases ts) auto
next
  case (Cons k ks)
  then show ?case by (cases ts) auto
qed

lemma ordereds_append:
  assumes "length ts1 = Suc (length ks1)"
  shows "ordereds lo hi (ts1 @ ts2) (ks1 @ k # ks2) \<longleftrightarrow>
    ordereds lo (Some k) ts1 ks1 \<and> ordereds (Some k) hi ts2 ks2"
  using assms
proof (induction ks1 arbitrary: lo ts1)
  case Nil
  then obtain t where "ts1 = [t]" by (cases ts1) auto
  then show ?case by simp
next
  case (Cons a ks1)
  then obtain t ts where "ts1 = t # ts" "length ts = Suc (length ks1)" by (cases ts1) auto
  then show ?case using Cons.IH [of ts "Some a"] by simp
qed

lemma olt_trans: "olt lo (Some k) \<Longrightarrow> olt (Some k) hi \<Longrightarrow> olt lo hi"
  by (cases lo; cases hi) auto

lemma in_range_mono:
  "in_range (Some a) hi k \<Longrightarrow> olt lo (Some a) \<Longrightarrow> in_range lo hi k"
  "in_range lo (Some b) k \<Longrightarrow> olt (Some b) hi \<Longrightarrow> in_range lo hi k"
  by (auto simp: in_range_def split: option.splits)

lemma ordereds_olt: "ordereds lo hi ts ks \<Longrightarrow> olt lo hi"
proof (induction ks arbitrary: lo ts)
  case Nil
  then show ?case by (cases ts) auto
next
  case (Cons k ks)
  then obtain t ts' where "ts = t # ts'" by (cases ts) auto
  then show ?case using Cons olt_trans [of lo k hi] by auto
qed

lemma keys_sorted_range:
  "ordered lo hi t \<Longrightarrow> sorted_wrt (<) (keys t) \<and> (\<forall>k \<in> set (keys t). in_range lo hi k)"
  "ordereds lo hi ts ks \<Longrightarrow> sorted_wrt (<) (concat (map keys ts)) \<and>
     (\<forall>k \<in> set (concat (map keys ts)). in_range lo hi k)"
proof (induction lo hi t and lo hi ts ks rule: ordered_ordereds.induct)
  case (5 lo hi t ts k ks)
  then have o: "olt lo (Some k)" "ordered lo (Some k) t" "ordereds (Some k) hi ts ks" by auto
  note l = 5(1) [OF o(2)] and r = 5(2) [OF o(3)]
  have "x < y" if "x \<in> set (keys t)" "y \<in> set (concat (map keys ts))" for x y
  proof -
    have "x < k" using l that(1) by (simp add: in_range_def)
    moreover have "k \<le> y" using r that(2) by (simp add: in_range_def del: set_concat)
    ultimately show ?thesis by simp
  qed
  moreover have "in_range lo hi x" if "x \<in> set (keys t)" for x
    using l that in_range_mono(2) ordereds_olt [OF o(3)] by blast
  moreover have "in_range lo hi x" if "x \<in> set (concat (map keys ts))" for x
    using r that in_range_mono(1) o(1) by blast
  ultimately have "sorted_wrt (<) (keys t @ concat (map keys ts)) \<and>
      (\<forall>k \<in> set (keys t @ concat (map keys ts)). in_range lo hi k)"
    using l r unfolding sorted_wrt_append set_append by blast
  then show ?case by simp
qed simp_all

lemma ordereds_keys_sorted: "ordereds lo hi ts ks \<Longrightarrow> sorted_wrt (<) ks \<and> (\<forall>k \<in> set ks. olt lo (Some k) \<and> olt (Some k) hi)"
proof (induction ks arbitrary: lo ts)
  case (Cons k ks)
  then obtain t ts' where ts: "ts = t # ts'" by (cases ts) auto
  then have o: "olt lo (Some k)" "ordereds (Some k) hi ts' ks" using Cons.prems by auto
  from Cons.IH [OF o(2)] o show ?case
    using ordereds_olt [OF o(2)] olt_trans [OF o(1)] by auto
qed simp

subsection \<open>Changes of the heap that a tree does not see\<close>

lemma root_ptr_in_ptrs: "root_ptr t \<in> set (ptrs t)"
  by (cases t) simp_all

lemma repr_cong:
  "(\<And>q. q \<in> set (ptrs t) \<Longrightarrow> N' q = N q) \<Longrightarrow> repr N' it par idx t = repr N it par idx t"
  "(\<And>q. q \<in> set (concat (map ptrs ts)) \<Longrightarrow> N' q = N q) \<Longrightarrow> reprs N' it p i ts = reprs N it p i ts"
  by (induction N it par idx t and N it p i ts rule: repr_reprs.induct) auto

lemma leaf_wf_items: "leaf_wf it l \<Longrightarrow> dom it \<subseteq> dom it' \<Longrightarrow> leaf_wf it' l"
  by (fastforce simp: leaf_wf_def dom_def)

lemma repr_items:
  "repr N it par idx t \<Longrightarrow> dom it \<subseteq> dom it' \<Longrightarrow> repr N it' par idx t"
  "reprs N it p i ts \<Longrightarrow> dom it \<subseteq> dom it' \<Longrightarrow> reprs N it' p i ts"
  by (induction N it par idx t and N it p i ts rule: repr_reprs.induct)
    (auto simp: leaf_at_def intro: leaf_wf_items)

text \<open>The part of a node that its list links are not.\<close>

definition unlink :: "node \<Rightarrow> node" where
  "unlink nd = set_link \<lparr>prev = Head 0, next = Head 0\<rparr> nd"

lemma unlink_simps [simp]:
  "unlink (Leaf l) = Leaf (l\<lparr>link := \<lparr>prev = Head 0, next = Head 0\<rparr>\<rparr>)"
  "unlink (NonLeaf n) = NonLeaf (n\<lparr>link := \<lparr>prev = Head 0, next = Head 0\<rparr>\<rparr>)"
  by (simp_all add: unlink_def)

lemma leaf_at_unlink: "leaf_at (map_option unlink nd) it par idx ks = leaf_at nd it par idx ks"
proof (cases nd)
  case (Some x)
  then show ?thesis
    by (cases x) (auto simp: leaf_at_def leaf_wf_def leaf_shape_def)
qed simp

lemma non_leaf_at_unlink: "non_leaf_at (map_option unlink nd) par idx cs ks = non_leaf_at nd par idx cs ks"
proof (cases nd)
  case (Some x)
  then show ?thesis
    by (cases x) (auto simp: non_leaf_at_def non_leaf_shape_def)
qed simp

lemma repr_unlink:
  "(\<And>q. map_option unlink (N' q) = map_option unlink (N q)) \<Longrightarrow>
     repr N' it par idx t = repr N it par idx t"
  "(\<And>q. map_option unlink (N' q) = map_option unlink (N q)) \<Longrightarrow>
     reprs N' it p i ts = reprs N it p i ts"
proof (induction N it par idx t and N it p i ts rule: repr_reprs.induct)
  case (1 N it par idx p ks)
  then show ?case using leaf_at_unlink [of "N p"] leaf_at_unlink [of "N' p"] by simp
next
  case (2 N it par idx p ts ks)
  then show ?case using non_leaf_at_unlink [of "N p"] non_leaf_at_unlink [of "N' p"] by simp
qed simp_all

subsection \<open>New parents\<close>

definition reparent :: "ptr option \<Rightarrow> int \<Rightarrow> node \<Rightarrow> node" where
  "reparent q i nd = set_parent_key_idx i (set_parent q nd)"

lemma reparent_simps [simp]:
  "reparent q i (Leaf l) = Leaf (l\<lparr>parent := q, parent_key_idx := i\<rparr>)"
  "reparent q i (NonLeaf n) = NonLeaf (n\<lparr>parent := q, parent_key_idx := i\<rparr>)"
  by (simp_all add: reparent_def)

lemma reparent_reparent [simp]: "reparent q i (reparent q' i' nd) = reparent q i nd"
  by (cases nd) simp_all

lemma reparent_id:
  "repr N it q i t \<Longrightarrow> map_option (reparent q i) (N (root_ptr t)) = N (root_ptr t)"
  by (cases t) (auto simp: leaf_at_def non_leaf_at_def)

lemma repr_reparent:
  assumes "repr N it par idx t" "distinct (ptrs t)"
    "N' (root_ptr t) = map_option (reparent q i) (N (root_ptr t))"
    "\<And>x. x \<in> set (ptrs t) \<Longrightarrow> x \<noteq> root_ptr t \<Longrightarrow> N' x = N x"
  shows "repr N' it q i t"
proof (cases t)
  case (ALeaf p ks)
  then show ?thesis
    using assms by (auto simp: leaf_at_def leaf_wf_def leaf_shape_def)
next
  case (ANode p ts ks)
  have "reprs N' it p 0 ts = reprs N it p 0 ts"
    by (rule repr_cong(2)) (use assms(2,4) ANode in auto)
  then show ?thesis
    using assms(1,3) ANode by (auto simp: non_leaf_at_def non_leaf_shape_def)
qed

text \<open>The children \<open>cs\<close> become the children \<open>j\<close>, \<open>j + 1\<close>, ... of \<open>p\<close>.\<close>

fun adopt :: "ptr \<Rightarrow> int \<Rightarrow> ptr list \<Rightarrow> (ptr \<Rightarrow> node option) \<Rightarrow> ptr \<Rightarrow> node option" where
  "adopt p j [] N = N"
| "adopt p j (c # cs) N = adopt p (j + 1) cs (N(c := map_option (reparent (Some p) (j - 1)) (N c)))"

lemma adopt_other: "q \<notin> set cs \<Longrightarrow> adopt p j cs N q = N q"
  by (induction cs arbitrary: j N) auto

lemma adopt_upd_other: "q \<notin> set cs \<Longrightarrow> adopt p j cs (N(q := x)) = (adopt p j cs N)(q := x)"
proof (induction cs arbitrary: j N)
  case (Cons c cs)
  let ?r = "map_option (reparent (Some p) (j - 1)) (N c)"
  have "q \<noteq> c" "q \<notin> set cs" using Cons.prems by auto
  moreover have "N(q := x, c := ?r) = N(c := ?r, q := x)"
    using calculation(1) by (rule fun_upd_twist)
  ultimately show ?case
    using Cons.IH [of "j + 1" "N(c := ?r)"] by (simp only: adopt.simps fun_upd_other not_False_eq_True)
qed simp

lemma adopt_append:
  "adopt p j (cs @ ds) N = adopt p (j + int (length cs)) ds (adopt p j cs N)"
  by (induction cs arbitrary: j N) (auto simp: algebra_simps)

lemma adopt_nth:
  "distinct cs \<Longrightarrow> k < length cs \<Longrightarrow>
   adopt p j cs N (cs ! k) = map_option (reparent (Some p) (j + int k - 1)) (N (cs ! k))"
proof (induction cs arbitrary: j N k)
  case (Cons c cs)
  show ?case
  proof (cases k)
    case 0
    then show ?thesis using Cons by (simp add: adopt_other)
  next
    case (Suc i)
    then have "cs ! i \<noteq> c" using Cons by auto
    then show ?thesis using Cons Suc by (simp add: algebra_simps)
  qed
qed simp

lemma reprs_adopt:
  assumes "\<And>t. t \<in> set ts \<Longrightarrow> \<exists>par idx. repr N it par idx t" "distinct (concat (map ptrs ts))"
  shows "reprs (adopt p j (map root_ptr ts) N) it p j ts"
  using assms
proof (induction ts arbitrary: j N)
  case (Cons t ts)
  let ?c = "root_ptr t"
  let ?N = "N(?c := map_option (reparent (Some p) (j - 1)) (N ?c))"
  obtain par idx where t: "repr N it par idx t" using Cons.prems(1) [of t] by auto
  have dist: "distinct (ptrs t)" "distinct (concat (map ptrs ts))"
    and disj: "set (ptrs t) \<inter> set (concat (map ptrs ts)) = {}"
    using Cons.prems(2) by auto
  have roots: "set (map root_ptr ts) \<subseteq> set (concat (map ptrs ts))"
    using root_ptr_in_ptrs by fastforce
  have c: "?c \<notin> set (concat (map ptrs ts))"
    using disj root_ptr_in_ptrs [of t] by blast
  have "repr (adopt p (j + 1) (map root_ptr ts) ?N) it (Some p) (j - 1) t"
  proof (rule repr_reparent [OF t dist(1)])
    show "adopt p (j + 1) (map root_ptr ts) ?N ?c = map_option (reparent (Some p) (j - 1)) (N ?c)"
      using c roots by (subst adopt_other) auto
  next
    fix x assume "x \<in> set (ptrs t)" "x \<noteq> ?c"
    moreover from this have "x \<notin> set (map root_ptr ts)"
      using disj roots by blast
    ultimately show "adopt p (j + 1) (map root_ptr ts) ?N x = N x"
      by (simp add: adopt_other)
  qed
  moreover have "reprs (adopt p (j + 1) (map root_ptr ts) ?N) it p (j + 1) ts"
  proof (rule Cons.IH [OF _ dist(2)])
    fix u assume that: "u \<in> set ts"
    have "repr ?N it par idx u = repr N it par idx u" for par idx
      using c that by (intro repr_cong(1)) auto
    then show "\<exists>par idx. repr ?N it par idx u" using Cons.prems(1) that by auto
  qed
  ultimately show ?case by simp
qed simp

subsection \<open>The lists of the levels\<close>

lemma dl_append: "dl L a (rs1 @ r # rs2) b \<longleftrightarrow> dl L a rs1 r \<and> dl L r rs2 b"
  by (induction rs1 arbitrary: a) auto

lemma dl_cong:
  assumes "\<And>r. r \<in> set (a # rs) \<Longrightarrow> map_option next (L' r) = map_option next (L r)"
    "\<And>r. r \<in> set (rs @ [b]) \<Longrightarrow> map_option prev (L' r) = map_option prev (L r)"
  shows "dl L' a rs b = dl L a rs b"
  using assms by (induction rs arbitrary: a) auto

text \<open>\<open>linked L L' k pv nx\<close>: \<open>L'\<close> is \<open>L\<close> with \<open>k\<close> put between \<open>pv\<close> and \<open>nx\<close>.\<close>

definition linked ::
    "(link_ref \<Rightarrow> node_list_head option) \<Rightarrow> (link_ref \<Rightarrow> node_list_head option) \<Rightarrow>
     link_ref \<Rightarrow> link_ref \<Rightarrow> link_ref \<Rightarrow> bool" where
  "linked L L' k pv nx \<longleftrightarrow>
     (\<forall>r. map_option next (L' r) =
        (if r = pv then Some k else if r = k then Some nx else map_option next (L r))) \<and>
     (\<forall>r. map_option prev (L' r) =
        (if r = nx then Some k else if r = k then Some pv else map_option prev (L r)))"

lemma dl_linked:
  assumes "dl L a (xs @ ys) b" "linked L L' k (last (a # xs)) (hd (ys @ [b]))"
    "distinct (a # xs @ ys)" "distinct (xs @ ys @ [b])" "k \<notin> set (a # b # xs @ ys)"
  shows "dl L' a (xs @ k # ys) b"
  using assms
proof (induction xs arbitrary: a)
  case Nil
  show ?case
  proof (cases ys)
    case (Cons y ys')
    have "dl L' y ys' b = dl L y ys' b"
      using Nil Cons by (intro dl_cong) (auto simp: linked_def)
    then show ?thesis using Nil Cons by (simp add: linked_def)
  qed (use Nil in \<open>auto simp: linked_def\<close>)
next
  case (Cons x xs)
  have "last (x # xs) \<in> set (x # xs)" by (rule last_in_set) simp
  then have "a \<noteq> last (x # xs)" "x \<noteq> hd (ys @ [b])"
    using Cons.prems(3,4) by (auto, (cases ys; simp)+)
  then have "map_option next (L' a) = Some x" "map_option prev (L' x) = Some a"
    using Cons.prems(1,2,5) by (auto simp: linked_def)
  moreover have "dl L' x (xs @ k # ys) b"
    using Cons.prems by (intro Cons.IH) auto
  ultimately show ?case by simp
qed

lemma dl_linked_other:
  assumes "linked L L' k pv nx" "pv \<notin> set (a # rs)" "nx \<notin> set (rs @ [b])" "k \<notin> set (a # b # rs)"
  shows "dl L' a rs b = dl L a rs b"
  using assms by (intro dl_cong) (auto simp: linked_def)

text \<open>Two heaps that differ in list links only.\<close>

definition same_core :: "heap \<Rightarrow> heap \<Rightarrow> bool" where
  "same_core s s' \<longleftrightarrow>
     (\<forall>q. map_option unlink (nodes s' q) = map_option unlink (nodes s q)) \<and>
     items s' = items s \<and> next_ptr s' = next_ptr s \<and> raw_leaf s' = raw_leaf s \<and>
     raw_non_leaf s' = raw_non_leaf s \<and> raw_item s' = raw_item s \<and>
     order (tree s') = order (tree s) \<and> entries (tree s') = entries (tree s) \<and>
     level (tree s') = level (tree s) \<and> root (tree s') = root (tree s) \<and>
     offset (tree s') = offset (tree s) \<and>
     length (levels (tree s')) = length (levels (tree s))"

lemma same_core_refl [simp]: "same_core s s"
  by (simp add: same_core_def)

lemma same_core_trans: "same_core s s' \<Longrightarrow> same_core s' s'' \<Longrightarrow> same_core s s''"
  by (simp add: same_core_def)

lemma link_node_hd: "link (node_hd (set_link k nd)) = k"
  by (cases nd) (simp_all add: bplus_node.defs)

lemma unlink_set_link [simp]: "unlink (set_link k nd) = unlink nd"
  by (cases nd) simp_all

lemma put_link_spec:
  assumes "get_link s r = Some h"
  shows "\<exists>s'. put_link r k s = Some s' \<and> same_core s s' \<and> get_link s' = (get_link s)(r \<mapsto> k)"
proof (cases r)
  case (Head i)
  then show ?thesis
    using assms
    by (auto simp: put_link_def get_link_def same_core_def get_node_def fun_eq_iff nth_list_update
        split: link_ref.splits if_splits)
next
  case (Link p)
  then obtain nd where "nodes s p = Some nd"
    using assms by (auto simp: get_link_def get_node_def)
  then show ?thesis
    using Link
    by (auto simp: put_link_def upd_node_def get_link_def same_core_def get_node_def fun_eq_iff
        link_node_hd split: link_ref.splits)
qed

lemma put_next_spec:
  assumes "get_link s r = Some h"
  shows "\<exists>s'. put_next r x s = Some s' \<and> same_core s s' \<and>
    get_link s' = (get_link s)(r \<mapsto> h\<lparr>next := x\<rparr>)"
  using put_link_spec [OF assms] assms by (simp add: put_next_def)

lemma put_prev_spec:
  assumes "get_link s r = Some h"
  shows "\<exists>s'. put_prev r x s = Some s' \<and> same_core s s' \<and>
    get_link s' = (get_link s)(r \<mapsto> h\<lparr>prev := x\<rparr>)"
  using put_link_spec [OF assms] assms by (simp add: put_prev_def)

lemma list_init_spec:
  assumes "get_link s k = Some h"
  shows "\<exists>s'. list_init k s = Some s' \<and> same_core s s' \<and>
    get_link s' = (get_link s)(k \<mapsto> \<lparr>prev = k, next = k\<rparr>)"
proof -
  obtain s1 where s1: "put_prev k k s = Some s1" "same_core s s1"
      "get_link s1 = (get_link s)(k \<mapsto> h\<lparr>prev := k\<rparr>)"
    using put_prev_spec [OF assms, of k] by blast
  obtain s2 where s2: "put_next k k s1 = Some s2" "same_core s1 s2"
      "get_link s2 = (get_link s1)(k \<mapsto> h\<lparr>prev := k, next := k\<rparr>)"
    using put_next_spec [of s1 k "h\<lparr>prev := k\<rparr>" k] s1(3) by auto
  have "h\<lparr>prev := k, next := k\<rparr> = \<lparr>prev = k, next = k\<rparr>" by (cases h) simp
  then show ?thesis
    using s1 s2 same_core_trans by (auto simp: list_init_def)
qed

lemma list_add_between_spec:
  assumes "get_link s k = Some hk" "get_link s pv = Some hp" "get_link s nx = Some hn"
    "k \<noteq> pv" "k \<noteq> nx"
  shows "\<exists>s'. list_add_between k pv nx s = Some s' \<and> same_core s s' \<and>
    linked (get_link s) (get_link s') k pv nx"
proof -
  obtain s1 where s1: "put_next k nx s = Some s1" "same_core s s1"
      "get_link s1 = (get_link s)(k \<mapsto> hk\<lparr>next := nx\<rparr>)"
    using put_next_spec [OF assms(1), of nx] by blast
  obtain s2 where s2: "put_prev k pv s1 = Some s2" "same_core s1 s2"
      "get_link s2 = (get_link s1)(k \<mapsto> hk\<lparr>next := nx, prev := pv\<rparr>)"
    using put_prev_spec [of s1 k "hk\<lparr>next := nx\<rparr>" pv] s1(3) by auto
  have l2: "get_link s2 r = (if r = k then Some (hk\<lparr>next := nx, prev := pv\<rparr>) else get_link s r)" for r
    by (simp add: s2(3) s1(3))
  obtain s3 where s3: "put_prev nx k s2 = Some s3" "same_core s2 s3"
      "get_link s3 = (get_link s2)(nx \<mapsto> hn\<lparr>prev := k\<rparr>)"
    using put_prev_spec [of s2 nx hn k] l2 assms(3,5) by auto
  define hp' where "hp' = (if pv = nx then hn\<lparr>prev := k\<rparr> else hp)"
  have "get_link s3 pv = Some hp'"
    using s3(3) l2 assms(2,4) by (auto simp: hp'_def)
  then obtain s4 where s4: "put_next pv k s3 = Some s4" "same_core s3 s4"
      "get_link s4 = (get_link s3)(pv \<mapsto> hp'\<lparr>next := k\<rparr>)"
    using put_next_spec [of s3 pv hp' k] by blast
  have "linked (get_link s) (get_link s4) k pv nx"
    using assms(2-5) by (auto simp: linked_def s4(3) s3(3) l2 hp'_def)
  moreover have "list_add_between k pv nx s = Some s4"
    by (simp add: list_add_between_def s1 s2 s3 s4)
  ultimately show ?thesis
    using s1(2) s2(2) s3(2) s4(2) same_core_trans by blast
qed

lemma dl_links: "dl L a rs b \<Longrightarrow> r \<in> set (a # b # rs) \<Longrightarrow> \<exists>h. L r = Some h"
  by (induction rs arbitrary: a) auto

lemma dl_last_next: "dl L a (xs @ ys) b \<Longrightarrow> map_option next (L (last (a # xs))) = Some (hd (ys @ [b]))"
  by (induction xs arbitrary: a) (cases ys; auto)+

lemma dl_hd_prev: "dl L a (xs @ ys) b \<Longrightarrow> map_option prev (L (hd (ys @ [b]))) = Some (last (a # xs))"
  by (induction xs arbitrary: a) (cases ys; auto)+

definition lists_ok :: "(nat \<Rightarrow> ptr list) \<Rightarrow> bool" where
  "lists_ok P \<longleftrightarrow> (\<forall>i. distinct (P i)) \<and> (\<forall>i j. i \<noteq> j \<longrightarrow> set (P i) \<inter> set (P j) = {})"

text \<open>A new node \<open>q\<close> enters the list of level \<open>i\<close> between \<open>xs\<close> and \<open>ys\<close>.\<close>

lemma rings_add:
  assumes "rings s P" "lists_ok P" "i < BPLUS_MAX_LEVEL" "P i = xs @ ys" "\<And>j. q \<notin> set (P j)"
    "get_link s (Link q) = Some hq"
    and pv: "pv = last (Head i # map Link xs)" and nx: "nx = hd (map Link ys @ [Head i])"
  shows "\<exists>s'. list_add_between (Link q) pv nx s = Some s' \<and> same_core s s' \<and>
    rings s' (P(i := xs @ q # ys))"
proof -
  have ring: "dl (get_link s) (Head i) (map Link xs @ map Link ys) (Head i)"
    using assms(1,3,4) by (auto simp: rings_def)
  have pv_in: "pv \<in> set (Head i # map Link xs)" and nx_in: "nx \<in> set (map Link ys @ [Head i])"
    unfolding pv nx by (rule last_in_set, simp) (rule hd_in_set, simp)
  have q: "q \<notin> set xs" "q \<notin> set ys"
    using assms(4) assms(5) [of i] by auto
  have "\<exists>h. get_link s pv = Some h" "\<exists>h. get_link s nx = Some h"
    using dl_links [OF ring, of pv] dl_links [OF ring, of nx] pv_in nx_in by auto
  then obtain s' where s': "list_add_between (Link q) pv nx s = Some s'" "same_core s s'"
      "linked (get_link s) (get_link s') (Link q) pv nx"
    using list_add_between_spec [OF assms(6), of pv _ nx] pv_in nx_in q by auto
  have dist: "distinct (xs @ ys)"
    using assms(2,4) by (metis lists_ok_def)
  have inj: "inj Link" by (simp add: inj_def)
  have "dl (get_link s') (Head i) (map Link xs @ Link q # map Link ys) (Head i)"
    using dl_linked [OF ring s'(3) [unfolded pv nx]] dist q inj
    by (auto simp: distinct_map inj_image_mem_iff inj_on_def)
  moreover have "dl (get_link s') (Head j) (map Link (P j)) (Head j)"
    if "j < BPLUS_MAX_LEVEL" "j \<noteq> i" for j
  proof -
    have "set (P j) \<inter> set (xs @ ys) = {}"
      using assms(2,4) that(2) by (metis lists_ok_def)
    then have "pv \<notin> set (Head j # map Link (P j))" "nx \<notin> set (map Link (P j) @ [Head j])"
      using pv_in nx_in that(2) by auto
    then show ?thesis
      using dl_linked_other [OF s'(3), of "Head j" "map Link (P j)" "Head j"] assms(1) assms(5) [of j] that by (auto simp: rings_def)
  qed
  ultimately have "rings s' (P(i := xs @ q # ys))"
    by (auto simp: rings_def)
  then show ?thesis using s' by blast
qed

lemma rings_add_after:
  assumes "rings s P" "lists_ok P" "i < BPLUS_MAX_LEVEL" "P i = xs @ p # ys" "\<And>j. q \<notin> set (P j)"
    "get_link s (Link q) = Some hq"
  shows "\<exists>s'. list_add (Link q) (Link p) s = Some s' \<and> same_core s s' \<and>
    rings s' (P(i := xs @ p # q # ys))"
proof -
  have P: "P i = (xs @ [p]) @ ys" using assms(4) by simp
  have "dl (get_link s) (Head i) (map Link (xs @ [p]) @ map Link ys) (Head i)"
    using assms(1,3) P by (auto simp: rings_def)
  from dl_last_next [OF this] obtain h where
    h: "get_link s (Link p) = Some h" "next h = hd (map Link ys @ [Head i])"
    by auto
  show ?thesis
    using rings_add [OF assms(1-3) P assms(5,6) refl refl] h by (simp add: list_add_def)
qed

lemma rings_add_before:
  assumes "rings s P" "lists_ok P" "i < BPLUS_MAX_LEVEL" "P i = xs @ p # ys" "\<And>j. q \<notin> set (P j)"
    "get_link s (Link q) = Some hq" "get_link s (Link p) = Some h"
  shows "\<exists>s'. list_add_between (Link q) (prev h) (Link p) s = Some s' \<and> same_core s s' \<and>
    rings s' (P(i := xs @ q # p # ys))"
proof -
  have "dl (get_link s) (Head i) (map Link xs @ map Link (p # ys)) (Head i)"
    using assms(1,3,4) by (auto simp: rings_def)
  from dl_hd_prev [OF this] assms(7) have "prev h = last (Head i # map Link xs)"
    by simp
  then show ?thesis
    using rings_add [OF assms(1-6) refl refl] by simp
qed

lemma rings_add_head:
  assumes "rings s P" "lists_ok P" "i < BPLUS_MAX_LEVEL" "\<And>j. q \<notin> set (P j)"
    "get_link s (Link q) = Some hq"
  shows "\<exists>s'. list_add (Link q) (Head i) s = Some s' \<and> same_core s s' \<and> rings s' (P(i := q # P i))"
proof -
  have "dl (get_link s) (Head i) ([] @ map Link (P i)) (Head i)"
    using assms(1,3) by (simp add: rings_def)
  from dl_last_next [OF this] obtain h where
    h: "get_link s (Head i) = Some h" "next h = hd (map Link (P i) @ [Head i])"
    by auto
  show ?thesis
    using rings_add [OF assms(1-3) _ assms(4,5) refl refl, of "[]" "P i"] h by (simp add: list_add_def)
qed

text \<open>What does not touch the links keeps the lists.\<close>

lemma rings_cong: "get_link s' = get_link s \<Longrightarrow> rings s' P = rings s P"
  by (simp add: rings_def)

subsection \<open>Running the elementary writes\<close>

text \<open>The value of each access on a heap whose node is known.\<close>

lemma get_non_leaf_eq: "nodes s p = Some (NonLeaf n) \<Longrightarrow> get_non_leaf s p = Some n"
  by (simp add: get_non_leaf_def)

lemma get_leaf_eq: "nodes s p = Some (Leaf l) \<Longrightarrow> get_leaf s p = Some l"
  by (simp add: get_leaf_def)

lemma aget_eq: "i < length xs \<Longrightarrow> aget xs (int i) = Some (xs ! i)"
  by (simp add: aget_def)

lemma aput_eq: "i < length xs \<Longrightarrow> aput xs (int i) v = Some (xs[i := v])"
  by (simp add: aput_def)

lemma get_nkey_eq:
  "nodes s p = Some (NonLeaf n) \<Longrightarrow> i < length (nkey n) \<Longrightarrow> get_nkey s p (int i) = Some (nkey n ! i)"
  by (simp add: get_nkey_def get_non_leaf_eq aget_eq)

lemma put_nkey_eq:
  "nodes s p = Some (NonLeaf n) \<Longrightarrow> i < length (nkey n) \<Longrightarrow>
   put_nkey p (int i) k s = Some (s\<lparr>nodes := (nodes s)(p \<mapsto> NonLeaf (n\<lparr>nkey := (nkey n)[i := k]\<rparr>))\<rparr>)"
  by (simp add: put_nkey_def get_non_leaf_eq aput_eq put_non_leaf_def)

lemma get_sub_eq:
  "nodes s p = Some (NonLeaf n) \<Longrightarrow> i < length (sub_ptr n) \<Longrightarrow> get_sub s p (int i) = Some (sub_ptr n ! i)"
  by (simp add: get_sub_def get_non_leaf_eq aget_eq)

lemma put_sub_eq:
  "nodes s p = Some (NonLeaf n) \<Longrightarrow> i < length (sub_ptr n) \<Longrightarrow>
   put_sub p (int i) c s = Some (s\<lparr>nodes := (nodes s)(p \<mapsto> NonLeaf (n\<lparr>sub_ptr := (sub_ptr n)[i := c]\<rparr>))\<rparr>)"
  by (simp add: put_sub_def get_non_leaf_eq aput_eq put_non_leaf_def)

lemma put_children_eq:
  "nodes s p = Some (NonLeaf n) \<Longrightarrow>
   put_children p c s = Some (s\<lparr>nodes := (nodes s)(p \<mapsto> NonLeaf (n\<lparr>count := c\<rparr>))\<rparr>)"
  by (simp add: put_children_def get_non_leaf_eq put_non_leaf_def)

lemma sub_set_idx_eq:
  "nodes s p = Some (NonLeaf n) \<Longrightarrow> i < length (sub_ptr n) \<Longrightarrow> sub_ptr n ! i = Some c \<Longrightarrow>
   nodes s c = Some nd \<Longrightarrow>
   sub_set_idx p (int i) idx s = Some (s\<lparr>nodes := (nodes s)(c \<mapsto> set_parent_key_idx idx nd)\<rparr>)"
  by (simp add: sub_set_idx_def get_sub_eq upd_node_def)

lemma sub_set_parent_eq:
  "nodes s p = Some (NonLeaf n) \<Longrightarrow> i < length (sub_ptr n) \<Longrightarrow> sub_ptr n ! i = Some c \<Longrightarrow>
   nodes s c = Some nd \<Longrightarrow>
   sub_set_parent p (int i) q s = Some (s\<lparr>nodes := (nodes s)(c \<mapsto> set_parent q nd)\<rparr>)"
  by (simp add: sub_set_parent_def get_sub_eq upd_node_def)

lemma attach_eq:
  assumes "nodes s p = Some (NonLeaf n)" "i < length (sub_ptr n)" "c \<noteq> p" "nodes s c = Some nd"
  shows "attach p (int i) (Some c) idx s =
    Some (s\<lparr>nodes := (nodes s)(p \<mapsto> NonLeaf (n\<lparr>sub_ptr := (sub_ptr n)[i := Some c]\<rparr>),
                              c \<mapsto> reparent (Some p) idx nd)\<rparr>)"
  using assms
  by (simp add: attach_def put_sub_eq sub_set_parent_eq [where n = "n\<lparr>sub_ptr := (sub_ptr n)[i := Some c]\<rparr>"]
      sub_set_idx_eq [where n = "n\<lparr>sub_ptr := (sub_ptr n)[i := Some c]\<rparr>"] reparent_def)

text \<open>A run of cells overwritten from place \<open>i\<close> on.\<close>

definition overwrite :: "'a list \<Rightarrow> nat \<Rightarrow> 'a list \<Rightarrow> 'a list" where
  "overwrite xs i ys = take i xs @ ys @ drop (i + length ys) xs"

lemma length_overwrite [simp]: "i + length ys \<le> length xs \<Longrightarrow> length (overwrite xs i ys) = length xs"
  by (simp add: overwrite_def)

lemma overwrite_Nil [simp]: "overwrite xs i [] = xs"
  by (simp add: overwrite_def)

lemma overwrite_upd:
  "i + length ys < length xs \<Longrightarrow> overwrite (xs[i := y]) (Suc i) ys = overwrite xs i (y # ys)"
  by (simp add: overwrite_def take_Suc_conv_app_nth)

lemma overwrite_upd_front:
  "i < j \<Longrightarrow> j \<le> length xs \<Longrightarrow> overwrite (xs[i := y]) j ys = (overwrite xs j ys)[i := y]"
  by (simp add: overwrite_def take_update_swap list_update_append)

lemma overwrite_overwrite:
  "i + length ys + length zs \<le> length xs \<Longrightarrow> overwrite (overwrite xs i ys) (i + length ys) zs = overwrite xs i (ys @ zs)"
  by (simp add: overwrite_def ac_simps)

lemma take_overwrite: "i + length ys \<le> length xs \<Longrightarrow> take (i + length ys) (overwrite xs i ys) = take i xs @ ys"
  by (simp add: overwrite_def)

lemma overwrite_nth:
  "i + length ys \<le> length xs \<Longrightarrow> j < length xs \<Longrightarrow>
   overwrite xs i ys ! j = (if j < i then xs ! j else if j < i + length ys then ys ! (j - i) else xs ! j)"
  by (auto simp: overwrite_def nth_append min_def)

end
