(* ===== verification/MBT_Loops.thy ===== *)
theory MBT_Loops
  imports MBT_Shape
begin

text \<open>
  The effect of the loops of insertion on a heap whose nodes are known: for every
  loop of the split and fill functions, the heap after it in closed form.
\<close>

lemma adopt_step:
  assumes "p \<noteq> c" "p \<notin> set cs" "N c = Some nd" "i = j - 1" "j' = j + 1"
  shows "(adopt p j' cs (N(p \<mapsto> x, c \<mapsto> reparent (Some p) i nd)))(p \<mapsto> z) =
    (adopt p j (c # cs) N)(p \<mapsto> z)"
proof -
  have "N(p \<mapsto> x, c \<mapsto> reparent (Some p) i nd) = N(c \<mapsto> reparent (Some p) i nd, p \<mapsto> x)"
    using assms(1) by (rule fun_upd_twist)
  then show ?thesis
    using assms by (simp add: adopt_upd_other)
qed

lemma nl_split_right1_copy_eq:
  assumes "nodes s node = Some (NonLeaf n)" "nodes s right = Some (NonLeaf m)" "node \<noteq> right"
    "take (length cs) (drop (Suc i) (sub_ptr n)) = map Some cs"
    "take (length cs) (drop i (nkey n)) = ks" "length ks = length cs"
    "ord = Suc (i + length cs)" "j + length cs \<le> 49"
    "distinct cs" "node \<notin> set cs" "right \<notin> set cs" "\<And>c. c \<in> set cs \<Longrightarrow> nodes s c \<noteq> None"
    "length (nkey m) = 49" "length (sub_ptr m) = 50"
  shows "nl_split_right1_copy node right (int ord) (int i) (int j) s =
    Some (int (j + length cs),
      s\<lparr>nodes := (adopt right (int j + 1) cs (nodes s))
         (right \<mapsto> NonLeaf (m\<lparr>nkey := overwrite (nkey m) j ks,
                               sub_ptr := overwrite (sub_ptr m) (Suc j) (map Some cs)\<rparr>))\<rparr>)"
  using assms
proof (induction cs arbitrary: i j s m ks)
  case Nil
  then show ?case by (subst nl_split_right1_copy.simps) (simp add: fun_upd_idem)
next
  case (Cons c cs)
  obtain k ks' where ks: "ks = k # ks'" using Cons.prems(6) by (cases ks) auto
  have i: "i < length (nkey n)" "Suc i < length (sub_ptr n)"
    using Cons.prems(4,5,6) by (auto simp flip: not_le)
  have c: "sub_ptr n ! Suc i = Some c" and cs: "take (length cs) (drop (Suc (Suc i)) (sub_ptr n)) = map Some cs"
    using Cons.prems(4) i(2) by (simp_all add: Cons_nth_drop_Suc [symmetric])
  have k: "nkey n ! i = k" and ks': "take (length cs) (drop (Suc i) (nkey n)) = ks'"
    using Cons.prems(5) i(1) ks by (simp_all add: Cons_nth_drop_Suc [symmetric])
  obtain nd where nd: "nodes s c = Some nd" using Cons.prems(12) [of c] by auto
  let ?m1 = "m\<lparr>nkey := (nkey m)[j := k]\<rparr>"
  let ?m = "m\<lparr>nkey := (nkey m)[j := k], sub_ptr := (sub_ptr m)[Suc j := Some c]\<rparr>"
  let ?s = "s\<lparr>nodes := (nodes s)(right \<mapsto> NonLeaf ?m, c \<mapsto> reparent (Some right) (int j) nd)\<rparr>"
  have "nl_split_right1_copy node right (int ord) (int i) (int j) s =
      nl_split_right1_copy node right (int ord) (int (Suc i)) (int (Suc j)) ?s"
    using Cons.prems nd i c k
    by (subst nl_split_right1_copy.simps)
      (simp add: get_nkey_eq [where i = i] put_nkey_eq [where i = j] get_sub_eq [where i = "Suc i", simplified]
        attach_eq [where i = "Suc j", simplified] add.commute)
  also have "\<dots> = Some (int (Suc j + length cs),
      ?s\<lparr>nodes := (adopt right (int (Suc j) + 1) cs (nodes ?s))
         (right \<mapsto> NonLeaf (?m\<lparr>nkey := overwrite (nkey ?m) (Suc j) ks',
                               sub_ptr := overwrite (sub_ptr ?m) (Suc (Suc j)) (map Some cs)\<rparr>))\<rparr>)"
    using Cons.prems cs ks' ks by (intro Cons.IH) auto
  also have "(adopt right (int (Suc j) + 1) cs (nodes ?s))(right \<mapsto> z) =
      (adopt right (int j + 1) (c # cs) (nodes s))(right \<mapsto> z)" for z
    using adopt_step [of right c cs "nodes s" nd "int j" "int j + 1" "int (Suc j) + 1"] nd Cons.prems(11)
    by simp
  finally have eq: "nl_split_right1_copy node right (int ord) (int i) (int j) s =
      Some (int (j + length (c # cs)), s\<lparr>nodes := (adopt right (int j + 1) (c # cs) (nodes s))
         (right \<mapsto> NonLeaf (m\<lparr>nkey := overwrite ((nkey m)[j := k]) (Suc j) ks',
            sub_ptr := overwrite ((sub_ptr m)[Suc j := Some c]) (Suc (Suc j)) (map Some cs)\<rparr>))\<rparr>)"
    by (simp add: fun_upd_def del: adopt.simps)
  have "overwrite ((nkey m)[j := k]) (Suc j) ks' = overwrite (nkey m) j ks"
    "overwrite ((sub_ptr m)[Suc j := Some c]) (Suc (Suc j)) (map Some cs) =
     overwrite (sub_ptr m) (Suc j) (map Some (c # cs))"
    using Cons.prems(6,8,13,14) by (simp_all add: ks overwrite_upd)
  then show ?case unfolding eq by (simp add: fun_upd_def)
qed

lemma nl_split_right2_plain:
  assumes "hole < j \<or> j + (ord - 1 - i) \<le> hole"
  shows "nl_split_right2_copy node right ord hole i j s = nl_split_right1_copy node right ord i j s"
  using assms
proof (induction node right ord i j s rule: nl_split_right1_copy.induct)
  case (1 node right ord i j s)
  show ?case
  proof (cases "i < ord - 1")
    case True
    then have "j \<noteq> hole" using 1(2) by auto
    then show ?thesis
      using True 1
      by (subst nl_split_right2_copy.simps, subst nl_split_right1_copy.simps)
        (auto intro!: bind_option_cong)
  qed (simp add: nl_split_right2_copy.simps nl_split_right1_copy.simps)
qed

text \<open>The loop up to the hole.\<close>

lemma nl_split_right2_front:
  assumes "0 \<le> d" "j + d = hole" "i + d \<le> ord - 1"
  shows "nl_split_right2_copy node right ord hole i j s =
    nl_split_right1_copy node right (i + d + 1) i j s \<bind>
      (\<lambda>(j', s'). nl_split_right2_copy node right ord hole (i + d) hole s')"
  using assms
proof (induction "nat d" arbitrary: i j d s)
  case 0
  then have "d = 0" by simp
  then show ?case using 0 by (subst nl_split_right1_copy.simps) simp
next
  case (Suc x)
  then have d: "0 < d" "x = nat (d - 1)" by auto
  have IH: "nl_split_right2_copy node right ord hole (i + 1) (j + 1) s' =
      nl_split_right1_copy node right (i + d + 1) (i + 1) (j + 1) s' \<bind>
        (\<lambda>(j', s'). nl_split_right2_copy node right ord hole (i + d) hole s')" for s'
    using Suc(1) [OF d(2), of "j + 1" "i + 1" s'] Suc.prems d(1) by (simp add: algebra_simps)
  have "i < ord - 1" "j \<noteq> hole" "i < i + d + 1 - 1"
    using d(1) Suc.prems by auto
  then show ?case
    by (subst nl_split_right2_copy.simps, subst nl_split_right1_copy.simps)
      (simp add: IH cong: bind_option_cong)
qed

text \<open>The children and the keys the loops of \<^verbatim>\<open>non_leaf_split_left\<close> write, in order.\<close>

function left_subs :: "ptr list \<Rightarrow> ptr \<Rightarrow> ptr \<Rightarrow> nat \<Rightarrow> nat \<Rightarrow> nat \<Rightarrow> nat \<Rightarrow> ptr list" where
  "left_subs cs l r ins split i j =
     (if i < split then
        if j = ins then l # r # left_subs cs l r ins split (Suc i) (Suc (Suc j))
        else cs ! i # left_subs cs l r ins split (Suc i) (Suc j)
      else [])"
  by pat_completeness auto
termination by (relation "measure (\<lambda>(cs, l, r, ins, split, i, j). split - i)") auto

declare left_subs.simps [simp del]

lemma attach_then:
  assumes "nodes s p = Some (NonLeaf m)" "nodes s c = Some nd" "p \<noteq> c" "p \<notin> set ds"
    "j + Suc (length ds) \<le> length (sub_ptr m)"
    and F: "\<And>m' s'. m' = m\<lparr>sub_ptr := (sub_ptr m)[j := Some c]\<rparr> \<Longrightarrow>
      s' = s\<lparr>nodes := (nodes s)(p \<mapsto> NonLeaf m', c \<mapsto> reparent (Some p) (int j - 1) nd)\<rparr> \<Longrightarrow>
      F s' = Some (s'\<lparr>nodes := (adopt p (int (Suc j)) ds (nodes s'))
         (p \<mapsto> NonLeaf (m'\<lparr>sub_ptr := overwrite (sub_ptr m') (Suc j) (map Some ds)\<rparr>))\<rparr>)"
  shows "attach p (int j) (Some c) (int j - 1) s \<bind> F =
    Some (s\<lparr>nodes := (adopt p (int j) (c # ds) (nodes s))
         (p \<mapsto> NonLeaf (m\<lparr>sub_ptr := overwrite (sub_ptr m) j (map Some (c # ds))\<rparr>))\<rparr>)"
proof -
  let ?m = "m\<lparr>sub_ptr := (sub_ptr m)[j := Some c]\<rparr>"
  let ?s = "s\<lparr>nodes := (nodes s)(p \<mapsto> NonLeaf ?m, c \<mapsto> reparent (Some p) (int j - 1) nd)\<rparr>"
  have at: "attach p (int j) (Some c) (int j - 1) s = Some ?s"
    using assms(1-5) by (subst attach_eq) auto
  have "(adopt p (int (Suc j)) ds (nodes ?s))(p \<mapsto> z) = (adopt p (int j) (c # ds) (nodes s))(p \<mapsto> z)" for z
    using adopt_step [of p c ds "nodes s" nd "int j - 1" "int j" "int (Suc j)"] assms(2-4) by simp
  moreover have "overwrite ((sub_ptr m)[j := Some c]) (Suc j) (map Some ds) =
      overwrite (sub_ptr m) j (map Some (c # ds))"
    using assms(5) by (simp add: overwrite_upd)
  ultimately show ?thesis
    unfolding at bind.bind_lunit F [OF refl refl] by (simp add: fun_upd_def)
qed

lemma nl_split_left_subs_eq:
  assumes "nodes s node = Some (NonLeaf n)" "nodes s left = Some (NonLeaf m)" "node \<noteq> left"
    "take (length cs) (sub_ptr n) = map Some cs" "split \<le> length cs" "length cs \<le> length (sub_ptr n)"
    "ds = left_subs cs l r ins split i j" "j + length ds \<le> length (sub_ptr m)"
    "distinct ds" "node \<notin> set ds" "left \<notin> set ds" "\<And>c. c \<in> set ds \<Longrightarrow> nodes s c \<noteq> None"
  shows "nl_split_left_subs node left l r (int ins) (int split) (int i) (int j) s =
    Some (s\<lparr>nodes := (adopt left (int j) ds (nodes s))
         (left \<mapsto> NonLeaf (m\<lparr>sub_ptr := overwrite (sub_ptr m) j (map Some ds)\<rparr>))\<rparr>)"
  using assms
proof (induction "split - i" arbitrary: i j s m ds)
  case 0
  then show ?case
    by (subst nl_split_left_subs.simps) (simp add: left_subs.simps fun_upd_idem)
next
  case (Suc x)
  have i: "i < split" "x = split - Suc i" using Suc(2) by auto
  show ?case
  proof (cases "j = ins")
    case True
    let ?ds = "left_subs cs l r ins split (Suc i) (Suc (Suc j))"
    have ds: "ds = l # r # ?ds"
      using True i(1) Suc.prems(7) by (simp add: left_subs.simps)
    note P = Suc.prems(8-12) [unfolded ds]
    obtain nl nr where nd: "nodes s l = Some nl" "nodes s r = Some nr"
      using P(5) [of l] P(5) [of r] by auto
    have "nl_split_left_subs node left l r (int ins) (int split) (int i) (int j) s =
      attach left (int j) (Some l) (int j - 1) s \<bind> (\<lambda>s. attach left (int (Suc j)) (Some r) (int (Suc j) - 1) s \<bind>
        nl_split_left_subs node left l r (int ins) (int split) (int (Suc i)) (int (Suc (Suc j))))"
      using True i(1) by (subst nl_split_left_subs.simps) (simp add: add.commute)
    also have "\<dots> = Some (s\<lparr>nodes := (adopt left (int j) (l # r # ?ds) (nodes s))
         (left \<mapsto> NonLeaf (m\<lparr>sub_ptr := overwrite (sub_ptr m) j (map Some (l # r # ?ds))\<rparr>))\<rparr>)"
    proof (rule attach_then [OF Suc.prems(2) nd(1)], goal_cases)
      case (4 m1 s1)
      show ?case
      proof (rule attach_then [of _ _ m1 _ nr], goal_cases)
        case (6 m2 s2)
        show ?case
          by (rule Suc(1) [OF i(2)]) (use Suc.prems P 4 6 in \<open>auto simp: nd\<close>)
      qed (use Suc.prems P 4 nd in auto)
    qed (use P in auto)
    finally show ?thesis unfolding ds .
  next
    case False
    let ?ds = "left_subs cs l r ins split (Suc i) (Suc j)"
    have ds: "ds = cs ! i # ?ds"
      using i(1) False Suc.prems(7) by (simp add: left_subs.simps)
    note P = Suc.prems(8-12) [unfolded ds]
    obtain nd where nd: "nodes s (cs ! i) = Some nd" using P(5) [of "cs ! i"] by auto
    have sub: "sub_ptr n ! i = Some (cs ! i)"
      using Suc.prems(4,5) i(1) by (metis nth_map nth_take order_less_le_trans)
    have "nl_split_left_subs node left l r (int ins) (int split) (int i) (int j) s =
      attach left (int j) (Some (cs ! i)) (int j - 1) s \<bind>
        nl_split_left_subs node left l r (int ins) (int split) (int (Suc i)) (int (Suc j))"
      using Suc.prems(1,5,6) i(1) False sub
      by (subst nl_split_left_subs.simps) (simp add: get_sub_eq [where i = i] add.commute)
    also have "\<dots> = Some (s\<lparr>nodes := (adopt left (int j) (cs ! i # ?ds) (nodes s))
         (left \<mapsto> NonLeaf (m\<lparr>sub_ptr := overwrite (sub_ptr m) j (map Some (cs ! i # ?ds))\<rparr>))\<rparr>)"
    proof (rule attach_then [OF Suc.prems(2) nd], goal_cases)
      case (4 m1 s1)
      show ?case
        by (rule Suc(1) [OF i(2)]) (use Suc.prems P 4 in \<open>auto simp: nd\<close>)
    qed (use P in auto)
    finally show ?thesis unfolding ds .
  qed
qed

lemma nth_of_take: "take (length ys) xs = ys \<Longrightarrow> i < length ys \<Longrightarrow> xs ! i = ys ! i"
  by (metis nth_take)

function left_keys :: "int list \<Rightarrow> int \<Rightarrow> nat \<Rightarrow> nat \<Rightarrow> nat \<Rightarrow> nat \<Rightarrow> int list" where
  "left_keys ks k ins split i j =
     (if i < split - 1 then
        if j = ins then k # left_keys ks k ins split i (Suc j)
        else ks ! i # left_keys ks k ins split (Suc i) (Suc j)
      else [])"
  by pat_completeness auto
termination
  by (relation "measures [\<lambda>(ks, k, ins, split, i, j). split - 1 - i,
        \<lambda>(ks, k, ins, split, i, j). Suc ins - j]") auto

declare left_keys.simps [simp del]

lemma put_nkey_then:
  assumes "nodes s p = Some (NonLeaf m)" "j + Suc (length ks) \<le> length (nkey m)"
    and F: "\<And>m' s'. m' = m\<lparr>nkey := (nkey m)[j := k]\<rparr> \<Longrightarrow> s' = s\<lparr>nodes := (nodes s)(p \<mapsto> NonLeaf m')\<rparr> \<Longrightarrow>
      F s' = Some (r, s'\<lparr>nodes := (nodes s')(p \<mapsto> NonLeaf (m'\<lparr>nkey := overwrite (nkey m') (Suc j) ks\<rparr>))\<rparr>)"
  shows "put_nkey p (int j) k s \<bind> F =
    Some (r, s\<lparr>nodes := (nodes s)(p \<mapsto> NonLeaf (m\<lparr>nkey := overwrite (nkey m) j (k # ks)\<rparr>))\<rparr>)"
proof -
  have "overwrite ((nkey m)[j := k]) (Suc j) ks = overwrite (nkey m) j (k # ks)"
    using assms(2) by (simp add: overwrite_upd)
  then show ?thesis
    using assms(1,2) F [OF refl refl] by (simp add: put_nkey_eq)
qed

lemma nl_split_left_keys_eq:
  assumes "nodes s node = Some (NonLeaf n)" "nodes s left = Some (NonLeaf m)" "node \<noteq> left"
    "take (length ks) (nkey n) = ks" "split \<le> Suc (length ks)" "length ks \<le> length (nkey n)"
    "xs = left_keys ks k ins split i j" "j + length xs \<le> length (nkey m)"
  shows "nl_split_left_keys node left k (int ins) (int split) (int i) (int j) s =
    Some (int (j + length xs),
      s\<lparr>nodes := (nodes s)(left \<mapsto> NonLeaf (m\<lparr>nkey := overwrite (nkey m) j xs\<rparr>))\<rparr>)"
  using assms
proof (induction ks k ins split i j arbitrary: s m xs rule: left_keys.induct)
  case (1 ks k ins split i j)
  show ?case
  proof (cases "i < split - 1")
    case False
    then have "\<not> int i < int split - 1" by linarith
    then show ?thesis
      using False 1 by (subst nl_split_left_keys.simps) (simp add: left_keys.simps fun_upd_idem)
  next
    case T: True
    then have Ti: "int i < int split - 1" by linarith
    show ?thesis
    proof (cases "j = ins")
      case True
      let ?xs = "left_keys ks k ins split i (Suc j)"
      have xs: "xs = k # ?xs" using T True 1(9) by (simp add: left_keys.simps)
      have "nl_split_left_keys node left k (int ins) (int split) (int i) (int j) s =
          put_nkey left (int j) k s \<bind> nl_split_left_keys node left k (int ins) (int split) (int i) (int (Suc j))"
        using Ti True by (subst nl_split_left_keys.simps) (simp add: add.commute)
      also have "\<dots> = Some (int (Suc j + length ?xs),
          s\<lparr>nodes := (nodes s)(left \<mapsto> NonLeaf (m\<lparr>nkey := overwrite (nkey m) j (k # ?xs)\<rparr>))\<rparr>)"
      proof (rule put_nkey_then [OF 1(4)], goal_cases)
        case (2 m1 s1)
        show ?case by (rule 1(1)) (use T True 1(3-8) 1(10) [unfolded xs] 2 in auto)
      qed (use 1(10) xs in auto)
      finally show ?thesis unfolding xs by (simp add: fun_upd_def)
    next
      case False
      let ?xs = "left_keys ks k ins split (Suc i) (Suc j)"
      have xs: "xs = ks ! i # ?xs" using T False 1(9) by (simp add: left_keys.simps)
      have len: "i < length (nkey n)" and key: "nkey n ! i = ks ! i"
        using T 1(7,8) nth_of_take [OF 1(6), of i] by auto
      have "nl_split_left_keys node left k (int ins) (int split) (int i) (int j) s =
          put_nkey left (int j) (ks ! i) s \<bind>
            nl_split_left_keys node left k (int ins) (int split) (int (Suc i)) (int (Suc j))"
        using Ti False len key 1(3)
        by (subst nl_split_left_keys.simps) (simp add: get_nkey_eq [where i = i] add.commute)
      also have "\<dots> = Some (int (Suc j + length ?xs),
          s\<lparr>nodes := (nodes s)(left \<mapsto> NonLeaf (m\<lparr>nkey := overwrite (nkey m) j (ks ! i # ?xs)\<rparr>))\<rparr>)"
      proof (rule put_nkey_then [OF 1(4)], goal_cases)
        case (2 m1 s1)
        show ?case by (rule 1(2)) (use T False 1(3-8) 1(10) [unfolded xs] 2 in auto)
      qed (use 1(10) xs in auto)
      finally show ?thesis unfolding xs by (simp add: fun_upd_def)
    qed
  qed
qed

text \<open>The left shift inside the split node: the source lies to the right of the target.\<close>

lemma nl_shift_left_eq:
  assumes "nodes s p = Some (NonLeaf m)"
    "take (length cs) (drop (Suc i) (sub_ptr m)) = map Some cs"
    "take (length cs) (drop i (nkey m)) = ks" "length ks = length cs"
    "ord = Suc (i + length cs)" "j < i" "ord \<le> length (sub_ptr m)" "i + length cs \<le> length (nkey m)"
    "distinct cs" "p \<notin> set cs" "\<And>c. c \<in> set cs \<Longrightarrow> nodes s c \<noteq> None"
  shows "nl_shift_left p (int ord) (int i) (int j) s =
    Some (int (i + length cs), int (j + length cs),
      s\<lparr>nodes := (adopt p (int (Suc j)) cs (nodes s))
         (p \<mapsto> NonLeaf (m\<lparr>nkey := overwrite (nkey m) j ks,
                           sub_ptr := overwrite (sub_ptr m) (Suc j) (map Some cs)\<rparr>))\<rparr>)"
  using assms
proof (induction cs arbitrary: i j s m ks)
  case Nil
  then show ?case by (subst nl_shift_left.simps) (simp add: fun_upd_idem)
next
  case (Cons c cs)
  obtain k ks' where ks: "ks = k # ks'" using Cons.prems(4) by (cases ks) auto
  have i: "i < length (nkey m)" "Suc i < length (sub_ptr m)"
    using Cons.prems(5,7,8) by auto
  have c: "sub_ptr m ! Suc i = Some c" and cs: "take (length cs) (drop (Suc (Suc i)) (sub_ptr m)) = map Some cs"
    using Cons.prems(2) i(2) by (simp_all add: Cons_nth_drop_Suc [symmetric])
  have k: "nkey m ! i = k" and ks': "take (length cs) (drop (Suc i) (nkey m)) = ks'"
    using Cons.prems(3) i(1) ks by (simp_all add: Cons_nth_drop_Suc [symmetric])
  obtain nd where nd: "nodes s c = Some nd" using Cons.prems(11) [of c] by auto
  let ?m1 = "m\<lparr>nkey := (nkey m)[j := k]\<rparr>"
  let ?m = "m\<lparr>nkey := (nkey m)[j := k], sub_ptr := (sub_ptr m)[Suc j := Some c]\<rparr>"
  let ?s1 = "s\<lparr>nodes := (nodes s)(p \<mapsto> NonLeaf ?m1)\<rparr>"
  let ?s = "s\<lparr>nodes := (nodes s)(p \<mapsto> NonLeaf ?m, c \<mapsto> reparent (Some p) (int j) nd)\<rparr>"
  have at: "attach p (int (Suc j)) (Some c) (int j) ?s1 = Some ?s"
    using Cons.prems(6,10) i nd by (subst attach_eq [where n = ?m1]) auto
  have "nl_shift_left p (int ord) (int i) (int j) s = nl_shift_left p (int ord) (int (Suc i)) (int (Suc j)) ?s"
    using Cons.prems(1,5,6) i c k at
    by (subst nl_shift_left.simps)
      (simp add: get_nkey_eq [where i = i] put_nkey_eq [where i = j] get_sub_eq [where i = "Suc i", simplified] add.commute)
  moreover have "nl_shift_left p (int ord) (int (Suc i)) (int (Suc j)) ?s =
    Some (int (Suc i + length cs), int (Suc j + length cs),
      ?s\<lparr>nodes := (adopt p (int (Suc (Suc j))) cs (nodes ?s))
         (p \<mapsto> NonLeaf (?m\<lparr>nkey := overwrite (nkey ?m) (Suc j) ks',
                           sub_ptr := overwrite (sub_ptr ?m) (Suc (Suc j)) (map Some cs)\<rparr>))\<rparr>)"
    by (rule Cons.IH) (use Cons.prems ks cs ks' in auto)
  moreover have "(adopt p (int (Suc (Suc j))) cs (nodes ?s))(p \<mapsto> z) =
      (adopt p (int (Suc j)) (c # cs) (nodes s))(p \<mapsto> z)" for z
    using adopt_step [of p c cs "nodes s" nd "int j" "int (Suc j)" "int (Suc (Suc j))"] nd Cons.prems(10) by simp
  moreover have "overwrite ((nkey m)[j := k]) (Suc j) ks' = overwrite (nkey m) j ks"
    "overwrite ((sub_ptr m)[Suc j := Some c]) (Suc (Suc j)) (map Some cs) =
     overwrite (sub_ptr m) (Suc j) (map Some (c # cs))"
    using Cons.prems(4,5,6,7,8) by (simp_all add: ks overwrite_upd)
  ultimately show ?case by (simp add: fun_upd_def)
qed

end
