(* ===== verification/MBT_Grow.thy ===== *)
theory MBT_Grow
  imports MBT_Loops
begin

text \<open>
  The node operations of insertion as operations on lists. \<open>split_ready\<close> describes a full non-leaf node, its
  new sibling and the two children that take the place of one; each of the three splits distributes the children
  and keys over the two nodes, and the split of a leaf its keys. All of them leave every parent pointer right.
\<close>

subsection \<open>Adopted children, one by one\<close>

text \<open>The place of an element in a list that contains it.\<close>

definition place :: "'a \<Rightarrow> 'a list \<Rightarrow> nat" where
  "place q xs = length (takeWhile (\<lambda>x. x \<noteq> q) xs)"

lemma place_simps [simp]:
  "place q (x # xs) = (if x = q then 0 else Suc (place q xs))"
  by (simp add: place_def)

lemma place_append:
  "place q (xs @ ys) = (if q \<in> set xs then place q xs else length xs + place q ys)"
  by (induction xs) auto

lemma adopt_at:
  "distinct cs \<Longrightarrow> adopt p j cs N q =
    (if q \<in> set cs then map_option (reparent (Some p) (j - 1 + int (place q cs))) (N q) else N q)"
proof (induction cs arbitrary: j N)
  case (Cons c cs)
  then show ?case by (cases "q = c") (auto simp: adopt_other algebra_simps)
qed simp

lemma adopt_id_at:
  assumes "adopt p j cs N = N" "distinct cs" "q \<in> set cs"
  shows "map_option (reparent (Some p) (j - 1 + int (place q cs))) (N q) = N q"
  using fun_cong [OF assms(1), of q] assms(2,3) by (simp add: adopt_at)

lemma reprs_adopt_id:
  "reprs N it p j ts \<Longrightarrow> adopt p j (map root_ptr ts) N = N"
proof (induction ts arbitrary: j)
  case (Cons t ts)
  have "N(root_ptr t := map_option (reparent (Some p) (j - 1)) (N (root_ptr t))) = N"
    using reparent_id [of N it "Some p" "j - 1" t] Cons.prems by (simp add: fun_upd_idem)
  then show ?case using Cons by simp
qed simp

lemma map_reparent_reparent [simp]:
  "map_option (reparent q i) (map_option (reparent q' i') x) = map_option (reparent q i) x"
  by (cases x) simp_all

lemma map_set_idx_id:
  assumes "map_option (reparent (Some p) i) x = x"
  shows "map_option (set_parent_key_idx j) x = map_option (reparent (Some p) j) x"
proof (cases x)
  case (Some nd)
  then have "parent (node_hd nd) = Some p" using assms by (cases nd) (auto dest: arg_cong [where f = parent] simp: bplus_node.defs)
  then show ?thesis using Some by (cases nd) (simp_all add: bplus_node.defs)
qed simp

subsection \<open>What the split loops write\<close>

lemma left_subs_after: "ins < j \<Longrightarrow> split \<le> length cs \<Longrightarrow> left_subs cs l r ins split i j = take (split - i) (drop i cs)"
proof (induction cs l r ins split i j rule: left_subs.induct)
  case (1 cs l r ins split i j)
  show ?case
  proof (cases "i < split")
    case True
    then have "drop i cs = cs ! i # drop (Suc i) cs" using 1(4) by (simp add: Cons_nth_drop_Suc)
    moreover have "split - i = Suc (split - Suc i)" using True by simp
    ultimately show ?thesis using 1 True by (subst left_subs.simps) simp
  qed (simp add: left_subs.simps)
qed

lemma left_subs_before:
  "i \<le> ins \<Longrightarrow> ins < split \<Longrightarrow> split \<le> length cs \<Longrightarrow>
   left_subs cs l r ins split i i =
     take (ins - i) (drop i cs) @ l # r # take (split - Suc ins) (drop (Suc ins) cs)"
proof (induction "ins - i" arbitrary: i)
  case 0
  then show ?case by (subst left_subs.simps) (simp add: left_subs_after)
next
  case (Suc d)
  then have "drop i cs = cs ! i # drop (Suc i) cs" by (simp add: Cons_nth_drop_Suc)
  moreover have "ins - i = Suc (ins - Suc i)" "i \<noteq> ins" using Suc.hyps(2) by auto
  ultimately show ?case using Suc by (subst left_subs.simps) simp
qed

lemma left_subs_eq:
  assumes "length csl < split" "split \<le> Suc (length csl + length csr)"
  shows "left_subs (csl @ c # csr) l r (length csl) split 0 0 = take (Suc split) (csl @ l # r # csr)"
proof -
  have "Suc split - length csl = Suc (Suc (split - Suc (length csl)))" using assms by simp
  then show ?thesis using assms by (subst left_subs_before) auto
qed

lemma left_keys_after: "ins < j \<Longrightarrow> split \<le> Suc (length ks) \<Longrightarrow> left_keys ks k ins split i j = take (split - 1 - i) (drop i ks)"
proof (induction ks k ins split i j rule: left_keys.induct)
  case (1 ks k ins split i j)
  show ?case
  proof (cases "i < split - 1")
    case True
    then have "drop i ks = ks ! i # drop (Suc i) ks" using 1(4) by (simp add: Cons_nth_drop_Suc)
    moreover have "split - 1 - i = Suc (split - 1 - Suc i)" using True by simp
    ultimately show ?thesis using 1 True by (subst left_keys.simps) simp
  qed (simp add: left_keys.simps)
qed

lemma left_keys_before:
  "i \<le> ins \<Longrightarrow> ins < split - 1 \<Longrightarrow> split \<le> Suc (length ks) \<Longrightarrow>
   left_keys ks k ins split i i = take (ins - i) (drop i ks) @ k # take (split - 1 - ins) (drop ins ks)"
proof (induction "ins - i" arbitrary: i)
  case 0
  then show ?case by (subst left_keys.simps) (simp add: left_keys_after)
next
  case (Suc d)
  then have "drop i ks = ks ! i # drop (Suc i) ks" by (simp add: Cons_nth_drop_Suc)
  moreover have "ins - i = Suc (ins - Suc i)" "i \<noteq> ins" using Suc.hyps(2) by auto
  ultimately show ?case using Suc by (subst left_keys.simps) simp
qed

lemma left_keys_none:
  "i \<le> split - 1 \<Longrightarrow> split - 1 \<le> ins \<Longrightarrow> split \<le> Suc (length ks) \<Longrightarrow>
   left_keys ks k ins split i i = take (split - 1 - i) (drop i ks)"
proof (induction "split - 1 - i" arbitrary: i)
  case 0
  then show ?case by (subst left_keys.simps) simp
next
  case (Suc d)
  then have "drop i ks = ks ! i # drop (Suc i) ks" by (simp add: Cons_nth_drop_Suc)
  moreover have "split - 1 - i = Suc (split - 1 - Suc i)" using Suc.hyps(2) by simp
  ultimately show ?case using Suc by (subst left_keys.simps) simp
qed

lemma left_keys_eq:
  assumes "length ksl < split" "split \<le> Suc (length ksl + length ksr)"
  shows "left_keys (ksl @ ksr) k (length ksl) split 0 0 =
    take (if length ksl < split - 1 then split else split - 1) (ksl @ k # ksr)"
proof (cases "length ksl < split - 1")
  case True
  then have "split - length ksl = Suc (split - 1 - length ksl)" by simp
  then show ?thesis using assms True by (subst left_keys_before) auto
next
  case False
  then have "split - 1 = length ksl" using assms by simp
  then show ?thesis using assms by (subst left_keys_none) auto
qed

subsection \<open>Splits of non-leaf nodes\<close>

definition split_ready ::
    "(ptr \<Rightarrow> node option) \<Rightarrow> ptr \<Rightarrow> ptr \<Rightarrow> bplus_non_leaf \<Rightarrow> bplus_non_leaf \<Rightarrow> ptr list \<Rightarrow> ptr \<Rightarrow> ptr list \<Rightarrow>
     int list \<Rightarrow> int list \<Rightarrow> ptr \<Rightarrow> ptr \<Rightarrow> bool" where
  "split_ready N p q n m csl c csr ksl ksr l r \<longleftrightarrow>
     N p = Some (NonLeaf n) \<and> N q = Some (NonLeaf m) \<and> non_leaf_shape n \<and> non_leaf_shape m \<and>
     take (Suc (length csl + length csr)) (sub_ptr n) = map Some (csl @ c # csr) \<and>
     take (length ksl + length ksr) (nkey n) = ksl @ ksr \<and>
     length csl = length ksl \<and> length csr = length ksr \<and> Suc (length csl + length csr) \<le> 50 \<and>
     distinct (p # q # csl @ l # r # csr) \<and> (\<forall>x \<in> set (csl @ l # r # csr). N x \<noteq> None) \<and>
     adopt p 0 csl N = N \<and> adopt p (int (length csl) + 1) csr N = N \<and> c \<in> {l, r}"

text \<open>A node with new children and keys and nothing else changed.\<close>

definition refilled :: "bplus_non_leaf \<Rightarrow> bplus_non_leaf \<Rightarrow> ptr list \<Rightarrow> int list \<Rightarrow> bool" where
  "refilled n n' cs ks \<longleftrightarrow>
     n' = n\<lparr>count := int (length cs), nkey := nkey n', sub_ptr := sub_ptr n'\<rparr> \<and> non_leaf_shape n' \<and>
     take (length cs) (sub_ptr n') = map Some cs \<and> take (length ks) (nkey n') = ks"

definition split_done ::
    "heap \<Rightarrow> heap \<Rightarrow> ptr \<Rightarrow> ptr \<Rightarrow> bplus_non_leaf \<Rightarrow> bplus_non_leaf \<Rightarrow> nat \<Rightarrow> ptr list \<Rightarrow> int list \<Rightarrow> bool" where
  "split_done s s' a b na nb k cs ks \<longleftrightarrow>
     (\<exists>na' nb'. s' = s\<lparr>nodes := (adopt a 0 (take k cs) (adopt b 0 (drop k cs) (nodes s)))
                                 (a \<mapsto> NonLeaf na', b \<mapsto> NonLeaf nb')\<rparr> \<and>
        refilled na na' (take k cs) (take (k - 1) ks) \<and> refilled nb nb' (drop k cs) (drop k ks))"

lemma take_part: "take n xs = ys \<Longrightarrow> i + j \<le> n \<Longrightarrow> take j (drop i xs) = take j (drop i ys)"
  by (metis add.commute take_drop min.absorb1 take_take)

lemma split_ready_shape:
  assumes "split_ready N p q n m csl c csr ksl ksr l r"
  shows "N p = Some (NonLeaf n)" "N q = Some (NonLeaf m)" "p \<noteq> q" "length (nkey n) = 49"
    "length (sub_ptr n) = 50" "length (nkey m) = 49" "length (sub_ptr m) = 50"
    "length csl = length ksl" "length csr = length ksr" "length ksl + length ksr \<le> 49"
    "non_leaf_shape n" "non_leaf_shape m"
  using assms by (auto simp: split_ready_def non_leaf_shape_def)

lemma split_ready_distinct:
  assumes "split_ready N p q n m csl c csr ksl ksr l r"
  shows "distinct (csl @ l # r # csr)" "p \<notin> set (csl @ l # r # csr)" "q \<notin> set (csl @ l # r # csr)"
    "\<And>x. x \<in> set (csl @ l # r # csr) \<Longrightarrow> N x \<noteq> None" "c = l \<or> c = r"
    "\<exists>nd. N l = Some nd" "\<exists>nd. N r = Some nd"
  using assms by (auto simp: split_ready_def)

lemma split_ready_keys:
  assumes "split_ready N p q n m csl c csr ksl ksr l r"
  shows "i < length ksl + length ksr \<Longrightarrow> nkey n ! i = (ksl @ ksr) ! i"
    "i + j \<le> length ksl + length ksr \<Longrightarrow> take j (drop i (nkey n)) = take j (drop i (ksl @ ksr))"
proof -
  have *: "take (length ksl + length ksr) (nkey n) = ksl @ ksr"
    using assms by (simp add: split_ready_def)
  show "i < length ksl + length ksr \<Longrightarrow> nkey n ! i = (ksl @ ksr) ! i"
    by (simp flip: *)
  show "i + j \<le> length ksl + length ksr \<Longrightarrow> take j (drop i (nkey n)) = take j (drop i (ksl @ ksr))"
    by (rule take_part [OF *])
qed

lemma split_ready_subs:
  assumes "split_ready N p q n m csl c csr ksl ksr l r"
  shows "i \<le> length csl + length csr \<Longrightarrow> sub_ptr n ! i = Some ((csl @ c # csr) ! i)"
    "i + j \<le> Suc (length csl + length csr) \<Longrightarrow> take j (drop i (sub_ptr n)) = map Some (take j (drop i (csl @ c # csr)))"
proof -
  have *: "take (Suc (length csl + length csr)) (sub_ptr n) = map Some (csl @ c # csr)"
    using assms unfolding split_ready_def by blast
  show "sub_ptr n ! i = Some ((csl @ c # csr) ! i)" if "i \<le> length csl + length csr"
  proof -
    have "sub_ptr n ! i = take (Suc (length csl + length csr)) (sub_ptr n) ! i" using that by simp
    also have "\<dots> = map Some (csl @ c # csr) ! i" unfolding * by simp
    finally show ?thesis using that by (subst (asm) nth_map) auto
  qed
  show "i + j \<le> Suc (length csl + length csr) \<Longrightarrow> take j (drop i (sub_ptr n)) = map Some (take j (drop i (csl @ c # csr)))"
    unfolding take_part [OF *] by (simp only: take_map drop_map)
qed

lemma split_ready_stay:
  assumes "split_ready N p q n m csl c csr ksl ksr l r"
  shows "x \<in> set csl \<Longrightarrow> map_option (reparent (Some p) (int (place x csl) - 1)) (N x) = N x"
    "x \<in> set csr \<Longrightarrow> map_option (reparent (Some p) (int (length csl) + int (place x csr))) (N x) = N x"
  using adopt_id_at [of p 0 csl N x] adopt_id_at [of p "int (length csl) + 1" csr N x] assms
  by (auto simp: split_ready_def)

lemma split_doneI:
  assumes "nodes s' = (adopt a 0 cs1 (adopt b 0 cs2 (nodes s)))(a \<mapsto> NonLeaf na', b \<mapsto> NonLeaf nb')"
    "refilled na na' cs1 ks1" "refilled nb nb' cs2 ks2" "s' = s\<lparr>nodes := nodes s'\<rparr>"
    "cs = cs1 @ cs2" "ks1 = take (k - 1) ks" "ks2 = drop k ks" "k = length cs1"
  shows "split_done s s' a b na nb k cs ks"
proof -
  have "take k cs = cs1" "drop k cs = cs2" using assms by auto
  then show ?thesis
    unfolding split_done_def by (intro exI [of _ na'] exI [of _ nb']) (use assms in simp)
qed

lemma split_right1_spec:
  assumes r: "split_ready (nodes s1) p q n m csl c csr ksl ksr l r"
    and s: "nodes s p = Some (NonLeaf n0)" "count n0 = int (Suc (length csl + length csr))"
    and add: "list_add (Link q) (Link p) s = Some s1"
    and split: "length csl = (Suc (Suc (length csl + length csr))) div 2" "2 \<le> length csl"
  shows "\<exists>s'. non_leaf_split_right1 p q l r k (int (length csl)) s = Some ((ksl @ k # ksr) ! (length csl - 1), s') \<and>
    split_done s1 s' p q n m (length csl) (csl @ l # r # csr) (ksl @ k # ksr)"
proof -
  let ?a = "length csl" and ?b = "length csr"
  note pq = split_ready_shape [OF r] and di = split_ready_distinct [OF r]
  obtain nl nr where lr: "nodes s1 l = Some nl" "nodes s1 r = Some nr" using di(6,7) by auto
  let ?n = "n\<lparr>count := int ?a\<rparr>"
  let ?m1 = "m\<lparr>nkey := (nkey m)[0 := k]\<rparr>"
  let ?m2 = "?m1\<lparr>sub_ptr := (sub_ptr m)[0 := Some l]\<rparr>"
  let ?m3 = "?m1\<lparr>sub_ptr := ((sub_ptr m)[0 := Some l])[1 := Some r]\<rparr>"
  let ?m4 = "?m3\<lparr>nkey := overwrite (nkey ?m3) 1 ksr, sub_ptr := overwrite (sub_ptr ?m3) (Suc 1) (map Some csr)\<rparr>"
  let ?m5 = "?m4\<lparr>count := int (Suc (Suc ?b))\<rparr>"
  define s2 where "s2 = s1\<lparr>nodes := (nodes s1)(p \<mapsto> NonLeaf ?n)\<rparr>"
  define s3 where "s3 = s2\<lparr>nodes := (nodes s2)(q \<mapsto> NonLeaf ?m1)\<rparr>"
  define s4 where "s4 = s3\<lparr>nodes := (nodes s3)(q \<mapsto> NonLeaf ?m2, l \<mapsto> reparent (Some q) (-1) nl)\<rparr>"
  define s5 where "s5 = s4\<lparr>nodes := (nodes s4)(q \<mapsto> NonLeaf ?m3, r \<mapsto> reparent (Some q) 0 nr)\<rparr>"
  define s6 where "s6 = s5\<lparr>nodes := (adopt q (int 1 + 1) csr (nodes s5))(q \<mapsto> NonLeaf ?m4)\<rparr>"
  define s7 where "s7 = s6\<lparr>nodes := (nodes s6)(q \<mapsto> NonLeaf ?m5)\<rparr>"
  note ss = s2_def s3_def s4_def s5_def s6_def s7_def
  have key: "get_nkey s1 p (int ?a - 1) = Some ((ksl @ k # ksr) ! (?a - 1))"
    using get_nkey_eq [OF pq(1), of "?a - 1"] split_ready_keys(1) [OF r, of "?a - 1"] pq(4,8,10) split(2)
    by (auto simp: of_nat_diff nth_append)
  have e2: "put_children p (int ?a) s1 = Some s2" unfolding s2_def by (rule put_children_eq [OF pq(1)])
  have e3: "put_nkey q 0 k s2 = Some s3" using put_nkey_eq [of s2 q m 0 k] pq by (simp add: ss)
  have e4: "attach q 0 (Some l) (-1) s3 = Some s4"
    using attach_eq [of s3 q ?m1 0 l nl "-1"] pq lr di by (simp add: ss)
  have e5: "attach q 1 (Some r) 0 s4 = Some s5"
    using attach_eq [of s4 q ?m2 1 r nr 0] pq lr di by (simp add: ss)
  have e6: "nl_split_right1_copy p q (int (Suc (?a + ?b))) (int ?a) (int 1) s5 = Some (int (1 + ?b), s6)"
    unfolding s6_def
  proof (rule nl_split_right1_copy_eq [where n = ?n])
    show "take ?b (drop (Suc ?a) (sub_ptr ?n)) = map Some csr" 
      using split_ready_subs(2) [OF r, of "Suc ?a" ?b] by simp
    show "take ?b (drop ?a (nkey ?n)) = ksr"
      using split_ready_keys(2) [OF r, of ?a ?b] pq by simp
    show "1 + ?b \<le> 49" using pq split by simp
  qed (use pq di in \<open>auto simp: ss\<close>)
  have e7: "put_children q (int (1 + ?b) + 1) s6 = Some s7"
    using put_children_eq [of s6 q ?m4 "int (1 + ?b) + 1"] by (simp add: ss add.commute)
  have sp: "c_div (int (Suc (?a + ?b)) + 1) 2 = int ?a"
    using split(1) by simp
  have run: "non_leaf_split_right1 p q l r k (int ?a) s = Some ((ksl @ k # ksr) ! (?a - 1), s7)"
    unfolding non_leaf_split_right1_def get_non_leaf_eq [OF s(1)] s(2) Let_def sp add bind.simps
    using e2 e3 e4 e5 e6 e7 key by simp
  have "nodes s7 = (adopt p 0 csl (adopt q 0 (l # r # csr) (nodes s1)))(p \<mapsto> NonLeaf ?n, q \<mapsto> NonLeaf ?m5)" (is "?L = ?R")
  proof
    show "?L x = ?R x" for x
      using split_ready_stay [OF r, of x] di lr pq(1-3) by (auto simp: ss adopt_at)
  qed
  moreover have "refilled n ?n csl (take (?a - 1) ksl)"
    using split_ready_subs(2) [OF r, of 0 ?a] split_ready_keys(2) [OF r, of 0 "?a - 1"] pq
    by (simp add: refilled_def non_leaf_shape_def)
  moreover have "refilled m ?m5 (l # r # csr) (k # ksr)"
    using pq split by (simp add: refilled_def non_leaf_shape_def overwrite_def take_Cons' upd_conv_take_nth_drop)
  ultimately have "split_done s1 s7 p q n m ?a (csl @ l # r # csr) (ksl @ k # ksr)"
    by (rule split_doneI) (simp_all add: ss pq(8))
  then show ?thesis using run by blast
qed

lemma adopt_at_None: "adopt p j cs N q = None \<longleftrightarrow> N q = None"
proof (induction cs arbitrary: j N)
  case (Cons c cs)
  then show ?case by (cases "q = c") auto
qed simp

lemma nl_split_right2_copy_eq:
  assumes nodes: "nodes s p = Some (NonLeaf n)" "nodes s q = Some (NonLeaf m)" "p \<noteq> q"
    and subs: "take (h + length csr) (drop (Suc i) (sub_ptr n)) = map Some (ys @ csr)" "length ys = h"
    and keys: "take (h + length csr) (drop i (nkey n)) = ksm @ ksr" "length ksm = h" "length ksr = length csr"
    and fit: "h + length csr < 49" and shape: "length (nkey m) = 49" "length (sub_ptr m) = 50"
    and di: "distinct (ys @ csr)" "p \<notin> set (ys @ csr)" "q \<notin> set (ys @ csr)"
      "\<And>c. c \<in> set (ys @ csr) \<Longrightarrow> nodes s c \<noteq> None"
  shows "nl_split_right2_copy p q (int (Suc (i + h + length csr))) (int h) (int i) 0 s =
    Some (if csr = [] then int h else int (Suc h + length csr),
      s\<lparr>nodes := (adopt q (int h + 2) csr (adopt q 1 ys (nodes s)))
         (q \<mapsto> NonLeaf (m\<lparr>nkey := overwrite (overwrite (nkey m) 0 ksm) (Suc h) ksr,
            sub_ptr := overwrite (overwrite (sub_ptr m) 1 (map Some ys)) (Suc (Suc h)) (map Some csr)\<rparr>))\<rparr>)"
proof -
  let ?m = "m\<lparr>nkey := overwrite (nkey m) 0 ksm, sub_ptr := overwrite (sub_ptr m) (Suc 0) (map Some ys)\<rparr>"
  define s2 where "s2 = s\<lparr>nodes := (adopt q (int 0 + 1) ys (nodes s))(q \<mapsto> NonLeaf ?m)\<rparr>"
  have front: "nl_split_right1_copy p q (int (Suc (i + length ys))) (int i) (int 0) s = Some (int (0 + length ys), s2)"
    unfolding s2_def
  proof (rule nl_split_right1_copy_eq [OF nodes])
    show "take (length ys) (drop (Suc i) (sub_ptr n)) = map Some ys"
      using take_part [OF subs(1), of 0 h] subs(2) by simp
    show "take (length ys) (drop i (nkey n)) = ksm"
      using take_part [OF keys(1), of 0 h] subs(2) keys(2) by simp
  qed (use subs(2) keys fit shape di in auto)
  have "nl_split_right2_copy p q (int (Suc (i + h + length csr))) (int h) (int i) 0 s =
      nl_split_right2_copy p q (int (Suc (i + h + length csr))) (int h) (int i + int h) (int h) s2"
    using nl_split_right2_front [of "int h" 0 "int h" "int i" "int (Suc (i + h + length csr))" p q s] front subs(2)
    by (simp add: add.commute add.left_commute)
  also have "\<dots> = Some (if csr = [] then int h else int (Suc h + length csr),
      s2\<lparr>nodes := (adopt q (int h + 2) csr (nodes s2))
         (q \<mapsto> NonLeaf (?m\<lparr>nkey := overwrite (nkey ?m) (Suc h) ksr,
            sub_ptr := overwrite (sub_ptr ?m) (Suc (Suc h)) (map Some csr)\<rparr>))\<rparr>)"
  proof (cases csr)
    case Nil
    then show ?thesis using keys(3) by (subst nl_split_right2_copy.simps) (simp add: s2_def)
  next
    case (Cons d ds)
    have p2: "nodes s2 p = Some (NonLeaf n)" "nodes s2 q = Some (NonLeaf ?m)"
      using nodes di by (auto simp: s2_def adopt_other)
    have "nl_split_right2_copy p q (int (Suc (i + h + length csr))) (int h) (int i + int h) (int h) s2 =
        nl_split_right1_copy p q (int (Suc ((i + h) + length csr))) (int (i + h)) (int (Suc h)) s2"
      using Cons nl_split_right2_plain [of "int h" "int h + 1"]
      by (subst nl_split_right2_copy.simps) (simp add: algebra_simps)
    also have "\<dots> = Some (int (Suc h + length csr), s2\<lparr>nodes := (adopt q (int (Suc h) + 1) csr (nodes s2))
         (q \<mapsto> NonLeaf (?m\<lparr>nkey := overwrite (nkey ?m) (Suc h) ksr,
            sub_ptr := overwrite (sub_ptr ?m) (Suc (Suc h)) (map Some csr)\<rparr>))\<rparr>)"
    proof (rule nl_split_right1_copy_eq [OF p2 nodes(3)])
      show "take (length csr) (drop (Suc (i + h)) (sub_ptr n)) = map Some csr"
        using take_part [OF subs(1), of h "length csr"] subs(2) by (simp add: add.commute)
      show "take (length csr) (drop (i + h) (nkey n)) = ksr"
        using take_part [OF keys(1), of h "length csr"] keys by (simp add: add.commute)
      show "nodes s2 x \<noteq> None" if "x \<in> set csr" for x
        using di(4) [of x] that by (simp add: s2_def adopt_at_None del: not_None_eq)
    qed (use subs(2) keys fit shape di Cons in auto)
    finally show ?thesis using Cons by simp
  qed
  finally show ?thesis using di(3) by (simp add: s2_def adopt_upd_other)
qed

lemma split_right2_copy:
  assumes r: "split_ready (nodes s) p q n m (csa @ csm) c csr (ksa @ ksm) ksr l r"
    and len: "length csa = length ksa" and a: "2 \<le> length csa" and y: "csm @ [c] = y # ys"
  shows "attach q 0 (Some y) (-1) s \<bind>
      nl_split_right2_copy p q (int (Suc (length csa + length csm + length csr))) (int (length csm)) (int (length csa)) 0 =
    Some (if csr = [] then int (length csm) else int (Suc (length csm) + length csr),
      s\<lparr>nodes := (adopt q (int (length csm) + 2) csr (adopt q 0 (csm @ [c]) (nodes s)))
         (q \<mapsto> NonLeaf (m\<lparr>nkey := overwrite (overwrite (nkey m) 0 ksm) (Suc (length csm)) ksr,
            sub_ptr := overwrite (overwrite (sub_ptr m) 0 (map Some (csm @ [c]))) (Suc (Suc (length csm))) (map Some csr)\<rparr>))\<rparr>)"
proof -
  let ?a = "length csa" and ?b = "length csr" and ?h = "length csm"
  note pq = split_ready_shape [OF r] and di = split_ready_distinct [OF r]
  have len2: "length ksm = ?h" using pq(8) len by simp
  have lys: "length ys = ?h" using arg_cong [OF y, of length] by simp
  have cs: "csm @ c # csr = y # ys @ csr" using arg_cong [OF y, of "\<lambda>xs. xs @ csr"] by simp
  have "distinct (csm @ [c])" "set (csm @ [c]) \<subseteq> set (csm @ [l, r])" "set (csm @ [c]) \<inter> set csr = {}"
    using di(1,5) by auto
  then have dys: "distinct (y # ys)" and mem: "set (y # ys) \<subseteq> set (csm @ [l, r])" and dis: "set (y # ys) \<inter> set csr = {}"
    unfolding y by auto
  have q: "q \<notin> set (y # ys @ csr)" "p \<notin> set (y # ys @ csr)"
    using di(2,3) mem by auto
  have ex: "nodes s x \<noteq> None" if "x \<in> set (y # ys @ csr)" for x
    by (rule di(4)) (use mem that in auto)
  let ?m1 = "m\<lparr>sub_ptr := (sub_ptr m)[0 := Some y]\<rparr>"
  obtain ny where ny: "nodes s y = Some ny" using ex [of y] by auto
  define s2 where "s2 = s\<lparr>nodes := (nodes s)(q \<mapsto> NonLeaf ?m1, y \<mapsto> reparent (Some q) (-1) ny)\<rparr>"
  have e2: "attach q 0 (Some y) (-1) s = Some s2"
    using attach_eq [OF pq(2), of 0 y ny "-1"] pq(7) q ny by (simp add: s2_def)
  have "nl_split_right2_copy p q (int (Suc (?a + ?h + ?b))) (int ?h) (int ?a) 0 s2 =
    Some (if csr = [] then int ?h else int (Suc ?h + ?b),
      s2\<lparr>nodes := (adopt q (int ?h + 2) csr (adopt q 1 ys (nodes s2)))
         (q \<mapsto> NonLeaf (?m1\<lparr>nkey := overwrite (overwrite (nkey ?m1) 0 ksm) (Suc ?h) ksr,
            sub_ptr := overwrite (overwrite (sub_ptr ?m1) 1 (map Some ys)) (Suc (Suc ?h)) (map Some csr)\<rparr>))\<rparr>)"
  proof (rule nl_split_right2_copy_eq [where n = n and m = ?m1])
    show "take (?h + ?b) (drop (Suc ?a) (sub_ptr n)) = map Some (ys @ csr)"
      using split_ready_subs(2) [OF r, of "Suc ?a" "?h + ?b"] cs lys by simp
    show "take (?h + ?b) (drop ?a (nkey n)) = ksm @ ksr"
      using split_ready_keys(2) [OF r, of ?a "?h + ?b"] len len2 pq(9) by simp
    show "?h + ?b < 49" using pq(8,9,10) len len2 a by simp
    show "distinct (ys @ csr)" using dys dis di(1) by auto
    show "nodes s2 x \<noteq> None" if "x \<in> set (ys @ csr)" for x
      using ex [of x] that by (auto simp: s2_def)
  qed (use pq q lys len2 in \<open>auto simp: s2_def\<close>)
  moreover have "overwrite ((sub_ptr m)[0 := Some y]) 1 (map Some ys) = overwrite (sub_ptr m) 0 (map Some (csm @ [c]))"
    using overwrite_upd [of 0 "map Some ys" "sub_ptr m" "Some y"] lys pq(7,8,10) len unfolding y by simp
  moreover have "(adopt q j csr (adopt q 1 ys (nodes s2)))(q \<mapsto> z) = (adopt q j csr (adopt q 0 (csm @ [c]) (nodes s)))(q \<mapsto> z)" for j z
  proof -
    have "adopt q 1 ys (nodes s2) = (adopt q 0 (y # ys) (nodes s))(q \<mapsto> NonLeaf ?m1)"
      using q ny by (simp add: s2_def fun_upd_twist [of q y] adopt_upd_other)
    then show ?thesis using q y by (simp add: adopt_upd_other)
  qed
  ultimately show ?thesis unfolding e2 by (simp add: s2_def)
qed

lemma take_one_drop: "i < length xs \<Longrightarrow> take (Suc 0) (drop i xs) = [xs ! i]"
  by (simp add: Cons_nth_drop_Suc [symmetric])

lemma split_right2_spec:
  assumes r: "split_ready (nodes s1) p q n m (csa @ csm) c csr (ksa @ ksm) ksr l r"
    and s: "nodes s p = Some (NonLeaf n0)" "count n0 = int (Suc (length csa + length csm + length csr))"
    and add: "list_add (Link q) (Link p) (s\<lparr>nodes := (nodes s)(p \<mapsto> NonLeaf (n0\<lparr>count := int (length csa)\<rparr>))\<rparr>) = Some s1"
    and split: "length csa = Suc (Suc (Suc (length csa + length csm + length csr)) div 2)"
    and len: "length csa = length ksa" and n: "count n = int (length csa)"
  shows "\<exists>s'. non_leaf_split_right2 p q l r k (int (length (csa @ csm))) s = Some ((ksa @ ksm @ k # ksr) ! (length csa - 1), s') \<and>
    split_done s1 s' p q n m (length csa) (csa @ csm @ l # r # csr) (ksa @ ksm @ k # ksr)"
proof -
  let ?a = "length csa" and ?b = "length csr" and ?h = "length csm"
  note pq = split_ready_shape [OF r] and di = split_ready_distinct [OF r]
  have a2: "2 \<le> ?a" and len2: "length ksm = ?h" using split pq(8) len by auto
  obtain y ys where y: "csm @ [c] = y # ys" by (cases "csm @ [c]") auto
  have cs: "csm @ c # csr = y # ys @ csr" using arg_cong [OF y, of "\<lambda>xs. xs @ csr"] by simp
  let ?K = "overwrite (overwrite (nkey m) 0 ksm) (Suc ?h) ksr"
  let ?S = "overwrite (overwrite (sub_ptr m) 0 (map Some (csm @ [c]))) (Suc (Suc ?h)) (map Some csr)"
  let ?m2 = "m\<lparr>nkey := ?K, sub_ptr := ?S\<rparr>"
  let ?m3 = "?m2\<lparr>count := int (?h + 2 + ?b)\<rparr>"
  let ?m4 = "?m3\<lparr>nkey := ?K[?h := k]\<rparr>"
  let ?m5 = "?m4\<lparr>sub_ptr := ?S[?h := Some l]\<rparr>"
  let ?m6 = "?m4\<lparr>sub_ptr := ?S[?h := Some l, Suc ?h := Some r]\<rparr>"
  define s3 where "s3 = s1\<lparr>nodes := (adopt q (int ?h + 2) csr (adopt q 0 (csm @ [c]) (nodes s1)))(q \<mapsto> NonLeaf ?m2)\<rparr>"
  define s4 where "s4 = s3\<lparr>nodes := (nodes s3)(q \<mapsto> NonLeaf ?m3)\<rparr>"
  define s5 where "s5 = s4\<lparr>nodes := (nodes s4)(q \<mapsto> NonLeaf ?m4)\<rparr>"
  have in5: "nodes s5 x \<noteq> None" if "x = l \<or> x = r" for x
  proof -
    have "nodes s1 x \<noteq> None" by (rule di(4)) (use that in auto)
    then show ?thesis by (simp add: s3_def s4_def s5_def adopt_at_None del: not_None_eq)
  qed
  obtain nl nr where lr: "nodes s5 l = Some nl" "nodes s5 r = Some nr" using in5 [of l] in5 [of r] by auto
  define s6 where "s6 = s5\<lparr>nodes := (nodes s5)(q \<mapsto> NonLeaf ?m5, l \<mapsto> reparent (Some q) (int ?h - 1) nl)\<rparr>"
  define s7 where "s7 = s6\<lparr>nodes := (nodes s6)(q \<mapsto> NonLeaf ?m6, r \<mapsto> reparent (Some q) (int ?h) nr)\<rparr>"
  note ss = s3_def s4_def s5_def s6_def s7_def
  have fit: "?h + 2 + ?b \<le> 49" using split pq(8-10) len len2 by simp
  have S: "length ?S = 50" "length ?K = 49" using fit pq(6,7,9) len2 by simp_all
  have spl: "c_div (int (Suc (?a + ?h + ?b)) + 1) 2 = int (?a - 1)"
    using arg_cong [OF split, of int] by (simp add: zdiv_int)
  have key: "get_nkey s1 p (int (?a - 1)) = Some ((ksa @ ksm @ k # ksr) ! (?a - 1))"
    using get_nkey_eq [OF pq(1), of "?a - 1"] split_ready_keys(1) [OF r, of "?a - 1"] pq(4,8,10) len a2
    by (auto simp: nth_append)
  have sub: "get_sub s1 p (int (?a - 1) + 1) = Some (Some y)"
    using get_sub_eq [OF pq(1), of ?a] split_ready_subs(1) [OF r, of ?a] pq(5,10) cs a2 len len2
    by (simp add: nth_append of_nat_diff)
  have e4: "put_children q (int (?h + 2 + ?b)) s3 = Some s4"
    using put_children_eq [of s3 q ?m2] by (simp add: s3_def s4_def)
  have e5: "put_nkey q (int ?h) k s4 = Some s5"
    using put_nkey_eq [of s4 q ?m3 ?h k] fit S by (simp add: s4_def s5_def)
  have e6: "attach q (int ?h) (Some l) (int ?h - 1) s5 = Some s6"
    using attach_eq [of s5 q ?m4 ?h l nl] lr fit S di(3) by (simp add: s5_def s6_def)
  have e7: "attach q (int ?h + 1) (Some r) (int ?h) s6 = Some s7"
    using attach_eq [of s6 q ?m5 "Suc ?h" r nr] lr fit S di(1,3) by (simp add: s6_def s7_def add.commute)
  have hole: "int (length (csa @ csm)) - int (?a - 1) - 1 = int ?h" "int (?a - 1) + 1 = int ?a"
    using a2 by auto
  have copy: "(attach q 0 (Some y) (- 1) s1 \<bind> (\<lambda>s. nl_split_right2_copy p q (int (Suc (?a + ?h + ?b))) (int ?h) (int ?a) 0 s \<bind> F)) =
      F (if csr = [] then int ?h else int (Suc ?h + ?b), s3)" for F :: "int \<times> heap \<Rightarrow> (int \<times> heap) option"
    using split_right2_copy [OF r len a2 y, folded s3_def] by (simp add: bind_assoc flip: Option.bind_assoc)
  have cnt: "(if csr = [] then int ?h else int (Suc ?h + ?b)) > int ?h \<longleftrightarrow> csr \<noteq> []" by simp
  have run: "non_leaf_split_right2 p q l r k (int (length (csa @ csm))) s = Some ((ksa @ ksm @ k # ksr) ! (?a - 1), s7)"
    unfolding non_leaf_split_right2_def get_non_leaf_eq [OF s(1)] s(2) Let_def spl hole bind.simps
      put_children_eq [OF s(1)] add key sub [unfolded hole] copy
    using e4 e5 e6 e7 by (auto simp: algebra_simps)
  have "nodes s7 = (adopt p 0 csa (adopt q 0 (csm @ l # r # csr) (nodes s1)))(p \<mapsto> NonLeaf n, q \<mapsto> NonLeaf ?m6)" (is "?L = ?R")
  proof
    show "?L x = ?R x" for x
      using split_ready_stay [OF r, of x] di lr pq(1-3) by (auto simp: ss adopt_at place_append ac_simps)
  qed
  moreover have "refilled n n csa (take (?a - 1) ksa)"
    using split_ready_subs(2) [OF r, of 0 ?a] split_ready_keys(2) [OF r, of 0 "?a - 1"] pq len n
    by (simp add: refilled_def)
  moreover have "refilled m ?m6 (csm @ l # r # csr) (ksm @ k # ksr)"
    using pq(6,7,9,12) fit len2 S
    by (simp add: refilled_def non_leaf_shape_def overwrite_def list_update_append take_Cons' take_one_drop)
  ultimately have "split_done s1 s7 p q n m ?a (csa @ csm @ l # r # csr) (ksa @ ksm @ k # ksr)"
    by (rule split_doneI) (simp_all add: ss len)
  then show ?thesis using run by blast
qed


text \<open>The middle of \<^verbatim>\<open>non_leaf_split_left\<close>: the last key of the left node and the first child of the right one.\<close>

lemma split_left_middle:
  assumes r: "split_ready (nodes s1) p q n m csl c csr ksl ksr l r"
    and sp: "length csl < sp" "2 \<le> sp" "sp \<le> length csl + length csr"
    and ks: "ks = ksl @ k # ksr" and cs: "cs = csl @ l # r # csr"
    and m4: "m4 = m\<lparr>sub_ptr := overwrite (sub_ptr m) 0 (map Some (take (Suc sp) cs)), count := int sp,
      nkey := overwrite (nkey m) 0 (take (if length csl < sp - 1 then sp else sp - 1) ks)\<rparr>"
    and s4: "nodes s4 = (adopt q 0 (take (Suc sp) cs) (nodes s1))(q \<mapsto> NonLeaf m4)"
    and j: "j = (if length csl < sp - 1 then sp else sp - 1)"
  shows "(if int (length csl) = int sp - 1 then do {
            s \<leftarrow> put_nkey q (int (length csl)) k s4;
            s \<leftarrow> attach q (int (length csl)) (Some l) (int j - 1) s;
            s \<leftarrow> put_sub p 0 (Some r) s;
            Some (k, s) }
          else do {
            c \<leftarrow> get_sub s4 p (int sp - 1);
            s \<leftarrow> put_sub p 0 c s4;
            k \<leftarrow> get_nkey s p (int sp - 2);
            Some (k, s) }) =
    Some (ks ! (sp - 1), s4\<lparr>nodes := (nodes s4)
      (q \<mapsto> NonLeaf (m4\<lparr>nkey := overwrite (nkey m) 0 (take sp ks)\<rparr>),
       p \<mapsto> NonLeaf (n\<lparr>sub_ptr := (sub_ptr n)[0 := Some (cs ! sp)]\<rparr>))\<rparr>)"
proof -
  note pq = split_ready_shape [OF r] and di = split_ready_distinct [OF r]
  have p4: "nodes s4 p = Some (NonLeaf n)" "nodes s4 q = Some (NonLeaf m4)"
  proof -
    have "p \<notin> set (take (Suc sp) cs)" using di(2) unfolding cs [symmetric] by (blast dest: in_set_takeD)
    then show "nodes s4 p = Some (NonLeaf n)" "nodes s4 q = Some (NonLeaf m4)"
      using pq(1,3) by (auto simp: s4 adopt_other)
  qed
  show ?thesis
  proof (cases "length csl = sp - 1")
    case True
    obtain nl where nl: "nodes s1 l = Some nl" using di(6) by auto
    define m5 where "m5 = m4\<lparr>nkey := overwrite (nkey m) 0 (take sp ks)\<rparr>"
    have tk: "take sp ks = take (sp - 1) ks @ [k]"
      using True pq(8) sp ks by (cases sp) auto
    have "drop (sp - 1) (nkey m) = nkey m ! (sp - 1) # drop sp (nkey m)"
      using Cons_nth_drop_Suc [of "sp - 1" "nkey m"] sp pq(6,8,9,10) by simp
    then have K: "(nkey m4)[sp - 1 := k] = overwrite (nkey m) 0 (take sp ks)"
      using True pq(8) sp unfolding m4 tk ks by (simp add: overwrite_def list_update_append)
    have S: "(sub_ptr m4)[sp - 1 := Some l] = sub_ptr m4"
      using True sp unfolding m4 cs by (cases sp) (auto simp: overwrite_def list_update_append)
    have "take (Suc sp) cs = csl @ [l, r]" using True sp unfolding cs by (cases sp) auto
    then have at: "nodes s4 l = Some (reparent (Some q) (int sp - 2) nl)"
      using nl di(1,3) True sp by (simp add: s4 adopt_at place_append of_nat_diff)
    define s5 where "s5 = s4\<lparr>nodes := (nodes s4)(q \<mapsto> NonLeaf m5)\<rparr>"
    have "put_nkey q (int (length csl)) k s4 = Some s5"
      using put_nkey_eq [OF p4(2), of "sp - 1" k, unfolded K] True sp pq(6,8-10) by (simp add: s5_def m5_def m4 ks)
    moreover have "attach q (int (length csl)) (Some l) (int (sp - 1) - 1) s5 = Some s5"
    proof -
      have q5: "nodes s5 q = Some (NonLeaf m5)" "nodes s5 l = Some (reparent (Some q) (int sp - 2) nl)"
        using at di(3) by (auto simp: s5_def)
      have same: "m5\<lparr>sub_ptr := (sub_ptr m5)[sp - 1 := Some l]\<rparr> = m5" using S by (simp add: m5_def m4)
      have len: "sp - 1 < length (sub_ptr m5)" using sp pq(7-10) by (simp add: m5_def m4)
      have i: "int (sp - 1) - 1 = int sp - 2" "l \<noteq> q" using sp di(3) by auto
      show ?thesis
        unfolding True attach_eq [OF q5(1) len i(2) q5(2)] same i by (simp add: fun_upd_idem q5)
    qed
    moreover have "put_sub p 0 (Some r) s5 = Some (s5\<lparr>nodes := (nodes s5)(p \<mapsto> NonLeaf (n\<lparr>sub_ptr := (sub_ptr n)[0 := Some r]\<rparr>))\<rparr>)"
      using put_sub_eq [of s5 p n 0] p4 pq(3,5) by (simp add: s5_def)
    moreover have "cs ! sp = r" "ks ! (sp - 1) = k" using True sp pq(8) unfolding cs ks by (cases sp; simp add: nth_append)+
    ultimately show ?thesis using True sp by (simp add: j s5_def m5_def)
  next
    case False
    then have f: "length csl < sp - 1" using sp by simp
    define d where "d = sp - 2 - length csl"
    have d: "sp = length csl + Suc (Suc d)" "sp - 1 = length csl + Suc d" "sp - 2 = length csl + d"
      using f by (simp_all add: d_def)
    have x: "(csl @ c # csr) ! (sp - 1) = cs ! sp"
      unfolding cs d(2) by (subst d(1)) (simp only: nth_append_length_plus nth_Cons_Suc)
    have key: "nkey n ! (sp - 2) = ks ! (sp - 1)"
      using split_ready_keys(1) [OF r, of "sp - 2"] nth_append_length_plus [of ksl "k # ksr" "Suc d"] sp(3) pq(8,9) unfolding ks d by simp
    have i: "int sp - 1 = int (sp - 1)" "int sp - 2 = int (sp - 2)" using sp by auto
    have "get_sub s4 p (int sp - 1) = Some (Some (cs ! sp))"
      using get_sub_eq [OF p4(1), of "sp - 1"] split_ready_subs(1) [OF r, of "sp - 1"] x sp pq(5,8,9,10) unfolding i by simp
    moreover have "put_sub p 0 (Some (cs ! sp)) s4 = Some (s4\<lparr>nodes := (nodes s4)(p \<mapsto> NonLeaf (n\<lparr>sub_ptr := (sub_ptr n)[0 := Some (cs ! sp)]\<rparr>))\<rparr>)"
      using put_sub_eq [OF p4(1), of 0] pq(5) by simp
    moreover have "get_nkey (s4\<lparr>nodes := (nodes s4)(p \<mapsto> NonLeaf (n\<lparr>sub_ptr := (sub_ptr n)[0 := Some (cs ! sp)]\<rparr>))\<rparr>) p (int sp - 2) = Some (ks ! (sp - 1))"
      using get_nkey_eq [of "s4\<lparr>nodes := (nodes s4)(p \<mapsto> NonLeaf (n\<lparr>sub_ptr := (sub_ptr n)[0 := Some (cs ! sp)]\<rparr>))\<rparr>" p _ "sp - 2"] key sp pq(4,8,9,10) unfolding i by simp
    moreover have "m4\<lparr>nkey := overwrite (nkey m) 0 (take sp ks)\<rparr> = m4" using f unfolding m4 by simp
    moreover have "int (length csl) \<noteq> int sp - 1" using f by linarith
    ultimately show ?thesis using p4(2) by (simp add: fun_upd_idem)
  qed
qed

lemma split_left_fill:
  assumes r: "split_ready (nodes s1) p q n m csl c csr ksl ksr l r"
    and sp: "length csl < sp" "2 \<le> sp" "sp \<le> length csl + length csr"
    and ks: "ks = ksl @ k # ksr" and cs: "cs = csl @ l # r # csr"
    and j: "j = (if length csl < sp - 1 then sp else sp - 1)"
  shows "\<exists>s2 s3 s4. nl_split_left_subs p q l r (int (length csl)) (int sp) 0 0 s1 = Some s2 \<and>
    put_children q (int sp) s2 = Some s3 \<and>
    nl_split_left_keys p q k (int (length csl)) (int sp) 0 0 s3 = Some (int j, s4) \<and>
    s4 = s1\<lparr>nodes := (adopt q 0 (take (Suc sp) cs) (nodes s1))
      (q \<mapsto> NonLeaf (m\<lparr>sub_ptr := overwrite (sub_ptr m) 0 (map Some (take (Suc sp) cs)), count := int sp,
        nkey := overwrite (nkey m) 0 (take j ks)\<rparr>))\<rparr>"
proof -
  let ?a = "length csl" and ?b = "length csr"
  note pq = split_ready_shape [OF r] and di = split_ready_distinct [OF r]
  let ?D = "take (Suc sp) cs"
  have lc: "length cs = ?a + ?b + 2" "length ks = Suc (?a + ?b)" using cs ks pq(8,9) by auto
  have D: "left_subs (csl @ c # csr) l r ?a sp 0 0 = ?D"
    using left_subs_eq [of csl sp csr c l r] sp unfolding cs by simp
  have K: "left_keys (ksl @ ksr) k ?a sp 0 0 = take j ks"
    using left_keys_eq [of ksl sp ksr k] sp pq(8,9) unfolding ks j by simp
  have dis: "distinct ?D" "set ?D \<subseteq> set cs" "p \<notin> set cs" "q \<notin> set cs"
    using di(1,2,3) unfolding cs [symmetric] by (auto dest: in_set_takeD)
  let ?m2 = "m\<lparr>sub_ptr := overwrite (sub_ptr m) 0 (map Some ?D)\<rparr>"
  let ?m3 = "?m2\<lparr>count := int sp\<rparr>"
  define s2 where "s2 = s1\<lparr>nodes := (adopt q (int 0) ?D (nodes s1))(q \<mapsto> NonLeaf ?m2)\<rparr>"
  define s3 where "s3 = s2\<lparr>nodes := (nodes s2)(q \<mapsto> NonLeaf ?m3)\<rparr>"
  define s4 where "s4 = s3\<lparr>nodes := (nodes s3)(q \<mapsto> NonLeaf (?m3\<lparr>nkey := overwrite (nkey ?m3) 0 (take j ks)\<rparr>))\<rparr>"
  have "nl_split_left_subs p q l r (int ?a) (int sp) (int 0) (int 0) s1 = Some s2"
    unfolding s2_def
  proof (rule nl_split_left_subs_eq [OF pq(1,2,3) _ _ _ D [symmetric]])
    show "take (length (csl @ c # csr)) (sub_ptr n) = map Some (csl @ c # csr)"
      using split_ready_subs(2) [OF r, of 0 "length (csl @ c # csr)"] by simp
    show "nodes s1 x \<noteq> None" if "x \<in> set ?D" for x
      using di(4) [of x] that dis(2) unfolding cs [symmetric] by auto
  qed (use sp lc pq(5,7-10) dis in auto)
  moreover have "put_children q (int sp) s2 = Some s3"
    using put_children_eq [of s2 q ?m2 "int sp"] by (simp add: s2_def s3_def)
  moreover have "nl_split_left_keys p q k (int ?a) (int sp) (int 0) (int 0) s3 = Some (int (0 + length (take j ks)), s4)"
    unfolding s4_def
  proof (rule nl_split_left_keys_eq [where ks = "ksl @ ksr" and m = ?m3])
    show "take (length (ksl @ ksr)) (nkey n) = ksl @ ksr"
      using split_ready_keys(2) [OF r, of 0 "length (ksl @ ksr)"] by simp
    show "nodes s3 p = Some (NonLeaf n)"
      using pq(1,3) adopt_other [of p ?D q 0 "nodes s1"] dis(2,3) by (auto simp: s2_def s3_def)
  qed (use sp lc pq(3,4,6,8-10) K j in \<open>auto simp: s3_def\<close>)
  moreover have "length (take j ks) = j" using lc sp j by simp
  moreover have "s4 = s1\<lparr>nodes := (adopt q 0 ?D (nodes s1))
      (q \<mapsto> NonLeaf (m\<lparr>sub_ptr := overwrite (sub_ptr m) 0 (map Some ?D), count := int sp, nkey := overwrite (nkey m) 0 (take j ks)\<rparr>))\<rparr>"
    by (simp add: s2_def s3_def s4_def)
  ultimately show ?thesis by auto
qed

lemma split_left_shift:
  assumes nd: "nodes s5 p = Some (NonLeaf (n\<lparr>sub_ptr := (sub_ptr n)[0 := Some x]\<rparr>))" "nodes s5 x \<noteq> None"
    and subs: "take (length ys) (drop sp (sub_ptr n)) = map Some ys" and keys: "take (length ys) (drop (sp - 1) (nkey n)) = ks"
    and len: "length ks = length ys" "ord = sp + length ys" "2 \<le> sp" "ys \<noteq> []" "ord \<le> 50" "length (nkey n) = 49" "length (sub_ptr n) = 50"
    and di: "distinct (x # ys)" "p \<notin> set (x # ys)" "\<And>y. y \<in> set ys \<Longrightarrow> nodes s5 y \<noteq> None"
  shows "\<exists>s6 s7 s8 c. sub_set_parent p 0 (Some p) s5 = Some s6 \<and> sub_set_idx p 0 (-1) s6 = Some s7 \<and>
    nl_shift_left p (int ord) (int sp - 1) 0 s7 = Some (int ord - 1, int ord - int sp, s8) \<and>
    get_sub s8 p (int ord - 1) = Some c \<and> put_sub p (int ord - int sp) c s8 = Some s8 \<and>
    put_children p (int ord - int sp + 1) s8 =
      Some (s5\<lparr>nodes := (adopt p 0 (x # ys) (nodes s5))
        (p \<mapsto> NonLeaf (n\<lparr>nkey := overwrite (nkey n) 0 ks,
              sub_ptr := overwrite (sub_ptr n) 0 (map Some (x # ys)), count := int (length (x # ys))\<rparr>))\<rparr>)"
proof -
  let ?n1 = "n\<lparr>sub_ptr := (sub_ptr n)[0 := Some x]\<rparr>"
  let ?S = "overwrite (sub_ptr n) 0 (map Some (x # ys))"
  let ?n2 = "n\<lparr>nkey := overwrite (nkey n) 0 ks, sub_ptr := ?S\<rparr>"
  obtain nx where nx: "nodes s5 x = Some nx" using nd(2) by auto
  define s6 where "s6 = s5\<lparr>nodes := (nodes s5)(x \<mapsto> set_parent (Some p) nx)\<rparr>"
  define s7 where "s7 = s5\<lparr>nodes := (nodes s5)(x \<mapsto> reparent (Some p) (-1) nx)\<rparr>"
  define s8 where "s8 = s5\<lparr>nodes := (adopt p 0 (x # ys) (nodes s5))(p \<mapsto> NonLeaf ?n2)\<rparr>"
  have xp: "x \<noteq> p" using di(2) by auto
  have e6: "sub_set_parent p 0 (Some p) s5 = Some s6"
    using sub_set_parent_eq [OF nd(1), of 0 x nx] nx len(7) by (simp add: s6_def)
  have e7: "sub_set_idx p 0 (-1) s6 = Some s7"
    using sub_set_idx_eq [of s6 p ?n1 0 x "set_parent (Some p) nx"] nd(1) len(7) xp by (simp add: s6_def s7_def reparent_def)
  have ov: "overwrite ((sub_ptr n)[0 := Some x]) (Suc 0) (map Some ys) = ?S"
    using overwrite_upd [of 0 "map Some ys" "sub_ptr n" "Some x"] len by simp
  have e8: "nl_shift_left p (int ord) (int (sp - 1)) (int 0) s7 = Some (int (sp - 1 + length ys), int (0 + length ys), s8)"
  proof -
    have "nl_shift_left p (int ord) (int (sp - 1)) (int 0) s7 = Some (int (sp - 1 + length ys), int (0 + length ys),
      s7\<lparr>nodes := (adopt p (int (Suc 0)) ys (nodes s7))
         (p \<mapsto> NonLeaf (?n1\<lparr>nkey := overwrite (nkey ?n1) 0 ks, sub_ptr := overwrite (sub_ptr ?n1) (Suc 0) (map Some ys)\<rparr>))\<rparr>)"
    proof (rule nl_shift_left_eq)
      show "take (length ys) (drop (Suc (sp - 1)) (sub_ptr ?n1)) = map Some ys" using subs len(3) by simp
      show "nodes s7 y \<noteq> None" if "y \<in> set ys" for y using di(3) [OF that] by (auto simp: s7_def)
    qed (use nd xp len keys di in \<open>auto simp: s7_def\<close>)
    then show ?thesis using nx di by (simp add: ov s8_def s7_def)
  qed
  have i: "int (sp - 1) = int sp - 1" "int (sp - 1 + length ys) = int ord - 1" "int (0 + length ys) = int ord - int sp"
    using len(2,3) by auto
  have S: "?S ! (ord - 1) = ?S ! length ys"
  proof -
    have o: "ord - 1 = sp + (length ys - 1)" using len(2,4) by (cases ys) auto
    have "sp + (length ys - 1) < 50" "\<not> sp + (length ys - 1) < length (x # ys)"
      using len(2,3,5) len(4) by (auto simp: neq_Nil_conv)
    then have "?S ! (ord - 1) = sub_ptr n ! (sp + (length ys - 1))"
      unfolding o using len(2,3,5,7) by (subst overwrite_nth) (auto simp del: length_Cons)
    also have "\<dots> = take (length ys) (drop sp (sub_ptr n)) ! (length ys - 1)"
      using len by simp
    also have "\<dots> = ?S ! length ys"
      unfolding subs using len by (subst overwrite_nth) auto
    finally show ?thesis .
  qed
  have n8: "nodes s8 p = Some (NonLeaf ?n2)" by (simp add: s8_def)
  have "get_sub s8 p (int ord - 1) = Some (?S ! length ys)"
    using get_sub_eq [OF n8, of "ord - 1"] len S by (simp add: of_nat_diff)
  moreover have "put_sub p (int ord - int sp) (?S ! length ys) s8 = Some s8"
    using put_sub_eq [OF n8, of "length ys" "?S ! length ys"] len by (simp add: n8 fun_upd_idem)
  moreover have "put_children p (int ord - int sp + 1) s8 =
      Some (s5\<lparr>nodes := (adopt p 0 (x # ys) (nodes s5))
        (p \<mapsto> NonLeaf (n\<lparr>nkey := overwrite (nkey n) 0 ks, sub_ptr := ?S, count := int (length (x # ys))\<rparr>))\<rparr>)"
    using put_children_eq [OF n8] len by (simp add: s8_def add.commute)
  moreover have "nl_shift_left p (int ord) (int sp - 1) 0 s7 = Some (int ord - 1, int ord - int sp, s8)"
    using e8 unfolding i by simp
  ultimately show ?thesis using e6 e7 by blast
qed

lemma split_left_spec:
  assumes r: "split_ready (nodes s1) p q n m csl c csr ksl ksr l r"
    and s: "nodes s p = Some (NonLeaf n0)" "count n0 = int (Suc (length csl + length csr))"
    and add: "list_add_between (Link q) (prev (link n0)) (Link p) s = Some s1"
    and sp: "sp = Suc (Suc (length csl + length csr)) div 2" "length csl < sp" "2 \<le> sp" "sp \<le> length csl + length csr"
    and ks: "ks = ksl @ k # ksr" and cs: "cs = csl @ l # r # csr"
  shows "\<exists>s'. non_leaf_split_left p q l r k (int (length csl)) s = Some (ks ! (sp - 1), s') \<and>
    split_done s1 s' q p m n sp cs ks"
proof -
  let ?a = "length csl" and ?b = "length csr" and ?ord = "Suc (length csl + length csr)"
  note pq = split_ready_shape [OF r] and di = split_ready_distinct [OF r]
  let ?D = "take (Suc sp) cs" and ?Y = "drop (Suc sp) cs" and ?x = "cs ! sp"
  define j where "j = (if ?a < sp - 1 then sp else sp - 1)"
  have lc: "length cs = ?a + ?b + 2" "length ks = Suc (?a + ?b)" using cs ks pq(8,9) by auto
  have Y: "drop sp (csl @ c # csr) = ?Y" and KY: "drop (sp - 1) (ksl @ ksr) = drop sp ks"
    using sp pq(8) unfolding cs ks by (auto simp: drop_Cons')
  have dY: "drop sp cs = ?x # ?Y" using lc sp by (simp add: Cons_nth_drop_Suc)
  have tD: "?D = take sp cs @ [?x]" using lc sp by (simp add: take_Suc_conv_app_nth)
  have all: "cs = take sp cs @ ?x # ?Y" using dY append_take_drop_id [of sp cs] by simp
  have dis: "distinct (take sp cs @ ?x # ?Y)" "p \<notin> set (take sp cs @ ?x # ?Y)" "q \<notin> set (take sp cs @ ?x # ?Y)"
    unfolding all [symmetric] using di(1,2,3) unfolding cs by auto
  have ex: "nodes s1 y \<noteq> None" if "y \<in> set (?x # ?Y)" for y
    using di(4) [of y] that set_drop_subset [of sp cs] unfolding cs [symmetric] dY by blast
  define m4 where "m4 = m\<lparr>sub_ptr := overwrite (sub_ptr m) 0 (map Some ?D), count := int sp, nkey := overwrite (nkey m) 0 (take j ks)\<rparr>"
  obtain s2 s3 s4 where fill: "nl_split_left_subs p q l r (int ?a) (int sp) 0 0 s1 = Some s2"
      "put_children q (int sp) s2 = Some s3" "nl_split_left_keys p q k (int ?a) (int sp) 0 0 s3 = Some (int j, s4)"
    and s4: "s4 = s1\<lparr>nodes := (adopt q 0 ?D (nodes s1))(q \<mapsto> NonLeaf m4)\<rparr>"
    using split_left_fill [OF r sp(2-4) ks cs j_def] unfolding m4_def by blast
  let ?m5 = "m4\<lparr>nkey := overwrite (nkey m) 0 (take sp ks)\<rparr>"
  define s5 where "s5 = s4\<lparr>nodes := (nodes s4)(q \<mapsto> NonLeaf ?m5, p \<mapsto> NonLeaf (n\<lparr>sub_ptr := (sub_ptr n)[0 := Some ?x]\<rparr>))\<rparr>"
  note mid = split_left_middle [OF r sp(2-4) ks cs m4_def [unfolded j_def] _ j_def, of s4, folded s5_def]
  let ?n3 = "n\<lparr>nkey := overwrite (nkey n) 0 (drop sp ks), sub_ptr := overwrite (sub_ptr n) 0 (map Some (?x # ?Y)), count := int (length (?x # ?Y))\<rparr>"
  have n5: "nodes s5 p = Some (NonLeaf (n\<lparr>sub_ptr := (sub_ptr n)[0 := Some ?x]\<rparr>))" by (simp add: s5_def)
  have ex5: "nodes s5 y \<noteq> None" if "y \<in> set (?x # ?Y)" for y
    using ex [OF that] by (simp add: s5_def s4 adopt_at_None del: not_None_eq)
  have "\<exists>s6 s7 s8 c. sub_set_parent p 0 (Some p) s5 = Some s6 \<and> sub_set_idx p 0 (-1) s6 = Some s7 \<and>
    nl_shift_left p (int ?ord) (int sp - 1) 0 s7 = Some (int ?ord - 1, int ?ord - int sp, s8) \<and>
    get_sub s8 p (int ?ord - 1) = Some c \<and> put_sub p (int ?ord - int sp) c s8 = Some s8 \<and>
    put_children p (int ?ord - int sp + 1) s8 = Some (s5\<lparr>nodes := (adopt p 0 (?x # ?Y) (nodes s5))(p \<mapsto> NonLeaf ?n3)\<rparr>)"
  proof (rule split_left_shift [OF n5])
    show "take (length ?Y) (drop sp (sub_ptr n)) = map Some ?Y"
      using split_ready_subs(2) [OF r, of sp "length ?Y", unfolded Y] sp(2-4) lc by simp
    show "take (length ?Y) (drop (sp - 1) (nkey n)) = drop sp ks"
      using split_ready_keys(2) [OF r, of "sp - 1" "length ?Y", unfolded KY] sp(2-4) lc pq(8,9) by simp
  qed (use ex5 lc sp(2-4) pq(4,5,8-10) dis in auto)
  then obtain s6 s7 s8 c' where sh: "sub_set_parent p 0 (Some p) s5 = Some s6" "sub_set_idx p 0 (-1) s6 = Some s7"
    "nl_shift_left p (int ?ord) (int sp - 1) 0 s7 = Some (int ?ord - 1, int ?ord - int sp, s8)"
    "get_sub s8 p (int ?ord - 1) = Some c'" "put_sub p (int ?ord - int sp) c' s8 = Some s8"
    "put_children p (int ?ord - int sp + 1) s8 = Some (s5\<lparr>nodes := (adopt p 0 (?x # ?Y) (nodes s5))(p \<mapsto> NonLeaf ?n3)\<rparr>)"
    by blast
  define s9 where "s9 = s5\<lparr>nodes := (adopt p 0 (?x # ?Y) (nodes s5))(p \<mapsto> NonLeaf ?n3)\<rparr>"
  have spl: "c_div (int ?ord + 1) 2 = int sp" using sp(1) by simp
  have run: "non_leaf_split_left p q l r k (int ?a) s = Some (ks ! (sp - 1), s9)"
    unfolding non_leaf_split_left_def get_non_leaf_eq [OF s(1)] s(2) Let_def spl add bind.simps fill prod.case
    using mid sh by (simp add: s9_def s4)
  have "nodes s9 = (adopt q 0 (take sp cs) (adopt p 0 (?x # ?Y) (nodes s1)))(q \<mapsto> NonLeaf ?m5, p \<mapsto> NonLeaf ?n3)" (is "?L = ?R")
  proof
    show "?L y = ?R y" for y
      using dis pq(3) by (auto simp: s9_def s5_def s4 tD adopt_at place_append simp del: adopt.simps)
  qed
  moreover have "refilled m ?m5 (take sp cs) (take (sp - 1) ks)"
    using pq(6,7,12,8-10) lc sp(2-4) by (auto simp: refilled_def non_leaf_shape_def m4_def overwrite_def tD min_def)
  moreover have "refilled n ?n3 (?x # ?Y) (drop sp ks)"
    using pq(4,5,11,8-10) lc sp(2-4) by (simp add: refilled_def non_leaf_shape_def overwrite_def)
  ultimately have "split_done s1 s9 q p m n sp cs ks"
    by (rule split_doneI) (use all lc sp(2-4) in \<open>auto simp: s9_def s5_def s4\<close>)
  then show ?thesis using run by blast
qed

subsection \<open>Filling a non-leaf node\<close>

lemma overwrite_upd_back:
  "i + length ys < length xs \<Longrightarrow> overwrite (xs[i + length ys := y]) i ys = overwrite xs i (ys @ [y])"
  by (simp add: overwrite_def Cons_nth_drop_Suc [symmetric])

lemma reparent_set_idx:
  "reparent (Some p) i nd = nd \<Longrightarrow> set_parent_key_idx j nd = reparent (Some p) j nd"
  using map_set_idx_id [of p i "Some nd" j] by simp

lemma simple_insert_shift:
  assumes "nodes s p = Some (NonLeaf n)" "length (nkey n) = 49" "length (sub_ptr n) = 50"
    "take (length xs) (drop (Suc a) (sub_ptr n)) = map Some xs" "take (length xs) (drop a (nkey n)) = ks"
    "length ks = length xs" "a + length xs < 49" "distinct xs" "p \<notin> set xs"
    "\<And>c. c \<in> set xs \<Longrightarrow> nodes s c \<noteq> None" "adopt p (int a + 1) xs (nodes s) = nodes s"
  shows "for_down (int (a + length xs)) (int a)
      (\<lambda>i s. do {
         k \<leftarrow> get_nkey s p (i - 1);
         s \<leftarrow> put_nkey p i k s;
         c \<leftarrow> get_sub s p i;
         s \<leftarrow> put_sub p (i + 1) c s;
         sub_set_idx p (i + 1) i s }) s =
    Some (s\<lparr>nodes := (adopt p (int a + 2) xs (nodes s))
      (p \<mapsto> NonLeaf (n\<lparr>nkey := overwrite (nkey n) (Suc a) ks,
                        sub_ptr := overwrite (sub_ptr n) (Suc (Suc a)) (map Some xs)\<rparr>))\<rparr>)"
  (is "for_down _ _ ?body _ = _")
  using assms
proof (induction xs arbitrary: s n ks rule: rev_induct)
  case Nil
  then show ?case by (subst for_down.simps) (simp add: fun_upd_idem)
next
  case (snoc x xs)
  obtain kx ky where ks: "ks = kx @ [ky]" using snoc.prems(6) by (cases ks rule: rev_cases) auto
  let ?i = "Suc (a + length xs)"
  have i: "?i < 49" "length kx = length xs" using snoc.prems(6,7) ks by auto
  have sx: "sub_ptr n ! ?i = Some x" and xs: "take (length xs) (drop (Suc a) (sub_ptr n)) = map Some xs"
    using snoc.prems(3,4) i by (auto simp: take_Suc_conv_app_nth)
  have kk: "nkey n ! (a + length xs) = ky" and kx: "take (length xs) (drop a (nkey n)) = kx"
    using snoc.prems(2,5) i ks by (auto simp: take_Suc_conv_app_nth)
  obtain nx where nx: "nodes s x = Some nx" using snoc.prems(10) [of x] by auto
  let ?n1 = "n\<lparr>nkey := (nkey n)[?i := ky]\<rparr>"
  let ?n2 = "?n1\<lparr>sub_ptr := (sub_ptr n)[Suc ?i := Some x]\<rparr>"
  let ?s1 = "s\<lparr>nodes := (nodes s)(p \<mapsto> NonLeaf ?n1)\<rparr>"
  let ?s2 = "s\<lparr>nodes := (nodes s)(p \<mapsto> NonLeaf ?n2)\<rparr>"
  let ?s3 = "s\<lparr>nodes := (nodes s)(p \<mapsto> NonLeaf ?n2, x \<mapsto> reparent (Some p) (int ?i) nx)\<rparr>"
  have xp: "x \<noteq> p" "x \<notin> set xs" "distinct xs" "p \<notin> set xs" using snoc.prems(8,9) by auto
  have stay: "reparent (Some p) (int a + int (place x (xs @ [x]))) nx = nx"
    using adopt_id_at [OF snoc.prems(11,8), of x] nx by simp
  have rest: "adopt p (int a + 1) xs (nodes s) = nodes s"
  proof
    show "adopt p (int a + 1) xs (nodes s) c = nodes s c" for c
      using adopt_id_at [OF snoc.prems(11,8), of c] xp by (auto simp: adopt_at place_append)
  qed
  have "get_nkey s p (int (a + length xs)) = Some ky"
    using get_nkey_eq [OF snoc.prems(1), of "a + length xs"] i snoc.prems(2) kk by simp
  moreover have "put_nkey p (int ?i) ky s = Some ?s1"
    using put_nkey_eq [OF snoc.prems(1), of ?i ky] i snoc.prems(2) by simp
  moreover have "get_sub ?s1 p (int ?i) = Some (Some x)"
    using get_sub_eq [of ?s1 p ?n1 ?i] i snoc.prems(3) sx by simp
  moreover have "put_sub p (int (Suc ?i)) (Some x) ?s1 = Some ?s2"
    using put_sub_eq [of ?s1 p ?n1 "Suc ?i"] i snoc.prems(3) by simp
  moreover have "sub_set_idx p (int (Suc ?i)) (int ?i) ?s2 = Some ?s3"
    using sub_set_idx_eq [of ?s2 p ?n2 "Suc ?i" x nx "int ?i"] i snoc.prems(3) nx xp reparent_set_idx [OF stay] by simp
  ultimately have body: "?body (int ?i) s = Some ?s3" by (simp add: add.commute)
  have "for_down (int (a + length (xs @ [x]))) (int a) ?body s = for_down (int (a + length xs)) (int a) ?body ?s3"
    using body by (subst for_down.simps) simp
  also have "\<dots> = Some (?s3\<lparr>nodes := (adopt p (int a + 2) xs (nodes ?s3))
      (p \<mapsto> NonLeaf (?n2\<lparr>nkey := overwrite (nkey ?n2) (Suc a) kx,
                        sub_ptr := overwrite (sub_ptr ?n2) (Suc (Suc a)) (map Some xs)\<rparr>))\<rparr>)"
  proof (rule snoc.IH)
    show "adopt p (int a + 1) xs (nodes ?s3) = nodes ?s3"
      using rest xp by (simp add: adopt_upd_other)
  qed (use snoc.prems xp xs kx i nx in \<open>auto simp: drop_update_swap\<close>)
  also have "(adopt p (int a + 2) xs (nodes ?s3))(p \<mapsto> z) = (adopt p (int a + 2) (xs @ [x]) (nodes s))(p \<mapsto> z)" for z
    using xp nx by (simp add: adopt_upd_other adopt_append adopt_other algebra_simps)
  finally show ?case
    using overwrite_upd_back [of "Suc a" kx "nkey n" ky] overwrite_upd_back [of "Suc (Suc a)" "map Some xs" "sub_ptr n" "Some x"]
      i snoc.prems(2,3) by (simp add: ks fun_upd_def cong: if_cong)
qed

lemma non_leaf_simple_insert_spec:
  assumes n: "nodes s p = Some (NonLeaf n)" "non_leaf_shape n" "count n = int (Suc (length csl + length csr))"
    and subs: "take (Suc (length csl + length csr)) (sub_ptr n) = map Some (csl @ c # csr)"
    and keys: "take (length ksl + length ksr) (nkey n) = ksl @ ksr"
    and len: "length csl = length ksl" "length csr = length ksr" "length csl + length csr < 49"
    and di: "distinct (p # csl @ l # r # csr)" "\<forall>x \<in> set (csl @ l # r # csr). nodes s x \<noteq> None"
    and stay: "adopt p 0 csl (nodes s) = nodes s" "adopt p (int (length csl) + 1) csr (nodes s) = nodes s"
    and lr: "nodes s l = Some nl" "nodes s r = Some nr" "reparent (Some p) il nl = nl" "reparent (Some p) ir nr = nr"
  shows "\<exists>n'. non_leaf_simple_insert p l r k (int (length csl)) s =
      Some (s\<lparr>nodes := (adopt p 0 (csl @ l # r # csr) (nodes s))(p \<mapsto> NonLeaf n')\<rparr>) \<and>
    refilled n n' (csl @ l # r # csr) (ksl @ k # ksr)"
proof -
  let ?a = "length csl" and ?b = "length csr"
  have sh: "length (nkey n) = 49" "length (sub_ptr n) = 50" using n(2) by (auto simp: non_leaf_shape_def)
  let ?K = "overwrite (nkey n) (Suc ?a) ksr" and ?S = "overwrite (sub_ptr n) (Suc (Suc ?a)) (map Some csr)"
  let ?n1 = "n\<lparr>nkey := ?K, sub_ptr := ?S\<rparr>"
  let ?n2 = "n\<lparr>sub_ptr := ?S, nkey := ?K[?a := k]\<rparr>"
  let ?n3 = "n\<lparr>nkey := ?K[?a := k], sub_ptr := ?S[?a := Some l]\<rparr>"
  let ?n4 = "n\<lparr>nkey := ?K[?a := k], sub_ptr := ?S[?a := Some l, Suc ?a := Some r]\<rparr>"
  let ?n5 = "?n4\<lparr>count := int (length (csl @ l # r # csr))\<rparr>"
  define s1 where "s1 = s\<lparr>nodes := (adopt p (int ?a + 2) csr (nodes s))(p \<mapsto> NonLeaf ?n1)\<rparr>"
  define s2 where "s2 = s1\<lparr>nodes := (nodes s1)(p \<mapsto> NonLeaf ?n2)\<rparr>"
  define s3 where "s3 = s1\<lparr>nodes := (nodes s1)(p \<mapsto> NonLeaf ?n3)\<rparr>"
  define s4 where "s4 = s1\<lparr>nodes := (nodes s1)(p \<mapsto> NonLeaf ?n3, l \<mapsto> reparent (Some p) (int ?a - 1) nl)\<rparr>"
  define s5 where "s5 = s1\<lparr>nodes := (nodes s1)(l \<mapsto> reparent (Some p) (int ?a - 1) nl, p \<mapsto> NonLeaf ?n4)\<rparr>"
  define s6 where "s6 = s5\<lparr>nodes := (nodes s5)(r \<mapsto> reparent (Some p) (int ?a) nr)\<rparr>"
  define s7 where "s7 = s6\<lparr>nodes := (nodes s6)(p \<mapsto> NonLeaf ?n5)\<rparr>"
  note ss = s1_def s2_def s3_def s4_def s5_def s6_def s7_def
  have e1: "for_down (int (?a + ?b)) (int ?a)
      (\<lambda>i s. do { k \<leftarrow> get_nkey s p (i - 1); s \<leftarrow> put_nkey p i k s; c \<leftarrow> get_sub s p i;
               s \<leftarrow> put_sub p (i + 1) c s; sub_set_idx p (i + 1) i s }) s = Some s1"
    unfolding s1_def
  proof (rule simple_insert_shift [OF n(1) sh])
    show "take ?b (drop (Suc ?a) (sub_ptr n)) = map Some csr" using take_part [OF subs, of "Suc ?a" ?b] by simp
    show "take ?b (drop ?a (nkey n)) = ksr" using take_part [OF keys, of ?a ?b] len by simp
  qed (use len di stay in auto)
  have S: "length ?S = 50" "length ?K = 49" using len sh by simp_all
  have ne: "l \<noteq> p" "r \<noteq> p" "l \<noteq> r" "l \<notin> set csr" "r \<notin> set csr" using di(1) by auto
  have e2: "put_nkey p (int ?a) k s1 = Some s2"
    using put_nkey_eq [of s1 p ?n1 ?a k] S len by (simp add: s1_def s2_def)
  have e3: "put_sub p (int ?a) (Some l) s2 = Some s3"
    using put_sub_eq [of s2 p ?n2 ?a] S len by (simp add: s2_def s3_def)
  have e4: "sub_set_idx p (int ?a) (int ?a - 1) s3 = Some s4"
    using sub_set_idx_eq [of s3 p ?n3 ?a l nl] S len lr ne reparent_set_idx [OF lr(3)] by (simp add: s3_def s4_def s1_def adopt_other)
  have e5: "put_sub p (int (Suc ?a)) (Some r) s4 = Some s5"
    using put_sub_eq [of s4 p ?n3 "Suc ?a"] S len ne by (simp add: s4_def s5_def fun_upd_twist)
  have e6: "sub_set_idx p (int (Suc ?a)) (int ?a) s5 = Some s6"
    using sub_set_idx_eq [of s5 p ?n4 "Suc ?a" r nr] S len lr ne reparent_set_idx [OF lr(4)] by (simp add: s5_def s6_def s1_def adopt_other)
  have g6: "get_non_leaf s6 p = Some ?n4" and e7: "put_children p (int (length (csl @ l # r # csr))) s6 = Some s7"
    using get_non_leaf_eq [of s6 p ?n4] put_children_eq [of s6 p ?n4] ne by (simp_all add: s5_def s6_def s7_def)
  have m: "min (int ?a) (count n - 1) = int ?a" "count n - 1 = int (?a + ?b)" "int ?a + 1 = int (Suc ?a)"
      "count ?n4 + 1 = int (length (csl @ l # r # csr))" using n(3) by auto
  have run: "non_leaf_simple_insert p l r k (int ?a) s = Some s7"
    unfolding non_leaf_simple_insert_def get_non_leaf_eq [OF n(1)] bind.simps Let_def m(1) unfolding m(2,3) e1 bind.simps
      e2 e3 e4 e5 e6 g6 m(4) by (rule e7)
  have "nodes s7 = (adopt p 0 (csl @ l # r # csr) (nodes s))(p \<mapsto> NonLeaf ?n5)" (is "?L = ?R")
  proof
    show "?L x = ?R x" for x
      using adopt_id_at [OF stay(1), of x] di lr by (auto simp: ss adopt_at place_append ac_simps)
  qed
  then have "s7 = s\<lparr>nodes := (adopt p 0 (csl @ l # r # csr) (nodes s))(p \<mapsto> NonLeaf ?n5)\<rparr>" by (simp add: ss)
  moreover have "refilled n ?n5 (csl @ l # r # csr) (ksl @ k # ksr)"
    using n(2) sh len take_part [OF subs, of 0 ?a] take_part [OF keys, of 0 ?a]
    by (simp add: refilled_def non_leaf_shape_def overwrite_def list_update_append take_Suc_conv_app_nth)
  ultimately show ?thesis using run by blast
qed

subsection \<open>Entries of leaves\<close>

text \<open>The arrays of a leaf as the code keeps them, without regard to the number of its entries.\<close>

definition leaf_cells :: "item_store \<Rightarrow> bplus_leaf \<Rightarrow> bool" where
  "leaf_cells it l \<longleftrightarrow> leaf_shape l \<and> (\<forall>t \<in> set (tids l). \<exists>q. t = Some q \<and> it q \<noteq> None)"

definition has_str :: "bplus_leaf \<Rightarrow> nat \<Rightarrow> bool" where
  "has_str l i \<longleftrightarrow> i < 50 \<and> 0 \<in> set (ldata l ! i)"

lemma leaf_wf_cells: "leaf_wf it l \<longleftrightarrow> leaf_cells it l \<and> (\<forall>i < nat (count l). 0 \<in> set (ldata l ! i))"
  by (auto simp: leaf_wf_def leaf_cells_def)

lemma leaf_cells_items: "leaf_cells it l \<Longrightarrow> dom it \<subseteq> dom it' \<Longrightarrow> leaf_cells it' l"
  by (fastforce simp: leaf_cells_def dom_def)

text \<open>\<open>l'\<close> is \<open>l\<close> with other entries; strings stay strings.\<close>

definition refits :: "item_store \<Rightarrow> bplus_leaf \<Rightarrow> item_store \<Rightarrow> bplus_leaf \<Rightarrow> bool" where
  "refits it l it' l' \<longleftrightarrow>
     l' = l\<lparr>lkey := lkey l', ldata := ldata l', tids := tids l'\<rparr> \<and> leaf_cells it' l' \<and>
     dom it' = dom it \<and> (\<forall>i. has_str l i \<longrightarrow> has_str l' i)"

lemma refits_refl: "leaf_cells it l \<Longrightarrow> refits it l it l"
  by (simp add: refits_def)

lemma refits_trans:
  assumes "refits it l it' l'" "refits it' l' it'' l''"
  shows "refits it l it'' l''"
proof -
  have "l'' = (l\<lparr>lkey := lkey l', ldata := ldata l', tids := tids l'\<rparr>)\<lparr>lkey := lkey l'', ldata := ldata l'', tids := tids l''\<rparr>"
    using assms unfolding refits_def by metis
  then show ?thesis using assms by (simp add: refits_def)
qed

lemma strcpy_ok:
  assumes "length dst = 33" "length (cstr src) \<le> 32"
  shows "\<exists>d. strcpy dst src = Some d \<and> length d = 33 \<and> 0 \<in> set d"
  using assms by (simp add: strcpy_def blit_def)

lemma cstr_short: "0 \<in> set b \<Longrightarrow> length b = 33 \<Longrightarrow> length (cstr b) \<le> 32"
proof -
  assume b: "0 \<in> set b" "length b = 33"
  then have "cstr b \<noteq> b" by (metis cstr_def set_takeWhileD)
  then have "length (cstr b) \<noteq> length b" unfolding cstr_def
    by (metis takeWhile_eq_take take_all order.refl)
  then show ?thesis using b(2) length_takeWhile_le [of "\<lambda>c. c \<noteq> 0" b] by (simp add: cstr_def)
qed

lemma put_str_ok:
  assumes "leaf_shape l" "j < 50" "length (cstr src) \<le> 32"
  shows "\<exists>ds. put_str (ldata l) (int j) src = Some ds \<and> length ds = 50 \<and> (\<forall>b \<in> set ds. length b = 33) \<and>
    0 \<in> set (ds ! j) \<and> (\<forall>i. i \<noteq> j \<longrightarrow> ds ! i = ldata l ! i)"
proof -
  have l: "length (ldata l) = 50" "length (ldata l ! j) = 33" using assms(1,2) by (auto simp: leaf_shape_def)
  obtain d where d: "strcpy (ldata l ! j) src = Some d" "length d = 33" "0 \<in> set d"
    using strcpy_ok [OF l(2) assms(3)] by blast
  have "set ((ldata l)[j := d]) \<subseteq> insert d (set (ldata l))" by (rule set_update_subset_insert)
  then show ?thesis
    using d l assms(1,2) by (auto simp: put_str_def aget_eq aput_eq leaf_shape_def)
qed

text \<open>The entries from \<open>j\<close> on are written with the keys \<open>ks\<close>, each with a string.\<close>

definition filled :: "item_store \<Rightarrow> bplus_leaf \<Rightarrow> nat \<Rightarrow> int list \<Rightarrow> item_store \<Rightarrow> bplus_leaf \<Rightarrow> bool" where
  "filled it l j ks it' l' \<longleftrightarrow>
     refits it l it' l' \<and> lkey l' = overwrite (lkey l) j ks \<and>
     (\<forall>x. j \<le> x \<and> x < j + length ks \<longrightarrow> has_str l' x)"

lemma overwrite_one: "j < length xs \<Longrightarrow> overwrite xs j [x] = xs[j := x]"
  by (simp add: overwrite_def upd_conv_take_nth_drop)

lemma filled_Nil: "leaf_cells it l \<Longrightarrow> filled it l j [] it l"
  by (auto simp: filled_def refits_refl)

lemma filled_cells: "filled it l j ks it' l' \<Longrightarrow> leaf_cells it' l'"
  "filled it l j ks it' l' \<Longrightarrow> leaf_cells it x \<Longrightarrow> leaf_cells it' x"
  using leaf_cells_items [of it x it'] by (auto simp: filled_def refits_def)

lemma filled_Cons:
  assumes "filled it l j [k] it1 l1" "filled it1 l1 (Suc j) ks it2 l2" "j + length ks < length (lkey l)"
  shows "filled it l j (k # ks) it2 l2"
proof -
  have "has_str l2 j" using assms(1,2) by (simp add: filled_def refits_def)
  then have "has_str l2 x" if "j \<le> x" "x < j + length (k # ks)" for x
    using that assms(2) by (cases "x = j") (auto simp: filled_def)
  then show ?thesis
    using assms refits_trans [of it l it1 l1 it2 l2] by (auto simp: filled_def overwrite_one overwrite_upd)
qed

lemma leaf_copy_entry_spec:
  assumes "leaf_cells it src" "has_str src i" "leaf_cells it dst" "j < 50"
  shows "\<exists>l'. leaf_copy_entry src (int i) dst (int j) = Some l' \<and> filled it dst j [lkey src ! i] it l'"
proof -
  have i: "i < 50" and b: "0 \<in> set (ldata src ! i)" using assms(2) by (auto simp: has_str_def)
  have s: "leaf_shape src" "leaf_shape dst" using assms by (auto simp: leaf_cells_def)
  have "length (cstr (ldata src ! i)) \<le> 32"
    using b i s(1) by (intro cstr_short) (auto simp: leaf_shape_def)
  then obtain ds where ds: "put_str (ldata dst) (int j) (ldata src ! i) = Some ds" "length ds = 50"
      "\<forall>b \<in> set ds. length b = 33" "0 \<in> set (ds ! j)" "\<forall>i. i \<noteq> j \<longrightarrow> ds ! i = ldata dst ! i"
    using put_str_ok [OF s(2) assms(4)] by blast
  let ?l = "dst\<lparr>lkey := (lkey dst)[j := lkey src ! i], ldata := ds, tids := (tids dst)[j := tids src ! i]\<rparr>"
  have run: "leaf_copy_entry src (int i) dst (int j) = Some ?l"
    using ds(1) s i assms(4) by (simp add: leaf_copy_entry_def aget_eq aput_eq leaf_shape_def)
  have "tids src ! i \<in> set (tids src)" using i s(1) by (simp add: leaf_shape_def)
  then have "\<forall>t \<in> set ((tids dst)[j := tids src ! i]). \<exists>q. t = Some q \<and> it q \<noteq> None"
    using assms(1,3) set_update_subset_insert [of "tids dst" j "tids src ! i"] unfolding leaf_cells_def by blast
  then have "leaf_cells it ?l" using s ds by (simp add: leaf_cells_def leaf_shape_def)
  moreover have "has_str ?l x" if "has_str dst x" for x
    using that ds(4,5) by (cases "x = j") (auto simp: has_str_def)
  ultimately show ?thesis using run ds(4) assms(4) s(2)
    by (auto simp: filled_def refits_def has_str_def leaf_shape_def overwrite_one less_Suc_eq)
qed

lemma leaf_put_entry_spec:
  assumes "leaf_cells it dst" "j < 50" "length (cstr data) \<le> 32"
  shows "\<exists>l' it'. leaf_put_entry key data tid dst (int j) it = Some (l', it') \<and> filled it dst j [key] it' l'"
proof -
  have s: "leaf_shape dst" using assms by (auto simp: leaf_cells_def)
  obtain ds where ds: "put_str (ldata dst) (int j) data = Some ds" "length ds = 50"
      "\<forall>b \<in> set ds. length b = 33" "0 \<in> set (ds ! j)" "\<forall>i. i \<noteq> j \<longrightarrow> ds ! i = ldata dst ! i"
    using put_str_ok [OF s assms(2,3)] by blast
  have "tids dst ! j \<in> set (tids dst)" using s assms(2) by (simp add: leaf_shape_def)
  then obtain q old where q: "tids dst ! j = Some q" "it q = Some old" using assms(1) unfolding leaf_cells_def by blast
  let ?l = "dst\<lparr>lkey := (lkey dst)[j := key], ldata := ds\<rparr>"
  have run: "leaf_put_entry key data tid dst (int j) it = Some (?l, it(q \<mapsto> tid))"
    using ds(1) s assms(2) q by (simp add: leaf_put_entry_def write_tid_def aget_eq aput_eq leaf_shape_def)
  have "leaf_cells it ?l" using s ds assms(1) by (simp add: leaf_cells_def leaf_shape_def)
  then have "leaf_cells (it(q \<mapsto> tid)) ?l" by (rule leaf_cells_items) auto
  moreover have "has_str ?l x" if "has_str dst x" for x
    using that ds(4,5) by (cases "x = j") (auto simp: has_str_def)
  ultimately show ?thesis using run ds(4) assms(2) q(2) s
    by (auto simp: filled_def refits_def has_str_def leaf_shape_def overwrite_one less_Suc_eq)
qed

subsection \<open>Splits of leaves\<close>

lemma leaf_split_left_copy_spec:
  assumes "leaf_cells it leaf" "\<forall>i < length ks. has_str leaf i" "take (length ks) (lkey leaf) = ks"
    "split \<le> Suc (length ks)" "length ks \<le> 50" "length (cstr data) \<le> 32"
    "leaf_cells it left" "xs = left_keys ks key ins split i j" "j + length xs \<le> 50" "i \<le> split - 1"
  shows "\<exists>left' it'. leaf_split_left_copy leaf key data tid (int ins) (int split) (int i) (int j) left it =
      Some (int (split - 1), int (j + length xs), left', it') \<and> filled it left j xs it' left'"
  using assms
proof (induction ks key ins split i j arbitrary: left it xs rule: left_keys.induct)
  case (1 ks key ins split i j)
  show ?case
  proof (cases "i < split - 1")
    case False
    then have "i = split - 1" "xs = []" using 1(10,12) by (simp_all add: left_keys.simps)
    then show ?thesis
      using False 1(9) by (subst leaf_split_left_copy.simps) (auto simp: filled_Nil)
  next
    case T: True
    then have lt: "int i < int split - 1" by simp
    have len: "length (lkey left) = 50" using 1(9) by (simp add: leaf_cells_def leaf_shape_def)
    show ?thesis
    proof (cases "j = ins")
      case True
      define ys where "ys = left_keys ks key ins split i (Suc j)"
      have xs: "xs = key # ys" unfolding 1(10) ys_def using T True by (subst left_keys.simps) simp
      obtain l1 it1 where l1: "leaf_put_entry key data tid left (int j) it = Some (l1, it1)" "filled it left j [key] it1 l1"
        using leaf_put_entry_spec [OF 1(9), of j data key tid] 1(8,11) xs by auto
      have "\<exists>left' it'. leaf_split_left_copy leaf key data tid (int ins) (int split) (int i) (int (Suc j)) l1 it1 =
          Some (int (split - 1), int (Suc j + length ys), left', it') \<and> filled it1 l1 (Suc j) ys it' left'"
        by (rule 1(1)) (use T True 1(4-8,12) filled_cells(2) [OF l1(2) 1(3)] filled_cells(1) [OF l1(2)] 1(11) xs in \<open>auto simp: ys_def\<close>)
      then obtain l2 it2 where l2: "leaf_split_left_copy leaf key data tid (int ins) (int split) (int i) (int (Suc j)) l1 it1 =
          Some (int (split - 1), int (Suc j + length ys), l2, it2)" "filled it1 l1 (Suc j) ys it2 l2" by blast
      have "leaf_split_left_copy leaf key data tid (int ins) (int split) (int i) (int j) left it =
          Some (int (split - 1), int (j + length xs), l2, it2)"
        using True lt l1(1) l2(1) xs by (subst leaf_split_left_copy.simps) (simp add: add.commute)
      then show ?thesis using filled_Cons [OF l1(2) l2(2)] 1(11) xs len by auto
    next
      case False
      define ys where "ys = left_keys ks key ins split (Suc i) (Suc j)"
      have xs: "xs = ks ! i # ys" unfolding 1(10) ys_def using T False by (subst left_keys.simps) simp
      have i: "i < length ks" "lkey leaf ! i = ks ! i" using T 1(6) nth_of_take [OF 1(5), of i] by auto
      obtain l1 where l1: "leaf_copy_entry leaf (int i) left (int j) = Some l1" "filled it left j [ks ! i] it l1"
        using leaf_copy_entry_spec [OF 1(3) _ 1(9), of i j] 1(4,11) xs i by auto
      have "\<exists>left' it'. leaf_split_left_copy leaf key data tid (int ins) (int split) (int (Suc i)) (int (Suc j)) l1 it =
          Some (int (split - 1), int (Suc j + length ys), left', it') \<and> filled it l1 (Suc j) ys it' left'"
        by (rule 1(2)) (use T False 1(3-8) filled_cells(1) [OF l1(2)] 1(11) xs in \<open>auto simp: ys_def\<close>)
      then obtain l2 it2 where l2: "leaf_split_left_copy leaf key data tid (int ins) (int split) (int (Suc i)) (int (Suc j)) l1 it =
          Some (int (split - 1), int (Suc j + length ys), l2, it2)" "filled it l1 (Suc j) ys it2 l2" by blast
      have "leaf_split_left_copy leaf key data tid (int ins) (int split) (int i) (int j) left it =
          Some (int (split - 1), int (j + length xs), l2, it2)"
        using False lt l1(1) l2(1) xs by (subst leaf_split_left_copy.simps) (simp add: add.commute)
      then show ?thesis using filled_Cons [OF l1(2) l2(2)] 1(11) xs len by auto
    qed
  qed
qed

lemma leaf_split_left_shift_spec:
  assumes "leaf_cells it leaf" "leaf_cells it left" "\<forall>x. i \<le> x \<and> x < i + length ks \<longrightarrow> has_str leaf x"
    "take (length ks) (drop i (lkey leaf)) = ks" "j \<le> i" "i + length ks \<le> 50"
  shows "\<exists>leaf' left'. leaf_split_left_shift (int (i + length ks)) (int i) (int j) leaf left =
      Some (int (j + length ks), leaf', left') \<and> refits it leaf it leaf' \<and> lkey leaf' = overwrite (lkey leaf) j ks \<and>
    refits it left it left' \<and> lkey left' = lkey left"
  using assms
proof (induction ks arbitrary: i j leaf left)
  case Nil
  then show ?case by (subst leaf_split_left_shift.simps) (auto simp: refits_refl)
next
  case (Cons k ks)
  have s: "leaf_shape leaf" "leaf_shape left" using Cons.prems by (auto simp: leaf_cells_def)
  have i: "i < 50" "j < 50" and b: "0 \<in> set (ldata leaf ! i)" using Cons.prems(3,5,6) by (auto simp: has_str_def)
  have "length (cstr (ldata leaf ! i)) \<le> 32"
    using b i s(1) by (intro cstr_short) (auto simp: leaf_shape_def)
  then obtain ds where ds: "put_str (ldata left) (int j) (ldata leaf ! i) = Some ds" "length ds = 50"
      "\<forall>b \<in> set ds. length b = 33" "0 \<in> set (ds ! j)" "\<forall>i. i \<noteq> j \<longrightarrow> ds ! i = ldata left ! i"
    using put_str_ok [OF s(2) i(2)] by blast
  have k: "lkey leaf ! i = k" and ks: "take (length ks) (drop (Suc i) (lkey leaf)) = ks"
    using Cons.prems(4) i s(1) by (simp_all add: leaf_shape_def Cons_nth_drop_Suc [symmetric])
  let ?leaf = "leaf\<lparr>lkey := (lkey leaf)[j := k], tids := (tids leaf)[j := tids leaf ! i]\<rparr>"
  let ?left = "left\<lparr>ldata := ds\<rparr>"
  have "tids leaf ! i \<in> set (tids leaf)" using i s(1) by (simp add: leaf_shape_def)
  then have "\<forall>t \<in> set ((tids leaf)[j := tids leaf ! i]). \<exists>q. t = Some q \<and> it q \<noteq> None"
    using Cons.prems(1) set_update_subset_insert [of "tids leaf" j "tids leaf ! i"] unfolding leaf_cells_def by blast
  then have r1: "refits it leaf it ?leaf" using s by (auto simp: refits_def leaf_cells_def leaf_shape_def has_str_def)
  have "has_str ?left x" if "has_str left x" for x
    using that ds(4,5) by (cases "x = j") (auto simp: has_str_def)
  then have r2: "refits it left it ?left" using s(2) ds Cons.prems(2) by (auto simp: refits_def leaf_cells_def leaf_shape_def)
  have "leaf_split_left_shift (int (i + length (k # ks))) (int i) (int j) leaf left =
      leaf_split_left_shift (int (Suc i + length ks)) (int (Suc i)) (int (Suc j)) ?leaf ?left"
    using ds(1) s i k by (subst leaf_split_left_shift.simps) (simp add: aget_eq aput_eq leaf_shape_def add.commute)
  moreover have "\<exists>leaf' left'. leaf_split_left_shift (int (Suc i + length ks)) (int (Suc i)) (int (Suc j)) ?leaf ?left =
      Some (int (Suc j + length ks), leaf', left') \<and> refits it ?leaf it leaf' \<and>
      lkey leaf' = overwrite (lkey ?leaf) (Suc j) ks \<and> refits it ?left it left' \<and> lkey left' = lkey ?left"
    using r1 r2 Cons.prems ks by (intro Cons.IH) (auto simp: refits_def has_str_def)
  moreover have "overwrite ((lkey leaf)[j := k]) (Suc j) ks = overwrite (lkey leaf) j (k # ks)"
    using s(1) Cons.prems(5,6) by (simp add: overwrite_upd leaf_shape_def)
  ultimately show ?case using refits_trans [OF r1] refits_trans [OF r2] by fastforce
qed

lemma leaf_split_right_copy_after:
  assumes "leaf_cells it leaf" "leaf_cells it right" "\<forall>x. i \<le> x \<and> x < i + length ks \<longrightarrow> has_str leaf x"
    "take (length ks) (drop i (lkey leaf)) = ks" "count leaf = int (i + length ks)" "h < j" "j + length ks \<le> 50"
  shows "\<exists>right'. leaf_split_right_copy leaf (int h) (int i) (int j) right = Some (int (j + length ks), right') \<and>
    filled it right j ks it right'"
  using assms
proof (induction ks arbitrary: i j right)
  case Nil
  then show ?case by (subst leaf_split_right_copy.simps) (auto simp: filled_Nil)
next
  case (Cons k ks)
  have i: "i < 50" "has_str leaf i" using Cons.prems(3) by (auto simp: has_str_def)
  have sh: "length (lkey leaf) = 50" "length (lkey right) = 50" using Cons.prems(1,2) by (auto simp: leaf_cells_def leaf_shape_def)
  have k: "lkey leaf ! i = k" and ks: "take (length ks) (drop (Suc i) (lkey leaf)) = ks"
    using Cons.prems(4) i sh by (simp_all add: Cons_nth_drop_Suc [symmetric])
  obtain l1 where l1: "leaf_copy_entry leaf (int i) right (int j) = Some l1" "filled it right j [k] it l1"
    using leaf_copy_entry_spec [OF Cons.prems(1) i(2) Cons.prems(2), of j] Cons.prems(7) k by auto
  obtain l2 where l2: "leaf_split_right_copy leaf (int h) (int (Suc i)) (int (Suc j)) l1 = Some (int (Suc j + length ks), l2)"
      "filled it l1 (Suc j) ks it l2"
    using Cons.IH [of l1 "Suc i" "Suc j"] Cons.prems filled_cells(1) [OF l1(2)] ks by auto
  have "leaf_split_right_copy leaf (int h) (int i) (int j) right = Some (int (j + length (k # ks)), l2)"
    using l1(1) l2(1) Cons.prems(5,6) by (subst leaf_split_right_copy.simps) (simp add: add.commute)
  then show ?case using filled_Cons [OF l1(2) l2(2)] Cons.prems(7) sh by auto
qed

lemma leaf_split_right_copy_before:
  assumes "leaf_cells it leaf" "leaf_cells it right" "\<forall>x. i \<le> x \<and> x < i + length ks \<longrightarrow> has_str leaf x"
    "take (length ks) (drop i (lkey leaf)) = ks" "count leaf = int (i + length ks)"
    "d \<le> length ks" "h = j + d" "Suc j + length ks \<le> 50"
  shows "\<exists>r1 r2. leaf_split_right_copy leaf (int h) (int i) (int j) right =
      Some (if d = length ks then int h else int (Suc j + length ks), r2) \<and>
    filled it right j (take d ks) it r1 \<and> filled it r1 (Suc h) (drop d ks) it r2"
  using assms
proof (induction d arbitrary: i j ks right)
  case 0
  show ?case
  proof (cases ks)
    case Nil
    then show ?thesis using 0 filled_Nil [OF 0(2)] by (subst leaf_split_right_copy.simps) auto
  next
    case (Cons k ks')
    obtain r2 where "leaf_split_right_copy leaf (int h) (int i) (int (Suc h)) right = Some (int (Suc h + length ks), r2)"
      "filled it right (Suc h) ks it r2"
      using leaf_split_right_copy_after [OF 0(1-5), of h "Suc h"] 0(7,8) by auto
    moreover from this have "leaf_split_right_copy leaf (int h) (int i) (int j) right = Some (int (Suc j + length ks), r2)"
      using 0(5,7) Cons by (subst leaf_split_right_copy.simps) (simp add: add.commute)
    ultimately show ?thesis using filled_Nil [OF 0(2)] Cons by auto
  qed
next
  case (Suc d)
  obtain k ks' where Cons: "ks = k # ks'" using Suc.prems(6) by (cases ks) auto
  have i: "i < 50" "has_str leaf i" using Suc.prems(3) Cons by (auto simp: has_str_def)
  have sh: "length (lkey leaf) = 50" "length (lkey right) = 50" using Suc.prems(1,2) by (auto simp: leaf_cells_def leaf_shape_def)
  have k: "lkey leaf ! i = k" and ks: "take (length ks') (drop (Suc i) (lkey leaf)) = ks'"
    using Suc.prems(4) i sh Cons by (simp_all add: Cons_nth_drop_Suc [symmetric])
  obtain l1 where l1: "leaf_copy_entry leaf (int i) right (int j) = Some l1" "filled it right j [k] it l1"
    using leaf_copy_entry_spec [OF Suc.prems(1) i(2) Suc.prems(2), of j] Suc.prems(8) k by auto
  obtain r1 r2 where r: "leaf_split_right_copy leaf (int h) (int (Suc i)) (int (Suc j)) l1 =
      Some (if d = length ks' then int h else int (Suc (Suc j) + length ks'), r2)"
      "filled it l1 (Suc j) (take d ks') it r1" "filled it r1 (Suc h) (drop d ks') it r2"
    using Suc.IH [of l1 "Suc i" ks' "Suc j"] Suc.prems filled_cells(1) [OF l1(2)] ks Cons by auto
  have "leaf_split_right_copy leaf (int h) (int i) (int j) right =
      Some (if Suc d = length ks then int h else int (Suc j + length ks), r2)"
    using l1(1) r(1) Suc.prems(5,7) Cons by (subst leaf_split_right_copy.simps) (simp add: add.commute)
  moreover have "filled it right j (take (Suc d) ks) it r1"
    using filled_Cons [OF l1(2) r(2)] Suc.prems(8) sh Cons by simp
  ultimately show ?case using r(3) Cons by auto
qed

lemma filled_snoc:
  assumes "filled it l (j + length ks) [k] it1 l1" "filled it1 l1 j ks it2 l2" "j + length ks < length (lkey l)"
  shows "filled it l j (ks @ [k]) it2 l2"
proof -
  have "has_str l2 (j + length ks)" using assms(1,2) by (simp add: filled_def refits_def)
  then have "has_str l2 x" if "j \<le> x" "x < j + length (ks @ [k])" for x
    using that assms(2) by (cases "x = j + length ks") (auto simp: filled_def)
  then show ?thesis
    using assms refits_trans [of it l it1 l1 it2 l2] by (auto simp: filled_def overwrite_one overwrite_upd_back)
qed

lemma leaf_insert_shift:
  assumes "leaf_cells it l" "\<forall>x. a \<le> x \<and> x < a + length ks \<longrightarrow> has_str l x"
    "take (length ks) (drop a (lkey l)) = ks" "a + length ks < 50"
  shows "\<exists>l'. for_down (int (a + length ks)) (int a) (\<lambda>i leaf. leaf_copy_entry leaf (i - 1) leaf i) l = Some l' \<and>
    filled it l (Suc a) ks it l'"
  using assms
proof (induction ks arbitrary: l rule: rev_induct)
  case Nil
  then show ?case by (subst for_down.simps) (auto simp: filled_Nil)
next
  case (snoc k ks)
  have sh: "length (lkey l) = 50" using snoc.prems(1) by (auto simp: leaf_cells_def leaf_shape_def)
  have k: "lkey l ! (a + length ks) = k" and ks: "take (length ks) (drop a (lkey l)) = ks"
    using snoc.prems(3,4) sh by (auto simp: take_Suc_conv_app_nth)
  obtain l1 where l1: "leaf_copy_entry l (int (a + length ks)) l (int (Suc (a + length ks))) = Some l1"
      "filled it l (Suc (a + length ks)) [k] it l1"
    using leaf_copy_entry_spec [OF snoc.prems(1) _ snoc.prems(1), of "a + length ks" "Suc (a + length ks)"] snoc.prems(2,4) k
    by (simp del: of_nat_Suc of_nat_add) metis
  have "take (length ks) (drop a (lkey l1)) = ks"
    using l1(2) sh snoc.prems(4) ks by (simp add: filled_def overwrite_one drop_update_swap)
  then obtain l2 where l2: "for_down (int (a + length ks)) (int a) (\<lambda>i leaf. leaf_copy_entry leaf (i - 1) leaf i) l1 = Some l2"
      "filled it l1 (Suc a) ks it l2"
    using snoc.IH [of l1] snoc.prems filled_cells(1) [OF l1(2)] l1(2) by (auto simp: filled_def refits_def)
  have "for_down (int (a + length (ks @ [k]))) (int a) (\<lambda>i leaf. leaf_copy_entry leaf (i - 1) leaf i) l = Some l2"
    using l1(1) l2(1) by (subst for_down.simps) (simp add: add.commute)
  then show ?case using filled_snoc [of it l "Suc a" ks k it l1 it l2] l1(2) l2(2) sh snoc.prems(4) by auto
qed

lemma filled_has_str:
  "filled it l j ks it' l' \<Longrightarrow> has_str l x \<Longrightarrow> has_str l' x"
  "filled it l j ks it' l' \<Longrightarrow> j \<le> x \<Longrightarrow> x < j + length ks \<Longrightarrow> has_str l' x"
  by (auto simp: filled_def refits_def)

lemma filled_refits: "filled it l j ks it' l' \<Longrightarrow> refits it l it' l'"
  by (simp add: filled_def)

lemma leaf_put_entry_count:
  "leaf_put_entry k data tid (l\<lparr>count := c\<rparr>) j it =
    map_option (\<lambda>(l', it'). (l'\<lparr>count := c\<rparr>, it')) (leaf_put_entry k data tid l j it)"
  by (cases l) (auto simp: leaf_put_entry_def write_tid_def split: bind_splits)

definition leaf_holds :: "item_store \<Rightarrow> bplus_leaf \<Rightarrow> int list \<Rightarrow> bool" where
  "leaf_holds it l ks \<longleftrightarrow>
     leaf_wf it l \<and> count l = int (length ks) \<and> length ks \<le> 50 \<and> take (length ks) (lkey l) = ks"

text \<open>A leaf with new entries and nothing else changed.\<close>

definition leaf_refilled :: "item_store \<Rightarrow> bplus_leaf \<Rightarrow> item_store \<Rightarrow> bplus_leaf \<Rightarrow> int list \<Rightarrow> bool" where
  "leaf_refilled it l it' l' ks \<longleftrightarrow>
     l' = l\<lparr>lkey := lkey l', ldata := ldata l', tids := tids l', count := int (length ks)\<rparr> \<and>
     leaf_holds it' l' ks \<and> dom it' = dom it"

lemma leaf_holds_cells: "leaf_holds it l ks \<Longrightarrow> leaf_cells it l \<and> (\<forall>i < length ks. has_str l i)"
  by (auto simp: leaf_holds_def leaf_wf_cells has_str_def)

lemma leaf_refilledI:
  assumes "refits it l it' l'" "take (length ks) (lkey l') = ks" "length ks \<le> 50" "\<forall>i < length ks. has_str l' i"
  shows "leaf_refilled it l it' (l'\<lparr>count := int (length ks)\<rparr>) ks"
proof -
  have "leaf_cells it' (l'\<lparr>count := int (length ks)\<rparr>)"
    using assms(1) by (simp add: refits_def leaf_cells_def leaf_shape_def)
  moreover have "l'\<lparr>count := int (length ks)\<rparr> =
      l\<lparr>lkey := lkey l', ldata := ldata l', tids := tids l', count := int (length ks)\<rparr>"
    using assms(1) unfolding refits_def by (metis (no_types))
  moreover have "dom it' = dom it" using assms(1) unfolding refits_def by blast
  moreover have "\<forall>i < nat (int (length ks)). 0 \<in> set (ldata l' ! i)" using assms(4) by (simp add: has_str_def)
  ultimately show ?thesis
    using assms(2,3) unfolding leaf_refilled_def leaf_holds_def leaf_wf_cells by simp
qed

lemma leaf_simple_insert_spec:
  assumes "nodes s p = Some (Leaf l)" "leaf_holds (items s) l (ksl @ ksr)" "length ksl + length ksr < 50"
    "length (cstr data) \<le> 32"
  shows "\<exists>l' it'. leaf_simple_insert p k data tid (int (length ksl)) s =
      Some (s\<lparr>items := it', nodes := (nodes s)(p \<mapsto> Leaf l')\<rparr>) \<and>
    leaf_refilled (items s) l it' l' (ksl @ k # ksr)"
proof -
  let ?a = "length ksl" and ?b = "length ksr"
  note h = leaf_holds_cells [OF assms(2)]
  have c: "count l = int (?a + ?b)" and ks: "take (?a + ?b) (lkey l) = ksl @ ksr"
    using assms(2) by (auto simp: leaf_holds_def)
  have sh: "length (lkey l) = 50" using h by (simp add: leaf_cells_def leaf_shape_def)
  obtain l1 where l1: "for_down (int (?a + ?b)) (int ?a) (\<lambda>i leaf. leaf_copy_entry leaf (i - 1) leaf i) l = Some l1"
      "filled (items s) l (Suc ?a) ksr (items s) l1"
    using leaf_insert_shift [of "items s" l ?a ksr] h assms(3) take_part [OF ks, of ?a ?b] by auto
  obtain l2 it' where l2: "leaf_put_entry k data tid l1 (int ?a) (items s) = Some (l2, it')" "filled (items s) l1 ?a [k] it' l2"
    using leaf_put_entry_spec [OF filled_cells(1) [OF l1(2)], of ?a data k tid] assms(3,4) by auto
  have "take (Suc (?a + ?b)) (lkey l2) = ksl @ k # ksr"
  proof -
    have "lkey l2 = (overwrite (lkey l) (Suc ?a) ksr)[?a := k]"
      using l1(2) l2(2) sh assms(3) by (simp add: filled_def overwrite_one)
    moreover have "take ?a (lkey l) = ksl" using take_part [OF ks, of 0 ?a] by simp
    ultimately show ?thesis using sh assms(3)
      by (simp add: overwrite_def list_update_append take_Suc_conv_app_nth)
  qed
  moreover have "has_str l2 x" if "x < Suc (?a + ?b)" for x
  proof (cases "x < ?a")
    case True
    then show ?thesis using h l1(2) l2(2) by (auto simp: filled_def refits_def)
  next
    case False
    then show ?thesis using that l1(2) l2(2) by (cases "x = ?a") (auto simp: filled_def refits_def)
  qed
  moreover have "refits (items s) l it' l2" using l1(2) l2(2) refits_trans by (auto simp: filled_def)
  ultimately have "leaf_refilled (items s) l it' (l2\<lparr>count := int (length (ksl @ k # ksr))\<rparr>) (ksl @ k # ksr)"
    using assms(3) by (intro leaf_refilledI) auto
  moreover have "leaf_simple_insert p k data tid (int ?a) s =
      Some (s\<lparr>items := it', nodes := (nodes s)(p \<mapsto> Leaf (l2\<lparr>count := int (length (ksl @ k # ksr))\<rparr>))\<rparr>)"
  proof -
    have m: "min (int ?a) (int (?a + ?b)) = int ?a" "int (?a + ?b) + 1 = int (length (ksl @ k # ksr))" by auto
    show ?thesis
      unfolding leaf_simple_insert_def get_leaf_eq [OF assms(1)] bind.simps Let_def c l1(1) m l2(1) prod.case put_leaf_def by simp
  qed
  ultimately show ?thesis by blast
qed

lemma leaf_split_right_spec:
  assumes n: "nodes s p = Some (Leaf l0)" "count l0 = count l" and add: "list_add (Link q) (Link p) s = Some s1"
    and pq: "nodes s1 p = Some (Leaf l)" "nodes s1 q = Some (Leaf m)" "p \<noteq> q"
    and l: "leaf_holds (items s1) l (ksl @ ksr)" and m: "leaf_cells (items s1) m" and d: "length (cstr data) \<le> 32"
    and sp: "sp = Suc (length ksl + length ksr) div 2" "sp \<le> length ksl" "1 \<le> sp" and ks: "ks = ksl @ k # ksr"
  shows "\<exists>l' m' it'. leaf_split_right p q k data tid (int (length ksl)) s =
      Some (s1\<lparr>items := it', nodes := (nodes s1)(q \<mapsto> Leaf m', p \<mapsto> Leaf l')\<rparr>) \<and>
    leaf_refilled (items s1) l it' l' (take sp ks) \<and> leaf_refilled (items s1) m it' m' (drop sp ks)"
proof -
  let ?a = "length ksl" and ?b = "length ksr" and ?it = "items s1"
  note h = leaf_holds_cells [OF l]
  have c: "count l = int (?a + ?b)" and K: "take (?a + ?b) (lkey l) = ksl @ ksr" and le: "?a + ?b \<le> 50"
    using l by (auto simp: leaf_holds_def)
  have sh: "length (lkey m) = 50" using m by (simp add: leaf_cells_def leaf_shape_def)
  define xs where "xs = drop sp ksl @ ksr"
  define e where "e = ?a - sp"
  have e: "?a = sp + e" using sp(2) by (simp add: e_def)
  have xs: "length xs = e + ?b" "take e xs = drop sp ksl" "drop e xs = ksr" using e by (auto simp: xs_def)
  have part: "take (length xs) (drop sp (lkey l)) = xs"
    using take_part [OF K, of sp "length xs"] xs(1) e by (simp add: xs_def)
  have "\<exists>r1 r2. leaf_split_right_copy l (int e) (int sp) (int 0) m =
      Some (if e = length xs then int e else int (Suc 0 + length xs), r2) \<and>
      filled ?it m 0 (take e xs) ?it r1 \<and> filled ?it r1 (Suc e) (drop e xs) ?it r2"
    by (rule leaf_split_right_copy_before) (use h m part c xs(1) sp(3) e le in auto)
  then obtain r1 r2 where r: "leaf_split_right_copy l (int e) (int sp) (int 0) m =
      Some (if e = length xs then int e else int (Suc 0 + length xs), r2)"
      "filled ?it m 0 (drop sp ksl) ?it r1" "filled ?it r1 (Suc e) ksr ?it r2"
    unfolding xs(2,3) by blast
  obtain r3 it' where r3: "leaf_put_entry k data tid r2 (int e) ?it = Some (r3, it')" "filled ?it r2 e [k] it' r3"
    using leaf_put_entry_spec [OF filled_cells(1) [OF r(3)], of e data k tid] sp(3) e le d by auto
  have dk: "drop sp ks = drop sp ksl @ k # ksr" "take sp ks = take sp ksl" using e by (auto simp: ks)
  have L: "length (drop sp ksl) = e" using e by simp
  have cnt: "(if e = length xs then int e else int (Suc 0 + length xs)) =
      (if ksr = [] then int e else int (length (drop sp ks)))" using xs(1) e by (auto simp: dk)
  have right: "leaf_refilled ?it m it' (r3\<lparr>count := int (length (drop sp ks))\<rparr>) (drop sp ks)"
  proof (rule leaf_refilledI)
    show "refits ?it m it' r3" by (intro refits_trans [OF filled_refits [OF r(2)]] refits_trans [OF filled_refits [OF r(3)]] filled_refits [OF r3(2)])
    have "lkey r3 = (overwrite (overwrite (lkey m) 0 (drop sp ksl)) (Suc e) ksr)[e := k]"
      using r(2,3) r3(2) sh L e le sp(3) by (simp add: filled_def overwrite_one)
    then show "take (length (drop sp ks)) (lkey r3) = drop sp ks"
      using sh L e le sp(3) unfolding dk by (simp add: overwrite_def list_update_append take_one_drop)
    show "\<forall>i < length (drop sp ks). has_str r3 i"
    proof safe
      fix i assume i: "i < length (drop sp ks)"
      consider "i < e" | "i = e" | "e < i" by linarith
      then show "has_str r3 i"
        using i L filled_has_str [OF r(2)] filled_has_str [OF r(3)] filled_has_str [OF r3(2)] unfolding dk by cases auto
    qed
  qed (use e le sp(3) in \<open>simp add: ks\<close>)
  have "leaf_refilled ?it l it' (l\<lparr>count := int (length (take sp ks))\<rparr>) (take sp ks)"
  proof (rule leaf_refilledI)
    show "refits ?it l it' l" using h r(2,3) r3(2) leaf_cells_items [of ?it l it'] by (auto simp: refits_def filled_def)
    show "take (length (take sp ks)) (lkey l) = take sp ks" using take_part [OF K, of 0 sp] e by (simp add: dk)
  qed (use h e le in \<open>auto simp: dk\<close>)
  moreover have "leaf_split_right p q k data tid (int ?a) s = Some (s1\<lparr>items := it', nodes := (nodes s1)
      (q \<mapsto> Leaf (r3\<lparr>count := int (length (drop sp ks))\<rparr>), p \<mapsto> Leaf (l\<lparr>count := int (length (take sp ks))\<rparr>))\<rparr>)"
  proof -
    have spl: "c_div (int (?a + ?b) + 1) 2 = int sp" using sp(1) by simp
    have hole: "int ?a - int sp = int e" and tk: "int (length (take sp ks)) = int sp" using e by (auto simp: dk)
    have adj: "(if j > int e then Some (r2\<lparr>count := j\<rparr>) else if j = int e then Some (r2\<lparr>count := j + 1\<rparr>) else None) =
        Some (r2\<lparr>count := int (length (drop sp ks))\<rparr>)" if "j = (if ksr = [] then int e else int (length (drop sp ks)))" for j
      using that e L by (auto simp: dk)
    have put: "leaf_put_entry k data tid (r2\<lparr>count := c\<rparr>) (int e) ?it = Some (r3\<lparr>count := c\<rparr>, it')" for c
      using r3(1) by (simp add: leaf_put_entry_count)
    have cp: "leaf_split_right_copy l (int e) (int sp) 0 m = Some (if ksr = [] then int e else int (length (drop sp ks)), r2)"
      using r(1) cnt by simp
    show ?thesis
      unfolding leaf_split_right_def get_leaf_eq [OF n(1)] get_leaf_eq [OF pq(1)] get_leaf_eq [OF pq(2)] n(2) bind.simps Let_def c spl hole
        add cp prod.case adj [OF refl] put put_leaf_def tk by simp
  qed
  ultimately show ?thesis using right by blast
qed

lemma leaf_refilled_refits:
  assumes "leaf_refilled it l it1 l1 ks" "refits it1 l1 it2 l2" "lkey l2 = lkey l1"
  shows "leaf_refilled it l it2 l2 ks"
proof -
  have "l2 = (l\<lparr>lkey := lkey l1, ldata := ldata l1, tids := tids l1, count := int (length ks)\<rparr>)
      \<lparr>lkey := lkey l2, ldata := ldata l2, tids := tids l2\<rparr>"
    using assms(1,2) unfolding leaf_refilled_def refits_def by metis
  then have eq: "l2 = l\<lparr>lkey := lkey l2, ldata := ldata l2, tids := tids l2, count := int (length ks)\<rparr>"
    by (cases l; cases l2) simp
  have h: "leaf_holds it1 l1 ks" using assms(1) by (simp add: leaf_refilled_def)
  have "leaf_cells it2 l2" "\<forall>i. has_str l1 i \<longrightarrow> has_str l2 i" "dom it2 = dom it"
    using assms(1,2) unfolding leaf_refilled_def refits_def by blast+
  moreover have "count l2 = int (length ks)" by (subst eq) simp
  ultimately have "leaf_holds it2 l2 ks"
    using leaf_holds_cells [OF h] h assms(3) by (auto simp: leaf_holds_def leaf_wf_cells has_str_def)
  then show ?thesis using eq \<open>dom it2 = dom it\<close> unfolding leaf_refilled_def by blast
qed

lemma refits_count: "refits it l it' l' \<Longrightarrow> leaf_cells it' (l'\<lparr>count := c\<rparr>)"
  by (simp add: refits_def leaf_cells_def leaf_shape_def)

text \<open>The left leaf of \<^verbatim>\<open>leaf_split_left\<close> up to the end of its entries.\<close>

lemma leaf_split_left_fill:
  assumes l: "leaf_holds it l (ksl @ ksr)" and m: "leaf_cells it m" and d: "length (cstr data) \<le> 32"
    and sp: "length ksl < sp" "sp \<le> length ksl + length ksr" and ks: "ks = ksl @ k # ksr"
  shows "\<exists>i j l1 it1 l2 it2. leaf_split_left_copy l k data tid (int (length ksl)) (int sp) 0 0 m it = Some (i, j, l1, it1) \<and>
    i = int (sp - 1) \<and>
    (if j = int (length ksl) then do { (left, it) \<leftarrow> leaf_put_entry k data tid l1 j it1; Some (j + 1, left, it) }
     else Some (j, l1, it1)) = Some (int sp, l2, it2) \<and> filled it m 0 (take sp ks) it2 l2"
proof -
  let ?a = "length ksl" and ?b = "length ksr"
  note h = leaf_holds_cells [OF l]
  have le: "?a + ?b \<le> 50" and K: "take (length (ksl @ ksr)) (lkey l) = ksl @ ksr" using l by (auto simp: leaf_holds_def)
  have sh: "length (lkey m) = 50" using m by (simp add: leaf_cells_def leaf_shape_def)
  define j where "j = (if ?a < sp - 1 then sp else sp - 1)"
  have j: "j \<le> sp" "sp \<le> 50" "length (take j ks) = j" using sp le by (auto simp: j_def ks)
  have xs: "take j ks = left_keys (ksl @ ksr) k ?a sp 0 0"
    using left_keys_eq [of ksl sp ksr k] sp unfolding ks j_def by simp
  have "\<exists>left' it'. leaf_split_left_copy l k data tid (int ?a) (int sp) (int 0) (int 0) m it =
      Some (int (sp - 1), int (0 + length (take j ks)), left', it') \<and> filled it m 0 (take j ks) it' left'"
    by (rule leaf_split_left_copy_spec [OF _ _ K _ _ d m xs]) (use h sp le j in auto)
  then obtain l1 it1 where l1: "leaf_split_left_copy l k data tid (int ?a) (int sp) 0 0 m it = Some (int (sp - 1), int j, l1, it1)"
      "filled it m 0 (take j ks) it1 l1" using j(3) by auto
  show ?thesis
  proof (cases "?a < sp - 1")
    case True
    then have "j = sp" "int sp \<noteq> int ?a" by (auto simp: j_def)
    then show ?thesis using l1 by auto
  next
    case False
    then have a: "j = ?a" "sp = Suc ?a" using sp by (auto simp: j_def)
    obtain l2 it2 where l2: "leaf_put_entry k data tid l1 (int j) it1 = Some (l2, it2)" "filled it1 l1 j [k] it2 l2"
      using leaf_put_entry_spec [OF filled_cells(1) [OF l1(2)], of j data k tid] a j d by auto
    have lk: "lkey l2 = overwrite (lkey m) 0 (take sp ks)"
      using l1(2) l2(2) sh a j(2) by (simp add: filled_def overwrite_one ks overwrite_def list_update_append Cons_nth_drop_Suc [symmetric])
    have "has_str l2 x" if "x < sp" for x
      using that filled_has_str [OF l1(2), of x] filled_has_str [OF l2(2), of x] a j(3) by (cases "x = ?a") auto
    then have "filled it m 0 (take sp ks) it2 l2"
      unfolding filled_def using lk refits_trans [OF filled_refits [OF l1(2)] filled_refits [OF l2(2)]] by auto
    then show ?thesis using l1(1) l2(1) a by auto
  qed
qed

lemma leaf_split_left_spec:
  assumes n: "nodes s p = Some (Leaf l0)" "count l0 = count l"
    and add: "list_add_between (Link q) (prev (link l0)) (Link p) s = Some s1"
    and pq: "nodes s1 p = Some (Leaf l)" "nodes s1 q = Some (Leaf m)"
    and l: "leaf_holds (items s1) l (ksl @ ksr)" and m: "leaf_cells (items s1) m" and d: "length (cstr data) \<le> 32"
    and sp: "sp = Suc (length ksl + length ksr) div 2" "length ksl < sp" "sp \<le> length ksl + length ksr" and ks: "ks = ksl @ k # ksr"
  shows "\<exists>l' m' it'. leaf_split_left p q k data tid (int (length ksl)) s =
      Some (s1\<lparr>items := it', nodes := (nodes s1)(q \<mapsto> Leaf m', p \<mapsto> Leaf l')\<rparr>) \<and>
    leaf_refilled (items s1) l it' l' (drop sp ks) \<and> leaf_refilled (items s1) m it' m' (take sp ks)"
proof -
  let ?a = "length ksl" and ?b = "length ksr" and ?it = "items s1"
  note h = leaf_holds_cells [OF l]
  have c: "count l = int (?a + ?b)" and K: "take (?a + ?b) (lkey l) = ksl @ ksr" and le: "?a + ?b \<le> 50"
    using l by (auto simp: leaf_holds_def)
  have sh: "length (lkey m) = 50" "length (lkey l) = 50" using m h by (auto simp: leaf_cells_def leaf_shape_def)
  obtain j l1 it1 l2 it2 where fill: "leaf_split_left_copy l k data tid (int ?a) (int sp) 0 0 m ?it = Some (int (sp - 1), j, l1, it1)"
    "(if j = int ?a then do { (left, it) \<leftarrow> leaf_put_entry k data tid l1 j it1; Some (j + 1, left, it) }
     else Some (j, l1, it1)) = Some (int sp, l2, it2)" "filled ?it m 0 (take sp ks) it2 l2"
    using leaf_split_left_fill [OF l m d sp(2,3) ks, of tid] by blast
  let ?xs = "drop sp ks"
  have xs: "?xs = drop (sp - 1) (ksl @ ksr)" "length ?xs = Suc (?a + ?b) - sp" using sp(2) by (auto simp: ks drop_Cons')
  have tk: "length (take sp ks) = sp" using sp(2,3) by (simp add: ks)
  have left1: "leaf_refilled ?it m it2 (l2\<lparr>count := int sp\<rparr>) (take sp ks)"
    using leaf_refilledI [OF filled_refits [OF fill(3)], of "take sp ks"] filled_has_str(2) [OF fill(3)] fill(3) tk sp le sh
    by (simp add: filled_def overwrite_def)
  have i: "sp - 1 + length ?xs = ?a + ?b" using xs(2) sp(2,3) by simp
  have "\<exists>leaf' left'. leaf_split_left_shift (int (sp - 1 + length ?xs)) (int (sp - 1)) (int 0) l (l2\<lparr>count := int sp\<rparr>) =
      Some (int (0 + length ?xs), leaf', left') \<and> refits it2 l it2 leaf' \<and> lkey leaf' = overwrite (lkey l) 0 ?xs \<and>
    refits it2 (l2\<lparr>count := int sp\<rparr>) it2 left' \<and> lkey left' = lkey (l2\<lparr>count := int sp\<rparr>)"
  proof (rule leaf_split_left_shift_spec)
    show "leaf_cells it2 l" using filled_cells(2) [OF fill(3)] h by blast
    show "leaf_cells it2 (l2\<lparr>count := int sp\<rparr>)" using refits_count [OF filled_refits [OF fill(3)]] .
    show "take (length ?xs) (drop (sp - 1) (lkey l)) = ?xs"
      using take_part [OF K, of "sp - 1" "length ?xs", folded xs(1)] i by simp
  qed (use h i le in auto)
  then obtain leaf' left' where shift: "leaf_split_left_shift (int (?a + ?b)) (int (sp - 1)) 0 l (l2\<lparr>count := int sp\<rparr>) =
      Some (int (length ?xs), leaf', left')" "refits it2 l it2 leaf'" "lkey leaf' = overwrite (lkey l) 0 ?xs"
    "refits it2 (l2\<lparr>count := int sp\<rparr>) it2 left'" "lkey left' = lkey l2" unfolding i by auto
  have left: "leaf_refilled ?it m it2 left' (take sp ks)"
    using leaf_refilled_refits [OF left1 shift(4)] shift(5) by simp
  have "refits ?it l it2 l"
    using filled_cells(2) [OF fill(3)] filled_refits [OF fill(3)] h by (simp add: refits_def)
  then have "leaf_refilled ?it l it2 (leaf'\<lparr>count := int (length ?xs)\<rparr>) ?xs"
    using shift(2,3) h i le sh sp by (intro leaf_refilledI) (auto intro: refits_trans simp: overwrite_def refits_def xs(2))
  moreover have "leaf_split_left p q k data tid (int ?a) s =
      Some (s1\<lparr>items := it2, nodes := (nodes s1)(q \<mapsto> Leaf left', p \<mapsto> Leaf (leaf'\<lparr>count := int (length ?xs)\<rparr>))\<rparr>)"
  proof -
    have spl: "c_div (int (?a + ?b) + 1) 2 = int sp" using sp(1) by simp
    show ?thesis
      unfolding leaf_split_left_def get_leaf_eq [OF n(1)] get_leaf_eq [OF pq(1)] get_leaf_eq [OF pq(2)] n(2) bind.simps Let_def c spl
        add fill(1,2) prod.case shift(1) put_leaf_def by simp
  qed
  ultimately show ?thesis using left by blast
qed

subsection \<open>New nodes\<close>

lemma non_leaf_new_spec:
  assumes "heap_ok s"
  shows "\<exists>n. non_leaf_new s = Some (next_ptr s,
      s\<lparr>next_ptr := Suc (next_ptr s), nodes := (nodes s)(next_ptr s \<mapsto> NonLeaf n)\<rparr>) \<and>
    non_leaf_shape n \<and> node_type n = BPLUS_TREE_NON_LEAF \<and> parent_key_idx n = -1 \<and> parent n = None"
proof -
  let ?p = "next_ptr s"
  let ?n = "(bplus_non_leaf_init (raw_non_leaf s ?p))\<lparr>link := (link (raw_non_leaf s ?p))\<lparr>prev := Link ?p, next := Link ?p\<rparr>,
      node_type := BPLUS_TREE_NON_LEAF, parent_key_idx := -1\<rparr>"
  have "non_leaf_new s = Some (?p, s\<lparr>next_ptr := Suc ?p, nodes := (nodes s)(?p \<mapsto> NonLeaf ?n)\<rparr>)"
    by (simp add: non_leaf_new_def Let_def list_init_def put_prev_def put_next_def put_link_def get_link_def get_node_def
        upd_node_def put_non_leaf_def get_non_leaf_def bplus_node.defs bplus_non_leaf_init_def)
  moreover have "non_leaf_shape ?n" using assms by (simp add: heap_ok_def non_leaf_shape_def bplus_non_leaf_init_def)
  moreover have "parent ?n = None" by (simp add: bplus_non_leaf_init_def)
  ultimately show ?thesis by (intro exI [of _ ?n]) simp
qed

text \<open>One round of the loop that allocates the item pointers of a new leaf.\<close>

definition alloc_item :: "ptr \<Rightarrow> heap \<Rightarrow> nat \<Rightarrow> heap" where
  "alloc_item p s i = s\<lparr>items := (items s)(next_ptr s \<mapsto> raw_item s (next_ptr s)),
     nodes := (nodes s)(p := map_option
        (\<lambda>nd. case nd of Leaf l \<Rightarrow> Leaf (l\<lparr>tids := (tids l)[i := Some (next_ptr s)]\<rparr>)
                       | NonLeaf n \<Rightarrow> NonLeaf n) (nodes s p)),
     next_ptr := Suc (next_ptr s)\<rparr>"

lemma new_items_upto:
  assumes "nodes s p = Some (Leaf l)" "k \<le> length (tids l)"
  shows "\<exists>it. foldl (alloc_item p) s [0..<k] =
      s\<lparr>items := it, nodes := (nodes s)(p \<mapsto> Leaf (l\<lparr>tids := map Some [next_ptr s..<next_ptr s + k] @ drop k (tids l)\<rparr>)),
        next_ptr := next_ptr s + k\<rparr> \<and>
    dom it = dom (items s) \<union> {next_ptr s..<next_ptr s + k}"
  using assms(2)
proof (induction k)
  case 0
  then show ?case using assms(1) by (intro exI [of _ "items s"]) (simp add: fun_upd_idem)
next
  case (Suc k)
  let ?l = "l\<lparr>tids := map Some [next_ptr s..<next_ptr s + k] @ drop k (tids l)\<rparr>"
  from Suc obtain it where it: "foldl (alloc_item p) s [0..<k] =
      s\<lparr>items := it, nodes := (nodes s)(p \<mapsto> Leaf ?l), next_ptr := next_ptr s + k\<rparr>"
    "dom it = dom (items s) \<union> {next_ptr s..<next_ptr s + k}" by (metis Suc_leD)
  have "(map Some [next_ptr s..<next_ptr s + k] @ drop k (tids l))[k := Some (next_ptr s + k)] =
      map Some [next_ptr s..<next_ptr s + Suc k] @ drop (Suc k) (tids l)"
    using Suc.prems by (simp add: list_update_append Cons_nth_drop_Suc [symmetric])
  then have "alloc_item p (s\<lparr>items := it, nodes := (nodes s)(p \<mapsto> Leaf ?l), next_ptr := next_ptr s + k\<rparr>) k =
      s\<lparr>items := it(next_ptr s + k \<mapsto> raw_item s (next_ptr s + k)),
        nodes := (nodes s)(p \<mapsto> Leaf (l\<lparr>tids := map Some [next_ptr s..<next_ptr s + Suc k] @ drop (Suc k) (tids l)\<rparr>)),
        next_ptr := next_ptr s + Suc k\<rparr>"
    by (simp add: alloc_item_def)
  moreover have "foldl (alloc_item p) s [0..<Suc k] = alloc_item p (foldl (alloc_item p) s [0..<k]) k" by simp
  moreover have "dom (it(next_ptr s + k \<mapsto> raw_item s (next_ptr s + k))) = dom (items s) \<union> {next_ptr s..<next_ptr s + Suc k}"
    using it(2) by auto
  ultimately show ?case unfolding it(1) by metis
qed

lemma new_items_alloc: "new_items p s = foldl (alloc_item p) s [0..<50]"
  unfolding new_items_def alloc_item_def by (rule refl)

lemma leaf_new_spec:
  assumes "heap_ok s"
  shows "\<exists>l it. leaf_new s = Some (next_ptr s,
      s\<lparr>items := it, nodes := (nodes s)(next_ptr s \<mapsto> Leaf l), next_ptr := next_ptr s + 51\<rparr>) \<and>
    leaf_cells it l \<and> dom (items s) \<subseteq> dom it \<and> node_type l = BPLUS_TREE_LEAF \<and> parent_key_idx l = -1 \<and> parent l = None"
proof -
  let ?p = "next_ptr s"
  let ?l = "(bplus_leaf_init (raw_leaf s ?p))\<lparr>link := (link (raw_leaf s ?p))\<lparr>prev := Link ?p, next := Link ?p\<rparr>,
      node_type := BPLUS_TREE_LEAF, parent_key_idx := -1\<rparr>"
  let ?s = "s\<lparr>next_ptr := Suc ?p, nodes := (nodes s)(?p \<mapsto> Leaf ?l)\<rparr>"
  have sh: "leaf_shape ?l" using assms by (simp add: heap_ok_def bplus_leaf_init_def leaf_shape_def)
  let ?l' = "?l\<lparr>tids := map Some [Suc ?p..<Suc ?p + 50]\<rparr>"
  have "\<exists>it. foldl (alloc_item ?p) ?s [0..<50] = ?s\<lparr>items := it,
        nodes := (nodes ?s)(?p \<mapsto> Leaf (?l\<lparr>tids := map Some [next_ptr ?s..<next_ptr ?s + 50] @ drop 50 (tids ?l)\<rparr>)),
        next_ptr := next_ptr ?s + 50\<rparr> \<and>
      dom it = dom (items ?s) \<union> {next_ptr ?s..<next_ptr ?s + 50}"
    by (rule new_items_upto) (use sh in \<open>auto simp: leaf_shape_def\<close>)
  then obtain it where it: "foldl (alloc_item ?p) ?s [0..<50] = ?s\<lparr>items := it,
        nodes := (nodes s)(?p \<mapsto> Leaf ?l'), next_ptr := Suc ?p + 50\<rparr>"
      "dom it = dom (items s) \<union> {Suc ?p..<Suc ?p + 50}"
    using sh by (auto simp: leaf_shape_def)
  have "leaf_cells it ?l'" using sh it(2) by (auto simp: leaf_cells_def leaf_shape_def dom_def)
  moreover have "leaf_new s = Some (?p, s\<lparr>items := it, nodes := (nodes s)(?p \<mapsto> Leaf ?l'), next_ptr := ?p + 51\<rparr>)"
    using it(1)
    by (simp add: leaf_new_def Let_def list_init_def put_prev_def put_next_def put_link_def get_link_def get_node_def
        upd_node_def put_leaf_def get_leaf_def bplus_node.defs bplus_leaf_init_def new_items_alloc add.commute)
  ultimately show ?thesis using it(2) by (intro exI [of _ ?l'] exI [of _ it]) (simp add: bplus_leaf_init_def)
qed

end
