(* ===== verification/MBT_Context.thy ===== *)
theory MBT_Context
  imports MBT_Grow
begin

text \<open>
  A tree with a hole. A frame is a non-leaf node without one of its children, a context the frames from the hole
  up to the root; \<open>plug\<close> fills the hole. Each part of \<open>tree_rep\<close> splits into a part about the subtree in the
  hole and a part about the context. The descent of an insertion reaches a leaf whose context has the key
  between its separators.
\<close>

subsection \<open>Contexts\<close>

datatype frame = Frame ptr "atree list" "int list" "int list" "atree list"

fun plug :: "frame list \<Rightarrow> atree \<Rightarrow> atree" where
  "plug [] t = t"
| "plug (Frame p ul kl kr ur # C) t = plug C (ANode p (ul @ t # ur) (kl @ kr))"

fun cwf :: "frame list \<Rightarrow> bool" where
  "cwf [] \<longleftrightarrow> True"
| "cwf (Frame p ul kl kr ur # C) \<longleftrightarrow> length kl = length ul \<and> length kr = length ur \<and> cwf C"

fun cpar :: "frame list \<Rightarrow> ptr option" where
  "cpar [] = None"
| "cpar (Frame p ul kl kr ur # C) = Some p"

fun cidx :: "frame list \<Rightarrow> int" where
  "cidx [] = -1"
| "cidx (Frame p ul kl kr ur # C) = int (length ul) - 1"

fun croot :: "frame list \<Rightarrow> ptr \<Rightarrow> ptr" where
  "croot [] c = c"
| "croot (Frame p ul kl kr ur # C) c = croot C p"

fun crepr :: "(ptr \<Rightarrow> node option) \<Rightarrow> item_store \<Rightarrow> frame list \<Rightarrow> ptr \<Rightarrow> bool" where
  "crepr N it [] c \<longleftrightarrow> True"
| "crepr N it (Frame p ul kl kr ur # C) c \<longleftrightarrow>
     non_leaf_at (N p) (cpar C) (cidx C) (map root_ptr ul @ c # map root_ptr ur) (kl @ kr) \<and>
     reprs N it p 0 ul \<and> reprs N it p (int (length ul) + 1) ur \<and> crepr N it C p"

fun cptrs :: "frame list \<Rightarrow> ptr list" where
  "cptrs [] = []"
| "cptrs (Frame p ul kl kr ur # C) = p # concat (map ptrs ul) @ concat (map ptrs ur) @ cptrs C"

fun ckl :: "frame list \<Rightarrow> int list" where
  "ckl [] = []"
| "ckl (Frame p ul kl kr ur # C) = ckl C @ concat (map keys ul)"

fun ckr :: "frame list \<Rightarrow> int list" where
  "ckr [] = []"
| "ckr (Frame p ul kl kr ur # C) = concat (map keys ur) @ ckr C"

text \<open>The separators around the hole; \<open>lo\<close> and \<open>hi\<close> are those around the whole tree.\<close>

definition lastb :: "int option \<Rightarrow> int list \<Rightarrow> int option" where
  "lastb lo ks = (if ks = [] then lo else Some (last ks))"

definition hdb :: "int option \<Rightarrow> int list \<Rightarrow> int option" where
  "hdb hi ks = (case ks of [] \<Rightarrow> hi | k # _ \<Rightarrow> Some k)"

fun clo :: "int option \<Rightarrow> frame list \<Rightarrow> int option" where
  "clo lo [] = lo"
| "clo lo (Frame p ul kl kr ur # C) = lastb (clo lo C) kl"

fun chi :: "int option \<Rightarrow> frame list \<Rightarrow> int option" where
  "chi hi [] = hi"
| "chi hi (Frame p ul kl kr ur # C) = hdb (chi hi C) kr"

fun left_ordered :: "int option \<Rightarrow> atree list \<Rightarrow> int list \<Rightarrow> bool" where
  "left_ordered lo (t # ts) (k # ks) \<longleftrightarrow> olt lo (Some k) \<and> ordered lo (Some k) t \<and> left_ordered (Some k) ts ks"
| "left_ordered lo _ _ \<longleftrightarrow> True"

definition right_ordered :: "int option \<Rightarrow> atree list \<Rightarrow> int list \<Rightarrow> bool" where
  "right_ordered hi ts ks \<longleftrightarrow> (case ks of [] \<Rightarrow> True | k # ks' \<Rightarrow> ordereds (Some k) hi ts ks')"

fun cord :: "frame list \<Rightarrow> bool" where
  "cord [] \<longleftrightarrow> True"
| "cord (Frame p ul kl kr ur # C) \<longleftrightarrow>
     left_ordered (clo None C) ul kl \<and> right_ordered (chi None C) ur kr \<and> cord C"

fun cbal :: "nat \<Rightarrow> frame list \<Rightarrow> bool" where
  "cbal h [] \<longleftrightarrow> True"
| "cbal h (Frame p ul kl kr ur # C) \<longleftrightarrow> (\<forall>t \<in> set ul \<union> set ur. balanced h t) \<and> cbal (Suc h) C"

fun csized :: "nat \<Rightarrow> nat \<Rightarrow> frame list \<Rightarrow> bool" where
  "csized ord ent [] \<longleftrightarrow> True"
| "csized ord ent (Frame p ul kl kr ur # C) \<longleftrightarrow>
     (if C = [] then 2 else min_children ord) \<le> Suc (length ul + length ur) \<and> Suc (length ul + length ur) \<le> ord \<and>
     (\<forall>t \<in> set ul \<union> set ur. sized ord ent False t) \<and> csized ord ent C"

text \<open>The parts of the list of level \<open>i\<close> to the left and to the right of a hole of height \<open>h\<close>.\<close>

fun cleft :: "nat \<Rightarrow> frame list \<Rightarrow> nat \<Rightarrow> ptr list" where
  "cleft h [] i = []"
| "cleft h (Frame p ul kl kr ur # C) i =
     cleft (Suc h) C i @ (if i = Suc h then [p] else concat (map (level_ptrs h i) ul))"

fun cright :: "nat \<Rightarrow> frame list \<Rightarrow> nat \<Rightarrow> ptr list" where
  "cright h [] i = []"
| "cright h (Frame p ul kl kr ur # C) i =
     (if i = Suc h then [] else concat (map (level_ptrs h i) ur)) @ cright (Suc h) C i"

lemma reprs_append:
  "reprs N it p i (ts @ us) \<longleftrightarrow> reprs N it p i ts \<and> reprs N it p (i + int (length ts)) us"
  by (induction ts arbitrary: i) (auto simp: algebra_simps)

lemma repr_plug:
  "repr N it None (-1) (plug C t) \<longleftrightarrow> repr N it (cpar C) (cidx C) t \<and> crepr N it C (root_ptr t)"
proof (induction C arbitrary: t)
  case (Cons F C)
  then show ?case by (cases F) (auto simp: reprs_append algebra_simps)
qed simp

lemma root_plug: "root_ptr (plug C t) = croot C (root_ptr t)"
proof (induction C arbitrary: t)
  case (Cons F C)
  then show ?case by (cases F) simp
qed simp

lemma keys_plug: "keys (plug C t) = ckl C @ keys t @ ckr C"
proof (induction C arbitrary: t)
  case (Cons F C)
  then show ?case by (cases F) simp
qed simp

lemma distinct_plug: "distinct (ptrs (plug C t)) \<longleftrightarrow> distinct (ptrs t @ cptrs C)"
proof (induction C arbitrary: t)
  case (Cons F C)
  then show ?case by (cases F) (auto simp: ac_simps)
qed simp

lemma balanced_plug: "balanced (h + length C) (plug C t) \<longleftrightarrow> balanced h t \<and> cbal h C"
proof (induction C arbitrary: h t)
  case (Cons F C)
  obtain p ul kl kr ur where F: "F = Frame p ul kl kr ur" by (cases F)
  show ?case using Cons.IH [of "Suc h" "ANode p (ul @ t # ur) (kl @ kr)"] F by auto
qed simp

lemma sized_plug: "sized ord ent True (plug C t) \<longleftrightarrow> sized ord ent (C = []) t \<and> csized ord ent C"
proof (induction C arbitrary: t)
  case (Cons F C)
  obtain p ul kl kr ur where F: "F = Frame p ul kl kr ur" by (cases F)
  show ?case using Cons.IH [of "ANode p (ul @ t # ur) (kl @ kr)"] F by auto
qed simp

lemma level_ptrs_above: "h < i \<Longrightarrow> level_ptrs h i t = []"
proof (induction h i t rule: level_ptrs.induct)
  case (2 h l p ts ks)
  then have "level_ptrs (h - 1) l t = []" if "t \<in> set ts" for t using that by auto
  then show ?case using 2(2) by auto
qed simp

lemma level_plug: "level_ptrs (h + length C) i (plug C t) = cleft h C i @ level_ptrs h i t @ cright h C i"
proof (induction C arbitrary: h t)
  case (Cons F C)
  obtain p ul kl kr ur where F: "F = Frame p ul kl kr ur" by (cases F)
  show ?case
    using Cons.IH [of "Suc h" "ANode p (ul @ t # ur) (kl @ kr)"] F by (auto simp: level_ptrs_above)
qed simp

lemma ordereds_left:
  assumes "length kl = length ul"
  shows "ordereds lo hi (ul @ ts) (kl @ ks) \<longleftrightarrow> left_ordered lo ul kl \<and> ordereds (lastb lo kl) hi ts ks"
  using assms
proof (induction ul arbitrary: lo kl)
  case Nil
  then show ?case by (simp add: lastb_def)
next
  case (Cons u ul)
  then obtain k kl' where kl: "kl = k # kl'" "length kl' = length ul" by (cases kl) auto
  have "lastb lo (k # kl') = lastb (Some k) kl'" by (simp add: lastb_def)
  then show ?case using Cons.IH [OF kl(2), of "Some k"] kl by auto
qed

lemma ordereds_right:
  assumes "length kr = length ur" "length ts = Suc (length ks)"
  shows "ordereds lo hi (ts @ ur) (ks @ kr) \<longleftrightarrow> ordereds lo (hdb hi kr) ts ks \<and> right_ordered hi ur kr"
proof (cases kr)
  case Nil
  then show ?thesis using assms by (simp add: hdb_def right_ordered_def)
next
  case (Cons k kr')
  then show ?thesis using ordereds_append [OF assms(2)] by (simp add: hdb_def right_ordered_def)
qed

text \<open>A node with the children \<open>ts\<close> and keys \<open>ks\<close> in place of one child.\<close>

lemma ordereds_hole:
  assumes "length kl = length ul" "length kr = length ur" "length ts = Suc (length ks)"
  shows "ordereds lo hi (ul @ ts @ ur) (kl @ ks @ kr) \<longleftrightarrow>
    left_ordered lo ul kl \<and> ordereds (lastb lo kl) (hdb hi kr) ts ks \<and> right_ordered hi ur kr"
  using ordereds_left [OF assms(1), of lo hi "ts @ ur" "ks @ kr"] ordereds_right [OF assms(2,3)] by auto

lemma ordered_plug:
  "cwf C \<Longrightarrow> ordered None None (plug C t) \<longleftrightarrow>
     olt (clo None C) (chi None C) \<and> ordered (clo None C) (chi None C) t \<and> cord C"
proof (induction C arbitrary: t)
  case (Cons F C)
  obtain p ul kl kr ur where F: "F = Frame p ul kl kr ur" by (cases F)
  have len: "length kl = length ul" "length kr = length ur" "cwf C" using Cons.prems F by auto
  show ?case
    using Cons.IH [OF len(3), of "ANode p (ul @ t # ur) (kl @ kr)"]
      ordereds_hole [OF len(1,2), of "[t]" "[]" "clo None C" "chi None C"] ordereds_olt [of "clo None C" "chi None C"] F
    by auto
qed simp

lemma crepr_cong:
  assumes "\<And>q. q \<in> set (cptrs C) \<Longrightarrow> N' q = N q"
  shows "crepr N' it C c = crepr N it C c"
  using assms
proof (induction C arbitrary: c)
  case (Cons F C)
  obtain p ul kl kr ur where F: "F = Frame p ul kl kr ur" by (cases F)
  have "N' p = N p" "reprs N' it p 0 ul = reprs N it p 0 ul"
    "reprs N' it p (int (length ul) + 1) ur = reprs N it p (int (length ul) + 1) ur"
    using Cons.prems F by (auto intro!: repr_cong(2))
  moreover have "crepr N' it C p = crepr N it C p" by (rule Cons.IH) (use Cons.prems F in auto)
  ultimately show ?case using F by simp
qed simp

lemma crepr_items:
  "crepr N it C c \<Longrightarrow> dom it \<subseteq> dom it' \<Longrightarrow> crepr N it' C c"
proof (induction C arbitrary: c)
  case (Cons F C)
  then show ?case by (cases F) (auto intro: repr_items)
qed simp

lemma crepr_unlink:
  "(\<And>q. map_option unlink (N' q) = map_option unlink (N q)) \<Longrightarrow> crepr N' it C c = crepr N it C c"
proof (induction C arbitrary: c)
  case (Cons F C)
  obtain p ul kl kr ur where F: "F = Frame p ul kl kr ur" by (cases F)
  show ?case
    using Cons repr_unlink(2) [of N' N] non_leaf_at_unlink [of "N p"] non_leaf_at_unlink [of "N' p"] F by simp
qed simp

text \<open>What is represented is allocated.\<close>

lemma repr_some:
  "repr N it par idx t \<Longrightarrow> q \<in> set (ptrs t) \<Longrightarrow> N q \<noteq> None"
  "reprs N it p i ts \<Longrightarrow> q \<in> set (concat (map ptrs ts)) \<Longrightarrow> N q \<noteq> None"
  by (induction N it par idx t and N it p i ts rule: repr_reprs.induct)
    (auto simp: leaf_at_def non_leaf_at_def)

lemma crepr_some: "crepr N it C c \<Longrightarrow> q \<in> set (cptrs C) \<Longrightarrow> N q \<noteq> None"
proof (induction C arbitrary: c)
  case (Cons F C)
  obtain p ul kl kr ur where F: "F = Frame p ul kl kr ur" by (cases F)
  show ?case using Cons F repr_some(2) by (fastforce simp: non_leaf_at_def)
qed simp

lemma plug_append: "plug (C @ D) t = plug D (plug C t)"
proof (induction C arbitrary: t)
  case (Cons F C)
  then show ?case by (cases F) simp
qed simp

lemma clo_append: "clo lo (C @ D) = clo (clo lo D) C" "chi hi (C @ D) = chi (chi hi D) C"
proof (induction C)
  case (Cons F C)
  { case 1 then show ?case using Cons by (cases F) simp }
  { case 2 then show ?case using Cons by (cases F) simp }
qed simp_all

lemma cwf_append: "cwf (C @ D) \<longleftrightarrow> cwf C \<and> cwf D"
proof (induction C)
  case (Cons F C)
  then show ?case by (cases F) auto
qed simp

subsection \<open>The way down\<close>

lemma in_range_hole:
  assumes "in_range lo hi key" and i: "i = length (takeWhile (\<lambda>k. k \<le> key) ks)"
  shows "in_range (lastb lo (take i ks)) (hdb hi (drop i ks)) key"
proof -
  have tk: "take i ks = takeWhile (\<lambda>k. k \<le> key) ks" unfolding i by (simp add: takeWhile_eq_take [symmetric])
  have "last (take i ks) \<le> key" if "take i ks \<noteq> []"
    using set_takeWhileD [OF last_in_set [OF that, unfolded tk]] unfolding tk by simp
  moreover have "key < k" if "drop i ks = k # r" for k r
    using that hd_dropWhile [of "\<lambda>k. k \<le> key" ks] unfolding i dropWhile_eq_drop [symmetric] by simp
  ultimately show ?thesis
    using assms(1) by (auto simp: in_range_def lastb_def hdb_def split: list.splits option.splits)
qed

lemma take_nth_drop: "i < length xs \<Longrightarrow> xs = take i xs @ xs ! i # drop (Suc i) xs"
  by (simp add: Cons_nth_drop_Suc)

lemma descend_repr:
  assumes "repr N it par idx (ANode p ts ks)" "sorted_wrt (<) ks" and i: "i = length (takeWhile (\<lambda>k. k \<le> key) ks)"
  shows "\<exists>n. N p = Some (NonLeaf n) \<and> node_type n = BPLUS_TREE_NON_LEAF \<and>
    descend n key = Some (Some (root_ptr (ts ! i))) \<and> i < length ts \<and> length ts = Suc (length ks)"
proof -
  obtain n where n: "N p = Some (NonLeaf n)" "non_leaf_shape n" "node_type n = BPLUS_TREE_NON_LEAF"
      "count n = int (length ts)" "length ts = Suc (length ks)" "length ts \<le> 50" "take (length ks) (nkey n) = ks"
      "take (length ts) (sub_ptr n) = map Some (map root_ptr ts)"
    using assms(1) by (auto simp: non_leaf_at_def)
  have il: "i < length ts" using n(5) length_takeWhile_le [of "\<lambda>k. k \<le> key" ks] i by simp
  have "sub_ptr n ! i = take (length ts) (sub_ptr n) ! i" using il by simp
  also have "\<dots> = Some (root_ptr (ts ! i))" unfolding n(8) using il by simp
  finally have "descend n key = Some (Some (root_ptr (ts ! i)))"
    using descend_eq [of ks n key] n(2,4-7) assms(2) i by (simp add: non_leaf_shape_def)
  then show ?thesis using n il by blast
qed

lemma insert_loop_reaches:
  assumes "repr (nodes s) it par idx t" "ordered lo hi t" "in_range lo hi key" "balanced h t" "h < fuel"
  shows "\<exists>C p ks. t = plug C (ALeaf p ks) \<and> cwf C \<and> length C = h \<and> in_range (clo lo C) (chi hi C) key \<and>
    insert_loop fuel (Some (root_ptr t)) key data tid s = leaf_insert p key data tid s"
  using assms
proof (induction fuel arbitrary: t lo hi par idx h)
  case (Suc fuel)
  show ?case
  proof (cases t)
    case (ALeaf p ks)
    then have "insert_loop (Suc fuel) (Some (root_ptr t)) key data tid s = leaf_insert p key data tid s"
      using Suc.prems(1) by (auto simp: leaf_at_def get_node_def bplus_node.defs is_leaf_def)
    then show ?thesis using Suc.prems(3,4) ALeaf by (intro exI [of _ "[]"]) auto
  next
    case (ANode p ts ks)
    let ?i = "length (takeWhile (\<lambda>k. k \<le> key) ks)"
    have ord: "ordereds lo hi ts ks" using Suc.prems(2) ANode by simp
    have "sorted_wrt (<) ks" using ordereds_keys_sorted [OF ord] by blast
    from descend_repr [OF Suc.prems(1) [unfolded ANode] this refl, of key]
    obtain n where n: "nodes s p = Some (NonLeaf n)" "node_type n = BPLUS_TREE_NON_LEAF"
      "descend n key = Some (Some (root_ptr (ts ! ?i)))" "?i < length ts" "length ts = Suc (length ks)" by blast
    define u where "u = ts ! ?i"
    define F where "F = Frame p (take ?i ts) (take ?i ks) (drop ?i ks) (drop (Suc ?i) ts)"
    have ts: "ts = take ?i ts @ u # drop (Suc ?i) ts" unfolding u_def by (rule take_nth_drop [OF n(4)])
    have wf: "cwf [F]" using n(4,5) by (simp add: F_def)
    have t: "t = plug [F] u" using ts ANode by (simp add: F_def)
    have oru: "ordered (lastb lo (take ?i ks)) (hdb hi (drop ?i ks)) u"
      using ordereds_hole [of "take ?i ks" "take ?i ts" "drop ?i ks" "drop (Suc ?i) ts" "[u]" "[]" lo hi] ord ts wf
      by (simp add: F_def)
    have "reprs (nodes s) it p 0 (take ?i ts @ u # drop (Suc ?i) ts)" using Suc.prems(1) ANode ts by simp
    then have ru: "repr (nodes s) it (Some p) (int (length (take ?i ts)) - 1) u" by (simp only: reprs_append reprs.simps) simp
    obtain h' where h: "h = Suc h'" "balanced h' u"
      using Suc.prems(4) ANode n(4) by (cases h) (auto simp: u_def)
    have fuel: "h' < fuel" using Suc.prems(5) h(1) by simp
    from Suc.IH [OF ru oru in_range_hole [OF Suc.prems(3) refl] h(2) fuel]
    obtain C q ls where C: "u = plug C (ALeaf q ls)" "cwf C" "length C = h'"
      "in_range (clo (clo lo [F]) C) (chi (chi hi [F]) C) key"
      "insert_loop fuel (Some (root_ptr u)) key data tid s = leaf_insert q key data tid s"
      by (auto simp: F_def)
    have "insert_loop (Suc fuel) (Some (root_ptr t)) key data tid s = leaf_insert q key data tid s"
      using n(1-3) C(5) ANode
      by (simp add: get_node_def get_non_leaf_eq bplus_node.defs is_leaf_def BPLUS_TREE_LEAF_def BPLUS_TREE_NON_LEAF_def u_def)
    then show ?thesis
      using t C wf h(1) by (intro exI [of _ "C @ [F]"] exI [of _ q] exI [of _ ls]) (simp add: plug_append clo_append cwf_append)
  qed
qed simp

end
