(* ===== verification/MBT_Inserted.thy ===== *)
theory MBT_Inserted
  imports MBT_Context
begin

text \<open>
  \<^verbatim>\<open>bplus_tree_insert\<close> keeps the tree: it ends, it adds the key if it is new and returns -1 otherwise, and the
  heap holds a B+ tree again. \<open>growing\<close> describes the heap while an insertion is on its way up: a subtree has been
  replaced by two with a separator between them, and the node above does not know yet.
\<close>

subsection \<open>Lists of the levels\<close>

lemma level_ptrs_subset: "set (level_ptrs h i t) \<subseteq> set (ptrs t)"
proof (induction h i t rule: level_ptrs.induct)
  case (2 h l p ts ks)
  then have "set (level_ptrs (h - 1) l t) \<subseteq> set (ptrs t)" if "t \<in> set ts" "l \<noteq> h" for t using that by blast
  then show ?case by auto
qed auto

lemma level_ptrs_distinct: "distinct (ptrs t) \<Longrightarrow> distinct (level_ptrs h i t)"
proof (induction h i t rule: level_ptrs.induct)
  case (2 h l p ts ks)
  have "distinct (concat (map (level_ptrs (h - 1) l) ts))"
    if "distinct (concat (map ptrs ts))" "\<forall>t \<in> set ts. distinct (ptrs t) \<longrightarrow> distinct (level_ptrs (h - 1) l t)"
    using that
  proof (induction ts)
    case (Cons t ts)
    have "set (concat (map (level_ptrs (h - 1) l) ts)) \<subseteq> set (concat (map ptrs ts))"
      using level_ptrs_subset by fastforce
    then have "set (level_ptrs (h - 1) l t) \<inter> set (concat (map (level_ptrs (h - 1) l) ts)) = {}"
      using level_ptrs_subset [of "h - 1" l t] Cons.prems(1) by (simp del: set_concat) blast
    then show ?case using Cons by (simp del: set_concat)
  qed simp
  then show ?case using 2 by auto
qed simp

lemma level_ptrs_disjoint:
  "distinct (ptrs t) \<Longrightarrow> i \<noteq> j \<Longrightarrow> set (level_ptrs h i t) \<inter> set (level_ptrs h j t) = {}"
proof (induction h i t rule: level_ptrs.induct)
  case (2 h i p ts ks)
  have sub: "set (level_ptrs (h - 1) x u) \<subseteq> set (ptrs u)" for x u by (rule level_ptrs_subset)
  have p: "p \<notin> set (level_ptrs (h - 1) x u)" if "u \<in> set ts" for x u
    using 2(2) that sub by fastforce
  have "set (level_ptrs (h - 1) i u) \<inter> set (level_ptrs (h - 1) j v) = {}"
    if uv: "u \<in> set ts" "v \<in> set ts" "i \<noteq> h" for u v
  proof (cases "u = v")
    case True
    have "distinct (ptrs u)" using 2(2) uv(1) by (auto simp: distinct_concat_iff)
    then show ?thesis using True 2(1) [OF uv(3) uv(1)] 2(3) by blast
  next
    case False
    then have "set (ptrs u) \<inter> set (ptrs v) = {}"
    proof -
      have "distinct (concat (map ptrs ts))" using 2(2) by simp
      then show ?thesis using uv False
      proof (induction ts)
        case (Cons t ts)
        then show ?case by auto
      qed simp
    qed
    then show ?thesis using sub by blast
  qed
  then show ?case using p 2(3) by (cases "i = h"; cases "j = h") auto
qed auto

lemma lists_ok_tree: "distinct (ptrs t) \<Longrightarrow> lists_ok (\<lambda>i. level_ptrs h i t)"
  by (simp add: lists_ok_def level_ptrs_distinct level_ptrs_disjoint)

lemma rings_fresh:
  assumes "rings s P" "nodes s q = None" "\<forall>x. x \<noteq> q \<longrightarrow> nodes s' x = nodes s x" "levels (tree s') = levels (tree s)"
  shows "rings s' P"
  unfolding rings_def
proof (intro allI impI)
  fix i assume i: "i < BPLUS_MAX_LEVEL"
  have dl: "dl (get_link s) (Head i) (map Link (P i)) (Head i)" using assms(1) i by (simp add: rings_def)
  have "get_link s' r = get_link s r" if "r \<in> set (Head i # Head i # map Link (P i))" for r
  proof -
    have "\<exists>h. get_link s r = Some h" using dl_links [OF dl that] .
    then have "r \<noteq> Link q" using assms(2) by (auto simp: get_link_def get_node_def)
    then show ?thesis using assms(3,4) by (auto simp: get_link_def get_node_def split: link_ref.splits)
  qed
  then show "dl (get_link s') (Head i) (map Link (P i)) (Head i)"
    using dl dl_cong [of "Head i" "map Link (P i)" "get_link s'" "get_link s" "Head i"] by auto
qed

text \<open>New parents, keys and children leave the links.\<close>

definition node_link :: "node \<Rightarrow> node_list_head" where
  "node_link nd = link (node_hd nd)"

lemma get_link_nodes:
  assumes "\<And>q. map_option node_link (nodes s' q) = map_option node_link (nodes s q)" "levels (tree s') = levels (tree s)"
  shows "get_link s' = get_link s"
proof
  show "get_link s' r = get_link s r" for r
  proof (cases r)
    case (Link q)
    then show ?thesis using assms(1) [of q] by (simp add: get_link_def get_node_def option.map_comp o_def node_link_def [abs_def])
  qed (simp add: get_link_def assms(2))
qed

lemma node_link_reparent [simp]: "node_link (reparent q i nd) = node_link nd"
  by (cases nd) (simp_all add: node_link_def bplus_node.defs)

lemma adopt_link: "map_option node_link (adopt p j cs N q) = map_option node_link (N q)"
proof (induction cs arbitrary: j N)
  case (Cons c cs)
  then show ?case by (auto simp: option.map_comp o_def)
qed simp

lemma refilled_link: "refilled n n' cs ks \<Longrightarrow> node_link (NonLeaf n') = node_link (NonLeaf n)"
proof -
  assume "refilled n n' cs ks"
  then have "n' = n\<lparr>count := int (length cs), nkey := nkey n', sub_ptr := sub_ptr n'\<rparr>" by (simp add: refilled_def)
  then have "link n' = link (n\<lparr>count := int (length cs), nkey := nkey n', sub_ptr := sub_ptr n'\<rparr>)" by (rule arg_cong)
  then show ?thesis by (simp add: node_link_def bplus_node.defs)
qed

subsection \<open>Insertions on their way up\<close>

text \<open>No operation changes the order and the number of entries the tree was made with.\<close>

definition same_sizes :: "heap \<Rightarrow> heap \<Rightarrow> bool" where
  "same_sizes s s' \<longleftrightarrow> order (tree s') = order (tree s) \<and> entries (tree s') = entries (tree s)"

lemma same_sizes_refl [simp]: "same_sizes s s"
  by (simp add: same_sizes_def)

lemma same_sizes_trans [trans]: "same_sizes s s' \<Longrightarrow> same_sizes s' s'' \<Longrightarrow> same_sizes s s''"
  by (simp add: same_sizes_def)

lemma same_sizes_tree: "tree s' = tree s \<Longrightarrow> same_sizes s s'"
  by (simp add: same_sizes_def)

lemma same_sizes_core: "same_core s s' \<Longrightarrow> same_sizes s s'"
  by (simp add: same_sizes_def same_core_def)

abbreviation ord_of :: "heap \<Rightarrow> nat" where
  "ord_of s \<equiv> nat (order (tree s))"

abbreviation ent_of :: "heap \<Rightarrow> nat" where
  "ent_of s \<equiv> nat (entries (tree s))"

definition growing :: "heap \<Rightarrow> frame list \<Rightarrow> atree \<Rightarrow> atree \<Rightarrow> int \<Rightarrow> nat \<Rightarrow> ptr \<Rightarrow> bool" where
  "growing s C l r k h c \<longleftrightarrow>
     heap_ok s \<and> root (tree s) = Some (croot C c) \<and> level (tree s) = int (h + length C) \<and>
     h + length C < BPLUS_MAX_LEVEL \<and> crepr (nodes s) (items s) C c \<and> cwf C \<and> (c = root_ptr l \<or> c = root_ptr r) \<and>
     distinct (ptrs l @ ptrs r @ cptrs C) \<and>
     olt (clo None C) (Some k) \<and> ordered (clo None C) (Some k) l \<and>
     olt (Some k) (chi None C) \<and> ordered (Some k) (chi None C) r \<and> cord C \<and>
     balanced h l \<and> balanced h r \<and> cbal h C \<and>
     sized (ord_of s) (ent_of s) False l \<and> sized (ord_of s) (ent_of s) False r \<and> csized (ord_of s) (ent_of s) C \<and>
     rings s (\<lambda>i. cleft h C i @ level_ptrs h i l @ level_ptrs h i r @ cright h C i)"

definition halves :: "heap \<Rightarrow> ptr option \<Rightarrow> ptr option \<Rightarrow> atree \<Rightarrow> atree \<Rightarrow> bool" where
  "halves s pl pr l r \<longleftrightarrow>
     (\<exists>il ir. repr (nodes s) (items s) pl il l \<and> repr (nodes s) (items s) pr ir r)"

lemma growing_ordereds:
  assumes "growing s (Frame p ul kl kr ur # C) l r k h c"
  shows "ordereds (clo None C) (chi None C) (ul @ l # r # ur) (kl @ k # kr)"
  using ordereds_hole [of kl ul kr ur "[l, r]" "[k]" "clo None C" "chi None C"] assms
  by (simp add: growing_def)

lemma key_pos_mid:
  assumes "sorted_wrt (<) (kl @ k # kr)"
  shows "key_pos (kl @ kr) k = length kl" "k \<notin> set (kl @ kr)" "sorted (kl @ kr)"
proof -
  show "k \<notin> set (kl @ kr)" using assms by (auto simp: sorted_wrt_append)
  have "sorted_wrt (<) (kl @ kr)" using assms by (auto simp: sorted_wrt_append)
  then show "sorted (kl @ kr)" by (rule strict_sorted_imp_sorted)
  have kl: "x < k" if "x \<in> set kl" for x using assms that by (auto simp: sorted_wrt_append)
  have kr: "k < x" if "x \<in> set kr" for x using assms that by (auto simp: sorted_wrt_append)
  show "key_pos (kl @ kr) k = length kl"
  proof (rule key_pos_unique)
    show "(kl @ kr) ! i < k" if "i < length kl" for i using that kl by (simp add: nth_append)
    show "k \<le> (kl @ kr) ! length kl" if "length kl < length (kl @ kr)"
      using that kr [of "kr ! 0"] by (simp add: nth_append)
  qed simp
qed

text \<open>The node above, as the operations on it need it.\<close>

lemma frame_node:
  assumes "crepr N it (Frame p ul kl kr ur # C) c"
  shows "\<exists>n. N p = Some (NonLeaf n) \<and> non_leaf_shape n \<and> node_type n = BPLUS_TREE_NON_LEAF \<and> parent n = cpar C \<and>
    parent_key_idx n = cidx C \<and> count n = int (Suc (length ul + length ur)) \<and>
    length ul + length ur = length kl + length kr \<and> length ul + length ur < 50 \<and> take (length kl + length kr) (nkey n) = kl @ kr \<and>
    take (Suc (length ul + length ur)) (sub_ptr n) = map Some (map root_ptr ul @ c # map root_ptr ur) \<and>
    adopt p 0 (map root_ptr ul) N = N \<and> adopt p (int (length ul) + 1) (map root_ptr ur) N = N"
  using assms reprs_adopt_id [of N it p] by (auto simp: non_leaf_at_def)

lemma roots_subset: "set (map root_ptr ts) \<subseteq> set (concat (map ptrs ts))"
  using root_ptr_in_ptrs by fastforce

lemma roots_distinct: "distinct (concat (map ptrs ts)) \<Longrightarrow> distinct (map root_ptr ts)"
proof (induction ts)
  case (Cons t ts)
  have "root_ptr t \<notin> set (map root_ptr ts)"
    using Cons.prems roots_subset [of ts] root_ptr_in_ptrs [of t] by (simp del: set_concat set_map) blast
  then show ?case using Cons by simp
qed simp

lemma search_mid:
  assumes "sorted_wrt (<) (kl @ k # kr)" "take (length kl + length kr) arr = kl @ kr" "length kl + length kr \<le> length arr"
  shows "key_binary_search arr (int (length kl + length kr)) k = Some (- int (length kl) - 1)"
  using key_binary_search_eq [of "kl @ kr" arr k] key_pos_mid [OF assms(1)] assms(2,3) by auto

lemma repr_refilled:
  assumes "N' p = Some (NonLeaf n')" "refilled n n' (map root_ptr ts) ks" "node_type n = BPLUS_TREE_NON_LEAF"
    "length ts = Suc (length ks)" "length ts \<le> 50" "distinct (concat (map ptrs ts))"
    "\<forall>t \<in> set ts. \<exists>par idx. repr N it par idx t"
    "\<forall>q \<in> set (concat (map ptrs ts)). N' q = adopt p 0 (map root_ptr ts) N q"
  shows "repr N' it (parent n) (parent_key_idx n) (ANode p ts ks)"
proof -
  have "reprs (adopt p 0 (map root_ptr ts) N) it p 0 ts"
    using assms(6,7) by (intro reprs_adopt) auto
  moreover have "reprs N' it p 0 ts = reprs (adopt p 0 (map root_ptr ts) N) it p 0 ts"
    using assms(8) by (intro repr_cong(2)) auto
  moreover have eq: "n' = n\<lparr>count := int (length ts), nkey := nkey n', sub_ptr := sub_ptr n'\<rparr>"
    using assms(2) by (simp add: refilled_def)
  have "node_type n' = node_type n" "parent n' = parent n" "parent_key_idx n' = parent_key_idx n" "count n' = int (length ts)"
    by (subst eq, simp)+
  ultimately show ?thesis
    using assms(1-5) by (simp add: non_leaf_at_def refilled_def)
qed

lemma halves_stay:
  assumes "halves s (Some p) (Some p) l r"
  shows "\<exists>nl nr il ir. nodes s (root_ptr l) = Some nl \<and> nodes s (root_ptr r) = Some nr \<and>
    reparent (Some p) il nl = nl \<and> reparent (Some p) ir nr = nr"
proof -
  obtain il ir where h: "repr (nodes s) (items s) (Some p) il l" "repr (nodes s) (items s) (Some p) ir r"
    using assms by (auto simp: halves_def)
  have "nodes s (root_ptr l) \<noteq> None" "nodes s (root_ptr r) \<noteq> None"
    using repr_some(1) [OF h(1) root_ptr_in_ptrs] repr_some(1) [OF h(2) root_ptr_in_ptrs] by auto
  then show ?thesis using reparent_id [OF h(1)] reparent_id [OF h(2)] by auto
qed

text \<open>The subtrees below the node above, old and new.\<close>

lemma growing_subtrees:
  assumes g: "growing s (Frame p ul kl kr ur # C) l r k h c" and hv: "halves s pl pr l r"
  shows "\<forall>t \<in> set (ul @ l # r # ur). \<exists>par idx. repr (nodes s) (items s) par idx t"
    "distinct (p # concat (map ptrs (ul @ l # r # ur)) @ cptrs C)"
    "\<forall>x \<in> set (map root_ptr (ul @ l # r # ur)). nodes s x \<noteq> None"
proof -
  have cr: "crepr (nodes s) (items s) (Frame p ul kl kr ur # C) c" using g by (simp add: growing_def)
  have rs: "\<exists>par idx. repr N it par idx t" if "reprs N it q i ts" "t \<in> set ts" for N it q i ts t
    using that by (induction ts arbitrary: i) auto
  show sub: "\<forall>t \<in> set (ul @ l # r # ur). \<exists>par idx. repr (nodes s) (items s) par idx t"
    using cr hv rs by (auto simp: halves_def)
  show "distinct (p # concat (map ptrs (ul @ l # r # ur)) @ cptrs C)"
    using g by (auto simp: growing_def)
  show "\<forall>x \<in> set (map root_ptr (ul @ l # r # ur)). nodes s x \<noteq> None"
    using sub repr_some(1) root_ptr_in_ptrs by (metis (no_types, lifting) imageE list.set_map)
qed

lemma tree_rep_plugI:
  assumes "heap_ok s" "root (tree s) = Some (croot C (root_ptr t))" "level (tree s) = int (h + length C)"
    "h + length C < BPLUS_MAX_LEVEL" "repr (nodes s) (items s) (cpar C) (cidx C) t" "crepr (nodes s) (items s) C (root_ptr t)"
    "cwf C" "distinct (ptrs t @ cptrs C)" "ordered (clo None C) (chi None C) t" "olt (clo None C) (chi None C)" "cord C"
    "balanced h t" "cbal h C" "sized (ord_of s) (ent_of s) (C = []) t" "csized (ord_of s) (ent_of s) C"
    "rings s (\<lambda>i. cleft h C i @ level_ptrs h i t @ cright h C i)"
  shows "tree_rep s (plug C t)"
proof -
  have lev: "nat (level (tree s)) = h + length C" using assms(3) by simp
  have "rings s (\<lambda>i. level_ptrs (h + length C) i (plug C t))"
    using assms(16) by (simp add: level_plug)
  then show ?thesis
    using assms unfolding tree_rep_def lev
    by (simp add: root_plug repr_plug distinct_plug ordered_plug balanced_plug sized_plug)
qed

lemma growing_lists:
  "(\<lambda>i. cleft h (Frame p ul kl kr ur # C) i @ level_ptrs h i l @ level_ptrs h i r @ cright h (Frame p ul kl kr ur # C) i) =
   (\<lambda>i. cleft (Suc h) C i @ level_ptrs (Suc h) i (ANode p (ul @ l # r # ur) ks) @ cright (Suc h) C i)"
  by (auto simp: level_ptrs_above)

lemma growing_rings:
  assumes "growing s (Frame p ul kl kr ur # C) l r k h c"
  shows "rings s (\<lambda>i. cleft (Suc h) C i @ level_ptrs (Suc h) i (ANode p (ul @ l # r # ur) ks) @ cright (Suc h) C i)"
  using assms growing_lists [of h p ul kl kr ur C l r ks] unfolding growing_def by metis

lemma heap_ok_nodes:
  assumes "heap_ok s" "\<forall>q. nodes s q = None \<longrightarrow> nodes s' q = None"
    "next_ptr s' = next_ptr s" "raw_leaf s' = raw_leaf s" "raw_non_leaf s' = raw_non_leaf s" "tree s' = tree s"
  shows "heap_ok s'"
  using assms by (simp add: heap_ok_def)

lemma non_leaf_insert_simple:
  assumes g: "growing s (Frame p ul kl kr ur # C) l r k h c" and hv: "halves s (Some p) (Some p) l r"
    and room: "Suc (length ul + length ur) < ord_of s"
  shows "\<exists>s'. non_leaf_insert (Suc fuel) p (root_ptr l) (root_ptr r) k lv s = Some (0, s') \<and>
    tree_rep s' (plug C (ANode p (ul @ l # r # ur) (kl @ k # kr))) \<and> same_sizes s s'"
proof -
  let ?ts = "ul @ l # r # ur" and ?ks = "kl @ k # kr"
  have cr: "crepr (nodes s) (items s) (Frame p ul kl kr ur # C) c" and wf: "length kl = length ul" "length kr = length ur" "cwf C"
    using g by (auto simp: growing_def)
  obtain n where n: "nodes s p = Some (NonLeaf n)" "non_leaf_shape n" "node_type n = BPLUS_TREE_NON_LEAF"
      "parent n = cpar C" "parent_key_idx n = cidx C" "count n = int (Suc (length ul + length ur))"
      "take (length kl + length kr) (nkey n) = kl @ kr"
      "take (Suc (length ul + length ur)) (sub_ptr n) = map Some (map root_ptr ul @ c # map root_ptr ur)"
      "adopt p 0 (map root_ptr ul) (nodes s) = nodes s" "adopt p (int (length ul) + 1) (map root_ptr ur) (nodes s) = nodes s"
    using frame_node [OF cr] by blast
  note sub = growing_subtrees [OF g hv]
  have ord: "order (tree s) \<le> 50" using g by (simp add: growing_def heap_ok_def BPLUS_MAX_ORDER_def)
  have srt: "sorted_wrt (<) ?ks" using ordereds_keys_sorted [OF growing_ordereds [OF g]] by blast
  obtain nl nr il ir where lr: "nodes s (root_ptr l) = Some nl" "nodes s (root_ptr r) = Some nr"
      "reparent (Some p) il nl = nl" "reparent (Some p) ir nr = nr"
    using halves_stay [OF hv] by blast
  have dr: "distinct (p # map root_ptr ?ts)"
    using sub(2) roots_distinct [of ?ts] roots_subset [of ?ts] by (auto simp del: concat_append map_append set_concat)
  have "\<exists>n'. non_leaf_simple_insert p (root_ptr l) (root_ptr r) k (int (length (map root_ptr ul))) s =
      Some (s\<lparr>nodes := (adopt p 0 (map root_ptr ul @ root_ptr l # root_ptr r # map root_ptr ur) (nodes s))(p \<mapsto> NonLeaf n')\<rparr>) \<and>
    refilled n n' (map root_ptr ul @ root_ptr l # root_ptr r # map root_ptr ur) ?ks"
    by (rule non_leaf_simple_insert_spec [OF n(1,2) _ _ n(7) _ _ _ _ _ n(9) _ lr]) (use n(6,8,10) wf room ord dr sub(3) in auto)
  then obtain n' where n': "non_leaf_simple_insert p (root_ptr l) (root_ptr r) k (int (length ul)) s =
      Some (s\<lparr>nodes := (adopt p 0 (map root_ptr ?ts) (nodes s))(p \<mapsto> NonLeaf n')\<rparr>)" "refilled n n' (map root_ptr ?ts) ?ks"
    by auto
  define s' where "s' = s\<lparr>nodes := (adopt p 0 (map root_ptr ?ts) (nodes s))(p \<mapsto> NonLeaf n')\<rparr>"
  have run: "non_leaf_insert (Suc fuel) p (root_ptr l) (root_ptr r) k lv s = Some (0, s')"
  proof -
    have "key_binary_search (nkey n) (count n - 1) k = Some (- int (length kl) - 1)"
      using search_mid [OF srt n(7)] n(2,6) wf room ord by (simp add: non_leaf_shape_def)
    moreover have "count n \<noteq> order (tree s)" using n(6) room by auto
    ultimately show ?thesis using n'(1) wf by (simp add: get_non_leaf_eq [OF n(1)] s'_def)
  qed
  have out: "nodes s' q = nodes s q" if "q \<noteq> p" "q \<notin> set (map root_ptr ?ts)" for q
    using that by (simp add: s'_def adopt_other del: map_append)
  have "repr (nodes s') (items s) (parent n) (parent_key_idx n) (ANode p ?ts ?ks)"
  proof (rule repr_refilled [OF _ n'(2) n(3)])
    show "\<forall>q \<in> set (concat (map ptrs ?ts)). nodes s' q = adopt p 0 (map root_ptr ?ts) (nodes s) q"
      using sub(2) by (auto simp: s'_def)
  qed (use wf room ord sub in \<open>auto simp: s'_def\<close>)
  moreover have "crepr (nodes s') (items s) C p"
  proof -
    have "crepr (nodes s') (items s) C p = crepr (nodes s) (items s) C p"
      by (intro crepr_cong out) (use sub(2) roots_subset [of ?ts] in \<open>auto simp del: map_append set_map\<close>)
    then show ?thesis using cr by simp
  qed
  moreover have "get_link s' = get_link s"
    by (intro get_link_nodes) (auto simp: s'_def adopt_link n(1) refilled_link [OF n'(2)] simp del: map_append)
  then have "rings s' (\<lambda>i. cleft (Suc h) C i @ level_ptrs (Suc h) i (ANode p ?ts ?ks) @ cright (Suc h) C i)"
    using growing_rings [OF g, of ?ks] rings_cong by blast
  moreover have "heap_ok s'"
    by (rule heap_ok_nodes [of s]) (use g n(1) in \<open>auto simp: s'_def growing_def adopt_at_None\<close>)
  moreover have "ordered (clo None C) (chi None C) (ANode p ?ts ?ks)" "olt (clo None C) (chi None C)"
    using growing_ordereds [OF g] ordereds_olt by auto
  moreover have "distinct (ptrs (ANode p ?ts ?ks) @ cptrs C)" using sub(2) by auto
  moreover have "sized (ord_of s') (ent_of s') (C = []) (ANode p ?ts ?ks)" "csized (ord_of s') (ent_of s') C"
    using g room by (auto simp: growing_def s'_def)
  moreover have "balanced (Suc h) (ANode p ?ts ?ks)" "cbal (Suc h) C" "cord C"
    using g by (auto simp: growing_def)
  ultimately have "tree_rep s' (plug C (ANode p ?ts ?ks))"
    using g wf(3) n(4,5) by (intro tree_rep_plugI [where h = "Suc h"]) (simp_all add: growing_def s'_def)
  moreover have "same_sizes s s'" by (simp add: same_sizes_def s'_def)
  ultimately show ?thesis using run by blast
qed

subsection \<open>A full node above\<close>

lemma unlink_NonLeafD:
  assumes "map_option unlink y = Some (unlink (NonLeaf n))"
  shows "\<exists>n'. y = Some (NonLeaf n') \<and> nkey n' = nkey n \<and> sub_ptr n' = sub_ptr n \<and> node_type n' = node_type n \<and>
    parent n' = parent n \<and> parent_key_idx n' = parent_key_idx n \<and> count n' = count n \<and>
    (non_leaf_shape n' \<longleftrightarrow> non_leaf_shape n)"
proof -
  obtain nd where nd: "y = Some nd" "unlink nd = unlink (NonLeaf n)" using assms by auto
  then obtain n' where n': "nd = NonLeaf n'" by (cases nd) auto
  let ?u = "\<lambda>n. n\<lparr>link := \<lparr>prev = Head 0, next = Head 0\<rparr>\<rparr> :: bplus_non_leaf"
  have eq: "?u n' = ?u n" using nd(2) n' by simp
  have "nkey (?u n') = nkey (?u n)" "sub_ptr (?u n') = sub_ptr (?u n)" "node_type (?u n') = node_type (?u n)"
    "parent (?u n') = parent (?u n)" "parent_key_idx (?u n') = parent_key_idx (?u n)" "count (?u n') = count (?u n)"
    "non_leaf_shape (?u n') = non_leaf_shape (?u n)"
    unfolding eq by simp_all
  then show ?thesis using nd(1) n' by (simp add: non_leaf_shape_def)
qed

text \<open>The node above and its new sibling, in a heap that differs in links only.\<close>

lemma growing_split_ready:
  assumes g: "growing s (Frame p ul kl kr ur # C) l r k h c" and hv: "halves s (Some p) (Some p) l r"
    and n: "nodes s p = Some (NonLeaf n)" and q: "nodes s q = None" and m: "non_leaf_shape m"
    and N: "\<And>x. map_option unlink (N x) = map_option unlink (((nodes s)(q \<mapsto> NonLeaf m, p \<mapsto> NonLeaf (n\<lparr>count := a\<rparr>))) x)"
  shows "\<exists>n' m'. split_ready N p q n' m' (map root_ptr ul) c (map root_ptr ur) kl kr (root_ptr l) (root_ptr r) \<and>
    node_type n' = BPLUS_TREE_NON_LEAF \<and> parent n' = cpar C \<and> parent_key_idx n' = cidx C \<and> count n' = a \<and>
    node_type m' = node_type m \<and> parent m' = parent m \<and> parent_key_idx m' = parent_key_idx m"
proof -
  let ?ts = "ul @ l # r # ur" and ?N = "(nodes s)(q \<mapsto> NonLeaf m, p \<mapsto> NonLeaf (n\<lparr>count := a\<rparr>))"
  have cr: "crepr (nodes s) (items s) (Frame p ul kl kr ur # C) c" and wf: "length kl = length ul" "length kr = length ur"
    and c: "c = root_ptr l \<or> c = root_ptr r"
    using g by (auto simp: growing_def)
  note sub = growing_subtrees [OF g hv]
  have nn: "non_leaf_shape n" "node_type n = BPLUS_TREE_NON_LEAF" "parent n = cpar C" "parent_key_idx n = cidx C"
      "length ul + length ur < 50" "take (length kl + length kr) (nkey n) = kl @ kr"
      "take (Suc (length ul + length ur)) (sub_ptr n) = map Some (map root_ptr ul @ c # map root_ptr ur)"
    using frame_node [OF cr] n by auto
  have pq: "p \<noteq> q" using n q by auto
  have qts: "q \<notin> set (concat (map ptrs ?ts))"
  proof
    assume "q \<in> set (concat (map ptrs ?ts))"
    then obtain t where "t \<in> set ?ts" "q \<in> set (ptrs t)" by auto
    then show False using sub(1) repr_some(1) q by metis
  qed
  have pts: "p \<notin> set (concat (map ptrs ?ts))" using sub(2) by auto
  obtain n' where n': "N p = Some (NonLeaf n')" "nkey n' = nkey n" "sub_ptr n' = sub_ptr n" "node_type n' = node_type n"
      "parent n' = parent n" "parent_key_idx n' = parent_key_idx n" "count n' = a" "non_leaf_shape n'"
    using unlink_NonLeafD [of "N p" "n\<lparr>count := a\<rparr>"] N [of p] nn(1) by (auto simp: non_leaf_shape_def)
  obtain m' where m': "N q = Some (NonLeaf m')" "node_type m' = node_type m"
      "parent m' = parent m" "parent_key_idx m' = parent_key_idx m" "non_leaf_shape m'"
    using unlink_NonLeafD [of "N q" m] N [of q] m pq by auto
  have rs: "reprs N (items s) p i us = reprs (nodes s) (items s) p i us" if "set us \<subseteq> set ?ts" for i us
  proof -
    have "reprs N (items s) p i us = reprs ?N (items s) p i us" by (rule repr_unlink(2) [OF N])
    also have "\<dots> = reprs (nodes s) (items s) p i us"
      by (rule repr_cong(2)) (use that pts qts in auto)
    finally show ?thesis .
  qed
  have ad: "adopt p 0 (map root_ptr ul) N = N" "adopt p (int (length ul) + 1) (map root_ptr ur) N = N"
    using cr rs [of ul 0] rs [of ur "int (length ul) + 1"] reprs_adopt_id [of N "items s" p] by auto
  have rts: "set (map root_ptr ?ts) \<subseteq> set (concat (map ptrs ?ts))" by (rule roots_subset)
  have "distinct (p # q # map root_ptr ?ts)"
    using pq pts qts rts roots_distinct [of ?ts] sub(2) by (auto simp del: map_append concat_append set_concat set_map)
  moreover have "N x \<noteq> None" if "x \<in> set (map root_ptr ?ts)" for x
  proof -
    have "nodes s x \<noteq> None" using sub(3) that by blast
    then have "map_option unlink (?N x) \<noteq> None" by auto
    then show ?thesis using N [of x] by auto
  qed
  ultimately have "split_ready N p q n' m' (map root_ptr ul) c (map root_ptr ur) kl kr (root_ptr l) (root_ptr r)"
    using n' m' nn wf c ad by (auto simp: split_ready_def)
  then show ?thesis using n' m' nn by (intro exI [of _ n'] exI [of _ m']) simp
qed

lemma repr_unlink_on:
  assumes "\<forall>x \<in> set (ptrs t). map_option unlink (N' x) = map_option unlink (N x)"
  shows "repr N' it par idx t = repr N it par idx t"
proof -
  let ?N = "\<lambda>x. if x \<in> set (ptrs t) then N' x else N x"
  have "repr N' it par idx t = repr ?N it par idx t" by (rule repr_cong(1)) simp
  also have "\<dots> = repr N it par idx t" by (rule repr_unlink(1)) (use assms in simp)
  finally show ?thesis .
qed

lemma crepr_unlink_on:
  assumes "\<forall>x \<in> set (cptrs C). map_option unlink (N' x) = map_option unlink (N x)"
  shows "crepr N' it C c = crepr N it C c"
proof -
  let ?N = "\<lambda>x. if x \<in> set (cptrs C) then N' x else N x"
  have "crepr N' it C c = crepr ?N it C c" by (rule crepr_cong) simp
  also have "\<dots> = crepr N it C c" by (rule crepr_unlink) (use assms in simp)
  finally show ?thesis .
qed

lemma adopt_cong_at: "M x = M' x \<Longrightarrow> adopt p j cs M x = adopt p j cs M' x"
proof (induction cs arbitrary: j M M')
  case (Cons c cs)
  let ?f = "\<lambda>M. M(c := map_option (reparent (Some p) (j - 1)) (M c))"
  have "?f M x = ?f M' x" using Cons.prems by auto
  then show ?case using Cons.IH [of "?f M" "?f M'" "j + 1"] by (simp add: fun_upd_def)
qed simp

text \<open>The two nodes of a split, as trees.\<close>

lemma split_trees:
  assumes M: "M = (adopt a 0 (map root_ptr ts1) (adopt b 0 (map root_ptr ts2) N))(a \<mapsto> NonLeaf na', b \<mapsto> NonLeaf nb')"
    and na: "refilled na na' (map root_ptr ts1) ks1" "node_type na = BPLUS_TREE_NON_LEAF" "length ts1 = Suc (length ks1)" "length ts1 \<le> 50"
    and nb: "refilled nb nb' (map root_ptr ts2) ks2" "node_type nb = BPLUS_TREE_NON_LEAF" "length ts2 = Suc (length ks2)" "length ts2 \<le> 50"
    and di: "distinct (a # b # concat (map ptrs ts1) @ concat (map ptrs ts2))"
    and sub: "\<forall>t \<in> set (ts1 @ ts2). \<exists>par idx. repr N it par idx t"
  shows "repr M it (parent na) (parent_key_idx na) (ANode a ts1 ks1)"
    "repr M it (parent nb) (parent_key_idx nb) (ANode b ts2 ks2)"
    "\<And>x. x \<notin> set (a # b # concat (map ptrs ts1) @ concat (map ptrs ts2)) \<Longrightarrow> M x = N x"
proof -
  define P1 where "P1 = concat (map ptrs ts1)"
  define P2 where "P2 = concat (map ptrs ts2)"
  have r1: "set (map root_ptr ts1) \<subseteq> set P1" and r2: "set (map root_ptr ts2) \<subseteq> set P2"
    unfolding P1_def P2_def by (rule roots_subset)+
  have dis: "a \<noteq> b" "a \<notin> set P1" "b \<notin> set P1" "a \<notin> set P2" "b \<notin> set P2" "set P1 \<inter> set P2 = {}" "distinct P1" "distinct P2"
    using di unfolding P1_def P2_def by auto
  have out: "M x = adopt a 0 (map root_ptr ts1) (adopt b 0 (map root_ptr ts2) N) x" if "x \<noteq> a" "x \<noteq> b" for x
    using that by (simp add: M)
  have one: "M x = adopt a 0 (map root_ptr ts1) N x" if "x \<in> set P1" for x
  proof -
    have "x \<notin> set (map root_ptr ts2)" "x \<noteq> a" "x \<noteq> b" using that dis r2 by blast+
    then show ?thesis
      using out [of x] adopt_cong_at [of "adopt b 0 (map root_ptr ts2) N" x N] by (simp add: adopt_other)
  qed
  have two: "M x = adopt b 0 (map root_ptr ts2) N x" if "x \<in> set P2" for x
  proof -
    have "x \<notin> set (map root_ptr ts1)" "x \<noteq> a" "x \<noteq> b" using that dis r1 by blast+
    then show ?thesis using out [of x] by (simp add: adopt_other)
  qed
  show "repr M it (parent na) (parent_key_idx na) (ANode a ts1 ks1)"
    by (rule repr_refilled [OF _ na, where it = it and N = N, folded P1_def]) (use M dis sub one in simp_all)
  show "repr M it (parent nb) (parent_key_idx nb) (ANode b ts2 ks2)"
    by (rule repr_refilled [OF _ nb, where it = it and N = N, folded P2_def]) (use M dis sub two in simp_all)
  show "M x = N x" if x: "x \<notin> set (a # b # concat (map ptrs ts1) @ concat (map ptrs ts2))" for x
  proof -
    have "x \<noteq> a" "x \<noteq> b" "x \<notin> set (map root_ptr ts1)" "x \<notin> set (map root_ptr ts2)"
      using x r1 r2 unfolding P1_def [symmetric] P2_def [symmetric] by auto
    then show ?thesis using out [of x] by (simp add: adopt_other)
  qed
qed

text \<open>The two nodes of a split, of which one is new, take the place of the node above.\<close>

lemma split_growing:
  assumes g: "growing s (Frame p ul kl kr ur # C) l r k h c" and hv: "halves s (Some p) (Some p) l r"
    and q: "nodes s q = None" "next_ptr s = q"
    and N: "\<And>x. x \<noteq> p \<Longrightarrow> x \<noteq> q \<Longrightarrow> map_option unlink (nodes s2 x) = map_option unlink (nodes s x)"
    and s2: "items s2 = items s" "next_ptr s2 = Suc q" "raw_leaf s2 = raw_leaf s" "raw_non_leaf s2 = raw_non_leaf s"
      "root (tree s2) = root (tree s)" "level (tree s2) = level (tree s)" "order (tree s2) = order (tree s)"
      "entries (tree s2) = entries (tree s)" "length (levels (tree s2)) = length (levels (tree s))"
    and ab: "a = p \<and> b = q \<or> a = q \<and> b = p" and ts: "ts = ul @ l # r # ur" and ks: "ks = kl @ k # kr"
    and nab: "nodes s2 a = Some (NonLeaf na)" "nodes s2 b = Some (NonLeaf nb)"
      "node_type na = BPLUS_TREE_NON_LEAF" "node_type nb = BPLUS_TREE_NON_LEAF"
    and dn: "split_done s2 s3 a b na nb i (map root_ptr ts) ks"
    and i: "min_children (ord_of s) \<le> i" "min_children (ord_of s) \<le> length ts - i" "length ts = Suc (ord_of s)"
    and rg: "rings s2 (\<lambda>j. cleft (Suc h) C j @ (if j = Suc h then [a, b] else concat (map (level_ptrs h j) ts)) @ cright (Suc h) C j)"
  shows "growing s3 C (ANode a (take i ts) (take (i - 1) ks)) (ANode b (drop i ts) (drop i ks)) (ks ! (i - 1)) (Suc h) p \<and>
    halves s3 (parent na) (parent nb) (ANode a (take i ts) (take (i - 1) ks)) (ANode b (drop i ts) (drop i ks))"
proof -
  note sub = growing_subtrees [OF g hv, folded ts]
  have G: "heap_ok s" "crepr (nodes s) (items s) C p" "cwf C" "length ts = Suc (length ks)" "cord C"
    using g by (auto simp: growing_def ts ks)
  obtain na' nb' where s3: "s3 = s2\<lparr>nodes := (adopt a 0 (take i (map root_ptr ts)) (adopt b 0 (drop i (map root_ptr ts)) (nodes s2)))
        (a \<mapsto> NonLeaf na', b \<mapsto> NonLeaf nb')\<rparr>"
      "refilled na na' (take i (map root_ptr ts)) (take (i - 1) ks)" "refilled nb nb' (drop i (map root_ptr ts)) (drop i ks)"
    using dn unfolding split_done_def by blast
  have "2 \<le> min_children (ord_of s)" by (simp add: min_children_def)
  then have i2: "2 \<le> i" "2 \<le> length ts - i" using i by linarith+
  have o50: "ord_of s \<le> 50" using G(1) by (auto simp: heap_ok_def BPLUS_MAX_ORDER_def nat_le_iff)
  have i3: "i < length ts" "length ts \<le> 51" "length ts - i \<le> 49" using i2 i(3) o50 by simp_all
  have p: "nodes s p \<noteq> None" using frame_node [of "nodes s" "items s" p ul kl kr ur C c] g by (auto simp: growing_def)
  then have pq: "a \<noteq> b" "p \<noteq> q" using ab q by auto
  define P where "P = concat (map ptrs ts)"
  have parts: "concat (map ptrs (take i ts)) @ concat (map ptrs (drop i ts)) = P"
    unfolding P_def by (metis append_take_drop_id concat_append map_append)
  have qf: "q \<notin> set P" "q \<notin> set (cptrs C)"
  proof -
    have "q \<notin> set (ptrs t)" if "t \<in> set ts" for t using sub(1) repr_some(1) q(1) that by metis
    then show "q \<notin> set P" by (auto simp: P_def)
    show "q \<notin> set (cptrs C)" using crepr_some [OF G(2), of q] q(1) by blast
  qed
  have pf: "p \<notin> set P" "p \<notin> set (cptrs C)" "distinct P" "set P \<inter> set (cptrs C) = {}" "distinct (cptrs C)"
    using sub(2) unfolding P_def by auto
  have abf: "a \<notin> set P" "b \<notin> set P" "a \<notin> set (cptrs C)" "b \<notin> set (cptrs C)" using ab qf pf by auto
  have sub2: "\<exists>par idx. repr (nodes s2) (items s2) par idx t" if t: "t \<in> set ts" for t
  proof -
    have "set (ptrs t) \<subseteq> set P" using t by (auto simp: P_def)
    then have "\<forall>x \<in> set (ptrs t). map_option unlink (nodes s2 x) = map_option unlink (nodes s x)"
      using qf(1) pf(1) by (intro ballI N) auto
    then show ?thesis using sub(1) t repr_unlink_on [of t "nodes s2" "nodes s"] s2(1) by auto
  qed
  let ?A = "ANode a (take i ts) (take (i - 1) ks)" and ?B = "ANode b (drop i ts) (drop i ks)"
  have AB: "repr (nodes s3) (items s2) (parent na) (parent_key_idx na) ?A"
    "repr (nodes s3) (items s2) (parent nb) (parent_key_idx nb) ?B"
    "\<And>x. x \<notin> set (a # b # P) \<Longrightarrow> nodes s3 x = nodes s2 x"
  proof -
    note st = split_trees [where M = "nodes s3" and N = "nodes s2" and it = "items s2" and a = a and b = b
        and ?ts1.0 = "take i ts" and ?ts2.0 = "drop i ts" and na = na and nb = nb and na' = na' and nb' = nb'
        and ?ks1.0 = "take (i - 1) ks" and ?ks2.0 = "drop i ks", unfolded parts]
    have 1: "nodes s3 = (adopt a 0 (map root_ptr (take i ts)) (adopt b 0 (map root_ptr (drop i ts)) (nodes s2)))(a \<mapsto> NonLeaf na', b \<mapsto> NonLeaf nb')"
      "refilled na na' (map root_ptr (take i ts)) (take (i - 1) ks)" "refilled nb nb' (map root_ptr (drop i ts)) (drop i ks)"
      using s3 by (simp_all add: take_map drop_map)
    have 2: "length (take i ts) = Suc (length (take (i - 1) ks))" "length (take i ts) \<le> 50"
      "length (drop i ts) = Suc (length (drop i ks))" "length (drop i ts) \<le> 50"
      using i2 i3 G(4) by auto
    have 3: "distinct (a # b # P)" using pq(1) abf pf(3) by simp
    have 4: "\<forall>t \<in> set (take i ts @ drop i ts). \<exists>par idx. repr (nodes s2) (items s2) par idx t" using sub2 by simp
    show "repr (nodes s3) (items s2) (parent na) (parent_key_idx na) ?A"
      by (rule st(1) [OF 1(1,2) nab(3) 2(1,2) 1(3) nab(4) 2(3,4) 3 4])
    show "repr (nodes s3) (items s2) (parent nb) (parent_key_idx nb) ?B"
      by (rule st(2) [OF 1(1,2) nab(3) 2(1,2) 1(3) nab(4) 2(3,4) 3 4])
    show "\<And>x. x \<notin> set (a # b # P) \<Longrightarrow> nodes s3 x = nodes s2 x"
      by (rule st(3) [OF 1(1,2) nab(3) 2(1,2) 1(3) nab(4) 2(3,4) 3 4])
  qed
  have it3: "items s3 = items s2" "tree s3 = tree s2" using s3(1) by simp_all
  have "crepr (nodes s3) (items s3) C p"
  proof -
    have "nodes s3 x = nodes s2 x" if "x \<in> set (cptrs C)" for x
      by (rule AB(3)) (use that abf pf(4) in auto)
    then have "crepr (nodes s3) (items s2) C p = crepr (nodes s2) (items s2) C p" by (rule crepr_cong)
    also have "\<dots> = crepr (nodes s) (items s2) C p" by (rule crepr_unlink_on) (use qf pf in \<open>auto intro!: N\<close>)
    finally show ?thesis using G(2) s2(1) it3(1) by simp
  qed
  moreover have "heap_ok s3"
  proof -
    have "nodes s3 x = None" if "Suc q \<le> x" for x
    proof -
      have n: "nodes s x = None" "x \<noteq> q" using G(1) q(2) that by (auto simp: heap_ok_def)
      then have "x \<noteq> p" using p by auto
      then have "nodes s2 x = None" using N [of x] n by simp
      moreover have "x \<noteq> a" "x \<noteq> b" using ab n(2) \<open>x \<noteq> p\<close> by auto
      ultimately show ?thesis using s3(1) by (simp add: adopt_at_None)
    qed
    then show ?thesis using G(1) s2 it3(2) s3(1) by (simp add: heap_ok_def)
  qed
  moreover have "rings s3 (\<lambda>j. cleft (Suc h) C j @ level_ptrs (Suc h) j ?A @ level_ptrs (Suc h) j ?B @ cright (Suc h) C j)"
  proof -
    have "get_link s3 = get_link s2"
      using s3(1) nab(1,2) refilled_link [OF s3(2)] refilled_link [OF s3(3)]
      by (intro get_link_nodes) (auto simp: adopt_link)
    moreover have "concat (map (level_ptrs h j) ts) = concat (map (level_ptrs h j) (take i ts)) @ concat (map (level_ptrs h j) (drop i ts))" for j
      by (metis append_take_drop_id concat_append map_append)
    then have "(\<lambda>j. cleft (Suc h) C j @ level_ptrs (Suc h) j ?A @ level_ptrs (Suc h) j ?B @ cright (Suc h) C j) =
        (\<lambda>j. cleft (Suc h) C j @ (if j = Suc h then [a, b] else concat (map (level_ptrs h j) ts)) @ cright (Suc h) C j)"
      by auto
    ultimately show ?thesis using rg rings_cong by metis
  qed
  moreover have "olt (clo None C) (Some (ks ! (i - 1)))" "ordered (clo None C) (Some (ks ! (i - 1))) ?A"
     "olt (Some (ks ! (i - 1))) (chi None C)" "ordered (Some (ks ! (i - 1))) (chi None C) ?B"
  proof -
    have len: "length (take i ts) = Suc (length (take (i - 1) ks))" using i2(1) i3(1) G(4) by simp
    have "ks = take (i - 1) ks @ ks ! (i - 1) # drop i ks"
      using id_take_nth_drop [of "i - 1" ks] i2(1) i3(1) G(4) by simp
    then have "ordereds (clo None C) (chi None C) (take i ts @ drop i ts) (take (i - 1) ks @ ks ! (i - 1) # drop i ks)"
      using growing_ordereds [OF g] unfolding ts [symmetric] ks [symmetric] by simp
    then have "ordereds (clo None C) (Some (ks ! (i - 1))) (take i ts) (take (i - 1) ks) \<and>
        ordereds (Some (ks ! (i - 1))) (chi None C) (drop i ts) (drop i ks)"
      unfolding ordereds_append [OF len] .
    then show "olt (clo None C) (Some (ks ! (i - 1)))" "ordered (clo None C) (Some (ks ! (i - 1))) ?A"
     "olt (Some (ks ! (i - 1))) (chi None C)" "ordered (Some (ks ! (i - 1))) (chi None C) ?B"
      using ordereds_olt by auto
  qed
  moreover have "distinct (ptrs ?A @ ptrs ?B @ cptrs C)"
    using pf(3-5) abf pq(1) unfolding parts [symmetric] by auto
  moreover have "sized (ord_of s3) (ent_of s3) False ?A" "sized (ord_of s3) (ent_of s3) False ?B" "csized (ord_of s3) (ent_of s3) C"
  proof -
    have "\<forall>t \<in> set ts. sized (ord_of s) (ent_of s) False t" "csized (ord_of s) (ent_of s) C"
      using g by (auto simp: growing_def ts)
    moreover have "Suc (ord_of s) - i \<le> ord_of s" using i2(1) by linarith
    ultimately show "sized (ord_of s3) (ent_of s3) False ?A" "sized (ord_of s3) (ent_of s3) False ?B" "csized (ord_of s3) (ent_of s3) C"
      using i i3(1) i2 s2(7,8) it3(2) by (auto dest: in_set_takeD in_set_dropD)
  qed
  moreover have "balanced (Suc h) ?A" "balanced (Suc h) ?B" "cbal (Suc h) C"
    using g by (auto simp: growing_def ts dest!: in_set_takeD in_set_dropD)
  moreover have "root (tree s3) = Some (croot C p)" "level (tree s3) = int (Suc h + length C)" "Suc h + length C < BPLUS_MAX_LEVEL"
    "p = root_ptr ?A \<or> p = root_ptr ?B"
    using g s2(5,6) it3(2) ab by (auto simp: growing_def)
  ultimately have "growing s3 C ?A ?B (ks ! (i - 1)) (Suc h) p"
    using G(3,5) unfolding growing_def by (intro conjI)
  then show ?thesis using AB(1,2) it3 unfolding halves_def by auto
qed

lemma ptrs_plug: "set (ptrs (plug C t)) = set (ptrs t) \<union> set (cptrs C)"
proof (induction C arbitrary: t)
  case (Cons f C)
  then show ?case by (cases f) auto
qed simp

text \<open>The new sibling in the list of its level, on either side of the full node.\<close>

abbreviation level_with :: "nat \<Rightarrow> frame list \<Rightarrow> atree list \<Rightarrow> ptr list \<Rightarrow> nat \<Rightarrow> ptr list" where
  "level_with h C ts xs j \<equiv>
     cleft (Suc h) C j @ (if j = Suc h then xs else concat (map (level_ptrs h j) ts)) @ cright (Suc h) C j"

lemma sibling_lists:
  assumes g: "growing s (Frame p ul kl kr ur # C) l r k h c"
    and hv: "halves s pl pr l r" and ts: "ts = ul @ l # r # ur"
    and n: "nodes s p = Some (NonLeaf n)" and q: "q = next_ptr s"
    and s0: "s0 = s\<lparr>next_ptr := Suc q, nodes := (nodes s)(q \<mapsto> NonLeaf m, p \<mapsto> NonLeaf (n\<lparr>count := a\<rparr>))\<rparr>"
  shows "\<exists>s1. list_add (Link q) (Link p) s0 = Some s1 \<and> same_core s0 s1 \<and> rings s1 (level_with h C ts [p, q])"
    "\<exists>s1. list_add_between (Link q) (prev (link n)) (Link p) s0 = Some s1 \<and> same_core s0 s1 \<and> rings s1 (level_with h C ts [q, p])"
proof -
  let ?t = "plug C (ANode p ts kl)" and ?H = "Suc h + length C"
  note sub = growing_subtrees [OF g hv, folded ts]
  have qn: "nodes s q = None" and H: "Suc h + length C < BPLUS_MAX_LEVEL"
    using g q by (auto simp: growing_def heap_ok_def)
  then have pq: "p \<noteq> q" using n by auto
  have P: "level_with h C ts [p] = (\<lambda>i. level_ptrs ?H i ?t)"
    by (rule ext) (simp only: level_plug level_ptrs.simps diff_Suc_1)
  have di: "distinct (ptrs ?t)" unfolding distinct_plug using sub(2) by simp
  have r: "rings s (level_with h C ts [p])"
  proof -
    have "(\<lambda>i. cleft (Suc h) C i @ level_ptrs (Suc h) i (ANode p ts kl) @ cright (Suc h) C i) = level_with h C ts [p]"
      by (rule ext) (simp only: level_ptrs.simps diff_Suc_1)
    then show ?thesis using growing_rings [OF g, of kl, folded ts] by (simp only:)
  qed
  have fr: "rings (s\<lparr>nodes := (nodes s)(q \<mapsto> NonLeaf m)\<rparr>) (level_with h C ts [p])"
    by (rule rings_fresh [OF r qn]) auto
  have "get_link s0 = get_link (s\<lparr>nodes := (nodes s)(q \<mapsto> NonLeaf m)\<rparr>)"
    by (rule get_link_nodes) (use n pq in \<open>auto simp: s0 node_link_def bplus_node.defs\<close>)
  then have r0: "rings s0 (level_with h C ts [p])" by (rule rings_cong [THEN iffD2, OF _ fr])
  have ok: "lists_ok (level_with h C ts [p])" unfolding P by (rule lists_ok_tree [OF di])
  have qf: "q \<notin> set (level_with h C ts [p] j)" for j
  proof -
    have "q \<notin> set (ptrs ?t)"
    proof -
      have "q \<notin> set (ptrs t)" if "t \<in> set ts" for t
        using that sub(1) repr_some(1) qn by metis
      moreover have "q \<notin> set (cptrs C)"
        using crepr_some [of "nodes s" "items s" C p q] g qn by (auto simp: growing_def)
      ultimately show ?thesis using pq by (auto simp: ptrs_plug)
    qed
    then show ?thesis using level_ptrs_subset [of ?H j ?t] fun_cong [OF P, of j] by auto
  qed
  have lk: "get_link s0 (Link q) = Some (link m)" "get_link s0 (Link p) = Some (link n)"
    using pq by (simp_all add: s0 get_link_def get_node_def bplus_node.defs)
  have mid: "level_with h C ts [p] (Suc h) = cleft (Suc h) C (Suc h) @ p # cright (Suc h) C (Suc h)" by simp
  have upd: "(level_with h C ts [p])(Suc h := cleft (Suc h) C (Suc h) @ xs @ cright (Suc h) C (Suc h)) = level_with h C ts xs" for xs
    by auto
  show "\<exists>s1. list_add (Link q) (Link p) s0 = Some s1 \<and> same_core s0 s1 \<and> rings s1 (level_with h C ts [p, q])"
    using rings_add_after [OF r0 ok _ mid qf lk(1)] H unfolding upd [of "[p, q]", simplified] by simp
  show "\<exists>s1. list_add_between (Link q) (prev (link n)) (Link p) s0 = Some s1 \<and> same_core s0 s1 \<and> rings s1 (level_with h C ts [q, p])"
    using rings_add_before [OF r0 ok _ mid qf lk] H unfolding upd [of "[q, p]", simplified] by simp
qed


text \<open>What the split of the full node needs and what it gives.\<close>

lemma sibling_split:
  assumes g: "growing s (Frame p ul kl kr ur # C) l r k h c" and hv: "halves s (Some p) (Some p) l r"
    and ts: "ts = ul @ l # r # ur" and ks: "ks = kl @ k # kr" and full: "length ts = Suc (ord_of s)"
    and n: "nodes s p = Some (NonLeaf n)" and q: "q = next_ptr s"
    and m: "non_leaf_shape m" "node_type m = BPLUS_TREE_NON_LEAF" "parent m = None"
    and s0: "s0 = s\<lparr>next_ptr := Suc q, nodes := (nodes s)(q \<mapsto> NonLeaf m, p \<mapsto> NonLeaf (n\<lparr>count := a\<rparr>))\<rparr>"
    and core: "same_core s0 s1"
  obtains n' m' where "split_ready (nodes s1) p q n' m' (map root_ptr ul) c (map root_ptr ur) kl kr (root_ptr l) (root_ptr r)" "count n' = a"
    "\<And>i s3. min_children (ord_of s) \<le> i \<Longrightarrow> min_children (ord_of s) \<le> length ts - i \<Longrightarrow> rings s1 (level_with h C ts [p, q]) \<Longrightarrow>
       split_done s1 s3 p q n' m' i (map root_ptr ts) ks \<Longrightarrow>
       growing s3 C (ANode p (take i ts) (take (i - 1) ks)) (ANode q (drop i ts) (drop i ks)) (ks ! (i - 1)) (Suc h) p \<and>
       halves s3 (cpar C) None (ANode p (take i ts) (take (i - 1) ks)) (ANode q (drop i ts) (drop i ks))"
    "\<And>i s3. min_children (ord_of s) \<le> i \<Longrightarrow> min_children (ord_of s) \<le> length ts - i \<Longrightarrow> rings s1 (level_with h C ts [q, p]) \<Longrightarrow>
       split_done s1 s3 q p m' n' i (map root_ptr ts) ks \<Longrightarrow>
       growing s3 C (ANode q (take i ts) (take (i - 1) ks)) (ANode p (drop i ts) (drop i ks)) (ks ! (i - 1)) (Suc h) p \<and>
       halves s3 None (cpar C) (ANode q (take i ts) (take (i - 1) ks)) (ANode p (drop i ts) (drop i ks))"
proof -
  have qn: "nodes s q = None" using g q by (auto simp: growing_def heap_ok_def)
  have N: "map_option unlink (nodes s1 x) = map_option unlink (((nodes s)(q \<mapsto> NonLeaf m, p \<mapsto> NonLeaf (n\<lparr>count := a\<rparr>))) x)" for x
    using core by (simp add: same_core_def s0)
  obtain n' m' where r: "split_ready (nodes s1) p q n' m' (map root_ptr ul) c (map root_ptr ur) kl kr (root_ptr l) (root_ptr r)"
      "node_type n' = BPLUS_TREE_NON_LEAF" "parent n' = cpar C" "count n' = a" "node_type m' = node_type m" "parent m' = parent m"
    using growing_split_ready [OF g hv n qn m(1) N] by blast
  have nn: "nodes s1 p = Some (NonLeaf n')" "nodes s1 q = Some (NonLeaf m')"
    using split_ready_shape [OF r(1)] by auto
  have N2: "map_option unlink (nodes s1 x) = map_option unlink (nodes s x)" if "x \<noteq> p" "x \<noteq> q" for x
    using N [of x] that by simp
  have s1: "items s1 = items s" "next_ptr s1 = Suc q" "raw_leaf s1 = raw_leaf s" "raw_non_leaf s1 = raw_non_leaf s"
      "root (tree s1) = root (tree s)" "level (tree s1) = level (tree s)" "order (tree s1) = order (tree s)"
      "entries (tree s1) = entries (tree s)" "length (levels (tree s1)) = length (levels (tree s))"
    using core by (auto simp: same_core_def s0)
  have mt: "node_type m' = BPLUS_TREE_NON_LEAF" "parent m' = None" using r(5,6) m by auto
  have one: "growing s3 C (ANode p (take i ts) (take (i - 1) ks)) (ANode q (drop i ts) (drop i ks)) (ks ! (i - 1)) (Suc h) p \<and>
      halves s3 (cpar C) None (ANode p (take i ts) (take (i - 1) ks)) (ANode q (drop i ts) (drop i ks))"
    if "min_children (ord_of s) \<le> i" "min_children (ord_of s) \<le> length ts - i"
      "rings s1 (level_with h C ts [p, q])" "split_done s1 s3 p q n' m' i (map root_ptr ts) ks" for i s3
    by (rule split_growing [OF g hv qn q [symmetric] _ s1 _ ts ks nn r(2) mt(1) that(4,1,2) full that(3), unfolded r(3) mt(2)])
      (simp_all add: N2)
  have two: "growing s3 C (ANode q (take i ts) (take (i - 1) ks)) (ANode p (drop i ts) (drop i ks)) (ks ! (i - 1)) (Suc h) p \<and>
      halves s3 None (cpar C) (ANode q (take i ts) (take (i - 1) ks)) (ANode p (drop i ts) (drop i ks))"
    if "min_children (ord_of s) \<le> i" "min_children (ord_of s) \<le> length ts - i"
      "rings s1 (level_with h C ts [q, p])" "split_done s1 s3 q p m' n' i (map root_ptr ts) ks" for i s3
    by (rule split_growing [OF g hv qn q [symmetric] _ s1 _ ts ks nn(2,1) mt(1) r(2) that(4,1,2) full that(3), unfolded r(3) mt(2)])
      (simp_all add: N2)
  show thesis by (rule that [OF r(1,4) one two])
qed

end
