(* ===== verification/MBT_Ascent.thy ===== *)
theory MBT_Ascent
  imports MBT_Inserted
begin

text \<open>
  The way up after a split: what \<^verbatim>\<open>non_leaf_insert\<close> and \<^verbatim>\<open>parent_node_build\<close>
  of \<^verbatim>\<open>src/backend/mbt/mbtree.c\<close> make of a node that has become two. A full node
  above is split in its turn, a node with room takes the new sibling, and above the
  root a new root is built; in the end the heap holds a tree again.
\<close>

subsection \<open>Splitting a full node\<close>

text \<open>One node has become two that wait for their place in the node above.\<close>

definition doubled :: "heap \<Rightarrow> frame list \<Rightarrow> ptr \<Rightarrow> atree \<Rightarrow> atree \<Rightarrow> int \<Rightarrow> nat \<Rightarrow> bool" where
  "doubled s C p l r k h \<longleftrightarrow>
     growing s C l r k h p \<and>
     (root_ptr l = p \<and> halves s (cpar C) None l r \<or> root_ptr r = p \<and> halves s None (cpar C) l r)"

lemma split_sizes:
  assumes "3 \<le> (n :: nat)" "i = Suc n div 2 \<or> 4 \<le> n \<and> i = Suc (Suc n div 2)"
  shows "min_children n \<le> i" "min_children n \<le> Suc n - i" "2 \<le> i" "Suc n div 2 < n"
  using assms by (auto simp: min_children_def)

lemma keys_parts: "keys (ANode p (take i ts) ks) @ keys (ANode q (drop i ts) ks') = concat (map keys ts)"
  by (simp flip: concat_append map_append)

text \<open>A full node above, with the new node that is to become its sibling.\<close>

definition full_node ::
    "heap \<Rightarrow> heap \<Rightarrow> ptr \<Rightarrow> ptr \<Rightarrow> atree list \<Rightarrow> int list \<Rightarrow> int list \<Rightarrow> atree list \<Rightarrow> frame list \<Rightarrow> atree \<Rightarrow> atree \<Rightarrow> int \<Rightarrow> nat \<Rightarrow> ptr \<Rightarrow>
     bplus_non_leaf \<Rightarrow> bplus_non_leaf \<Rightarrow> bool" where
  "full_node s s0 p q ul kl kr ur C l r k h c n m \<longleftrightarrow>
     growing s (Frame p ul kl kr ur # C) l r k h c \<and> halves s (Some p) (Some p) l r \<and>
     Suc (length ul + length ur) = ord_of s \<and> nodes s p = Some (NonLeaf n) \<and> q = next_ptr s \<and>
     non_leaf_shape m \<and> node_type m = BPLUS_TREE_NON_LEAF \<and> parent m = None \<and>
     s0 = s\<lparr>next_ptr := Suc q, nodes := (nodes s)(q \<mapsto> NonLeaf m)\<rparr>"

lemma full_node_facts:
  assumes "full_node s s0 p q ul kl kr ur C l r k h c n m"
  shows "growing s (Frame p ul kl kr ur # C) l r k h c" "halves s (Some p) (Some p) l r"
    "length (ul @ l # r # ur) = Suc (ord_of s)" "nodes s p = Some (NonLeaf n)" "q = next_ptr s"
    "non_leaf_shape m" "node_type m = BPLUS_TREE_NON_LEAF" "parent m = None"
    "s0 = s\<lparr>next_ptr := Suc q, nodes := (nodes s)(q \<mapsto> NonLeaf m, p \<mapsto> NonLeaf (n\<lparr>count := count n\<rparr>))\<rparr>"
    "s0\<lparr>nodes := (nodes s0)(p \<mapsto> NonLeaf (n\<lparr>count := a\<rparr>))\<rparr> =
       s\<lparr>next_ptr := Suc q, nodes := (nodes s)(q \<mapsto> NonLeaf m, p \<mapsto> NonLeaf (n\<lparr>count := a\<rparr>))\<rparr>"
    "nodes s0 p = Some (NonLeaf n)" "count n = int (Suc (length ul + length ur))"
    "Suc (length ul + length ur) = ord_of s" "3 \<le> ord_of s"
    "length kl = length ul" "length kr = length ur"
proof -
  show g: "growing s (Frame p ul kl kr ur # C) l r k h c" "halves s (Some p) (Some p) l r"
    "length (ul @ l # r # ur) = Suc (ord_of s)" and n: "nodes s p = Some (NonLeaf n)" and q: "q = next_ptr s"
    and m: "non_leaf_shape m" "node_type m = BPLUS_TREE_NON_LEAF" "parent m = None" and "Suc (length ul + length ur) = ord_of s"
    using assms by (simp_all add: full_node_def)
  have G: "heap_ok s" "crepr (nodes s) (items s) (Frame p ul kl kr ur # C) c" "cwf (Frame p ul kl kr ur # C)"
    using g(1) by (simp_all add: growing_def)
  have pq: "p \<noteq> q" using n q G(1) by (auto simp: heap_ok_def)
  have s0: "s0 = s\<lparr>next_ptr := Suc q, nodes := (nodes s)(q \<mapsto> NonLeaf m)\<rparr>"
    using assms unfolding full_node_def by blast
  show "s0 = s\<lparr>next_ptr := Suc q, nodes := (nodes s)(q \<mapsto> NonLeaf m, p \<mapsto> NonLeaf (n\<lparr>count := count n\<rparr>))\<rparr>"
    "s0\<lparr>nodes := (nodes s0)(p \<mapsto> NonLeaf (n\<lparr>count := a\<rparr>))\<rparr> =
       s\<lparr>next_ptr := Suc q, nodes := (nodes s)(q \<mapsto> NonLeaf m, p \<mapsto> NonLeaf (n\<lparr>count := a\<rparr>))\<rparr>"
    "nodes s0 p = Some (NonLeaf n)"
    using n pq by (simp_all add: s0 fun_upd_idem)
  show "count n = int (Suc (length ul + length ur))" using frame_node [OF G(2)] n by auto
  show "3 \<le> ord_of s" using G(1) by (simp add: heap_ok_def nat_le_iff le_nat_iff)
  show "length kl = length ul" "length kr = length ur" using G(3) by simp_all
qed

abbreviation split_result ::
    "heap \<Rightarrow> (int \<times> heap) option \<Rightarrow> ptr \<Rightarrow> ptr \<Rightarrow> frame list \<Rightarrow> ptr \<Rightarrow> nat \<Rightarrow> atree list \<Rightarrow> bool" where
  "split_result s res a b C p h ts \<equiv>
     \<exists>s3 l' r' k'. res = Some (k', s3) \<and> same_sizes s s3 \<and> root_ptr l' = a \<and> root_ptr r' = b \<and>
       doubled s3 C p l' r' k' (Suc h) \<and> keys l' @ keys r' = concat (map keys ts)"

lemma full_split_sizes:
  assumes "full_node s s0 p q ul kl kr ur C l r k h c n m" "same_core z s1" "tree z = tree s0" "split_done s1 s3 a b na nb i cs ks"
  shows "same_sizes s s3"
proof -
  have "tree s0 = tree s" using full_node_facts(9) [OF assms(1)] by simp
  moreover have "tree s3 = tree s1" using assms(4) by (auto simp: split_done_def)
  ultimately show ?thesis using assms(2,3) by (simp add: same_sizes_def same_core_def)
qed

lemma full_split_left:
  assumes f: "full_node s s0 p q ul kl kr ur C l r k h c n m"
    and sp: "sp = Suc (ord_of s) div 2" and ins: "length ul < sp"
  shows "split_result s (non_leaf_split_left p q (root_ptr l) (root_ptr r) k (int (length ul)) s0) q p C p h (ul @ l # r # ur)"
proof -
  note F = full_node_facts [OF f]
  define ts ks where "ts = ul @ l # r # ur" and "ks = kl @ k # kr"
  have lts: "length ts = Suc (ord_of s)" using F(3) ts_def by simp
  note z = split_sizes [OF F(14) disjI1 [OF sp]]
  obtain s1 where s1: "list_add_between (Link q) (prev (link n)) (Link p) s0 = Some s1" "same_core s0 s1" "rings s1 (level_with h C ts [q, p])"
    using sibling_lists(2) [OF F(1,2) ts_def F(4,5,9)] by blast
  show ?thesis
    unfolding ts_def [symmetric]
  proof (rule sibling_split [OF F(1,2) ts_def ks_def lts F(4-9) s1(2)])
    fix n' m'
    assume r: "split_ready (nodes s1) p q n' m' (map root_ptr ul) c (map root_ptr ur) kl kr (root_ptr l) (root_ptr r)"
      and "\<And>i s3. min_children (ord_of s) \<le> i \<Longrightarrow> min_children (ord_of s) \<le> length ts - i \<Longrightarrow> rings s1 (level_with h C ts [q, p]) \<Longrightarrow>
       split_done s1 s3 q p m' n' i (map root_ptr ts) ks \<Longrightarrow>
       growing s3 C (ANode q (take i ts) (take (i - 1) ks)) (ANode p (drop i ts) (drop i ks)) (ks ! (i - 1)) (Suc h) p \<and>
       halves s3 None (cpar C) (ANode q (take i ts) (take (i - 1) ks)) (ANode p (drop i ts) (drop i ks))"
    note dn = this(2) [OF z(1) z(2) [folded lts] s1(3)]
    have cs: "map root_ptr ts = map root_ptr ul @ root_ptr l # root_ptr r # map root_ptr ur" by (simp add: ts_def)
    have "\<exists>s3. non_leaf_split_left p q (root_ptr l) (root_ptr r) k (int (length (map root_ptr ul))) s0 = Some (ks ! (sp - 1), s3) \<and>
        split_done s1 s3 q p m' n' sp (map root_ptr ts) ks"
      by (rule split_left_spec [OF r F(11) _ s1(1) _ _ z(3) _ ks_def cs]) (use F(12,13) sp ins z(4) in auto)
    then obtain s3 where s3: "non_leaf_split_left p q (root_ptr l) (root_ptr r) k (int (length ul)) s0 = Some (ks ! (sp - 1), s3)"
        "split_done s1 s3 q p m' n' sp (map root_ptr ts) ks"
      by auto
    show "split_result s (non_leaf_split_left p q (root_ptr l) (root_ptr r) k (int (length ul)) s0) q p C p h ts"
      using s3(1) dn [OF s3(2)] full_split_sizes [OF f s1(2) refl s3(2)] keys_parts unfolding doubled_def by (metis root_ptr.simps(2))
  qed
qed

lemma full_split_right1:
  assumes f: "full_node s s0 p q ul kl kr ur C l r k h c n m"
    and ins: "length ul = Suc (ord_of s) div 2"
  shows "split_result s (non_leaf_split_right1 p q (root_ptr l) (root_ptr r) k (int (length ul)) s0) p q C p h (ul @ l # r # ur)"
proof -
  note F = full_node_facts [OF f]
  define ts ks where "ts = ul @ l # r # ur" and "ks = kl @ k # kr"
  have lts: "length ts = Suc (ord_of s)" using F(3) ts_def by simp
  note z = split_sizes [OF F(14) disjI1 [OF ins]]
  obtain s1 where s1: "list_add (Link q) (Link p) s0 = Some s1" "same_core s0 s1" "rings s1 (level_with h C ts [p, q])"
    using sibling_lists(1) [OF F(1,2) ts_def F(4,5,9)] by blast
  show ?thesis
    unfolding ts_def [symmetric]
  proof (rule sibling_split [OF F(1,2) ts_def ks_def lts F(4-9) s1(2)])
    fix n' m'
    assume r: "split_ready (nodes s1) p q n' m' (map root_ptr ul) c (map root_ptr ur) kl kr (root_ptr l) (root_ptr r)"
      and "\<And>i s3. min_children (ord_of s) \<le> i \<Longrightarrow> min_children (ord_of s) \<le> length ts - i \<Longrightarrow> rings s1 (level_with h C ts [p, q]) \<Longrightarrow>
       split_done s1 s3 p q n' m' i (map root_ptr ts) ks \<Longrightarrow>
       growing s3 C (ANode p (take i ts) (take (i - 1) ks)) (ANode q (drop i ts) (drop i ks)) (ks ! (i - 1)) (Suc h) p \<and>
       halves s3 (cpar C) None (ANode p (take i ts) (take (i - 1) ks)) (ANode q (drop i ts) (drop i ks))"
    note dn = this(2) [OF z(1) z(2) [folded lts] s1(3)]
    have cs: "map root_ptr ts = map root_ptr ul @ root_ptr l # root_ptr r # map root_ptr ur" by (simp add: ts_def)
    have "\<exists>s3. non_leaf_split_right1 p q (root_ptr l) (root_ptr r) k (int (length (map root_ptr ul))) s0 =
          Some ((kl @ k # kr) ! (length (map root_ptr ul) - 1), s3) \<and>
        split_done s1 s3 p q n' m' (length (map root_ptr ul)) (map root_ptr ul @ root_ptr l # root_ptr r # map root_ptr ur) (kl @ k # kr)"
    proof (rule split_right1_spec [OF r F(11) _ s1(1)])
      show "count n = int (Suc (length (map root_ptr ul) + length (map root_ptr ur)))" using F(12) by simp
      show "length (map root_ptr ul) = Suc (Suc (length (map root_ptr ul) + length (map root_ptr ur))) div 2"
        unfolding length_map F(13) by (rule ins)
    qed (use z(3) in simp)
    then obtain s3 where s3: "non_leaf_split_right1 p q (root_ptr l) (root_ptr r) k (int (length ul)) s0 = Some (ks ! (length ul - 1), s3)"
        "split_done s1 s3 p q n' m' (length ul) (map root_ptr ts) ks"
      unfolding cs ks_def by auto
    show "split_result s (non_leaf_split_right1 p q (root_ptr l) (root_ptr r) k (int (length ul)) s0) p q C p h ts"
      using s3(1) dn [OF s3(2)] full_split_sizes [OF f s1(2) refl s3(2)] keys_parts unfolding doubled_def by (metis root_ptr.simps(2))
  qed
qed

lemma full_split_right2:
  assumes f: "full_node s s0 p q ul kl kr ur C l r k h c n m"
    and sp: "sp = Suc (Suc (ord_of s) div 2)" and ins: "sp \<le> length ul"
  shows "split_result s (non_leaf_split_right2 p q (root_ptr l) (root_ptr r) k (int (length ul)) s0) p q C p h (ul @ l # r # ur)"
proof -
  note F = full_node_facts [OF f]
  define ts ks where "ts = ul @ l # r # ur" and "ks = kl @ k # kr"
  define s0' where "s0' = s0\<lparr>nodes := (nodes s0)(p \<mapsto> NonLeaf (n\<lparr>count := int sp\<rparr>))\<rparr>"
  note s0 = F(10) [of "int sp", folded s0'_def]
  have tz: "tree s0' = tree s0" by (simp add: s0'_def)
  have lts: "length ts = Suc (ord_of s)" using F(3) ts_def by simp
  have "4 \<le> ord_of s" using F(13,14) sp ins by linarith
  note z = split_sizes [OF F(14) disjI2 [OF conjI [OF this sp]]]
  obtain s1 where s1: "list_add (Link q) (Link p) s0' = Some s1" "same_core s0' s1" "rings s1 (level_with h C ts [p, q])"
    using sibling_lists(1) [OF F(1,2) ts_def F(4,5) s0] by blast
  show ?thesis
    unfolding ts_def [symmetric]
  proof (rule sibling_split [OF F(1,2) ts_def ks_def lts F(4-8) s0 s1(2)])
    fix n' m'
    let ?csa = "map root_ptr (take sp ul)" and ?csm = "map root_ptr (drop sp ul)" and ?csr = "map root_ptr ur"
    assume r: "split_ready (nodes s1) p q n' m' (map root_ptr ul) c (map root_ptr ur) kl kr (root_ptr l) (root_ptr r)"
      and n': "count n' = int sp"
      and "\<And>i s3. min_children (ord_of s) \<le> i \<Longrightarrow> min_children (ord_of s) \<le> length ts - i \<Longrightarrow> rings s1 (level_with h C ts [p, q]) \<Longrightarrow>
       split_done s1 s3 p q n' m' i (map root_ptr ts) ks \<Longrightarrow>
       growing s3 C (ANode p (take i ts) (take (i - 1) ks)) (ANode q (drop i ts) (drop i ks)) (ks ! (i - 1)) (Suc h) p \<and>
       halves s3 (cpar C) None (ANode p (take i ts) (take (i - 1) ks)) (ANode q (drop i ts) (drop i ks))"
    note dn = this(3) [OF z(1) z(2) [folded lts] s1(3)]
    have ul: "?csa @ ?csm = map root_ptr ul" "take sp kl @ drop sp kl = kl" by (simp_all flip: map_append)
    have cs: "map root_ptr ts = ?csa @ ?csm @ root_ptr l # root_ptr r # ?csr"
      by (simp add: ts_def ul(1) [symmetric])
    have len: "length ?csa = sp" "length ?csm = length ul - sp" "length (take sp kl) = sp" using ins F(15) by simp_all
    have "\<exists>s3. non_leaf_split_right2 p q (root_ptr l) (root_ptr r) k (int (length (?csa @ ?csm))) s0 =
          Some ((take sp kl @ drop sp kl @ k # kr) ! (length ?csa - 1), s3) \<and>
        split_done s1 s3 p q n' m' (length ?csa) (?csa @ ?csm @ root_ptr l # root_ptr r # ?csr) (take sp kl @ drop sp kl @ k # kr)"
    proof (rule split_right2_spec [where c = c and ?n0.0 = n])
      show "split_ready (nodes s1) p q n' m' (?csa @ ?csm) c ?csr (take sp kl @ drop sp kl) kr (root_ptr l) (root_ptr r)"
        unfolding ul by (rule r)
      show "list_add (Link q) (Link p) (s0\<lparr>nodes := (nodes s0)(p \<mapsto> NonLeaf (n\<lparr>count := int (length ?csa)\<rparr>))\<rparr>) = Some s1"
        unfolding len s0'_def [symmetric] by (rule s1(1))
      show "count n = int (Suc (length ?csa + length ?csm + length ?csr))" using F(12) ins by simp
      show "length ?csa = Suc (Suc (Suc (length ?csa + length ?csm + length ?csr)) div 2)"
        using F(13) sp ins by simp
    qed (use F(11) n' len in simp_all)
    then obtain s3 where s3: "non_leaf_split_right2 p q (root_ptr l) (root_ptr r) k (int (length ul)) s0 = Some (ks ! (sp - 1), s3)"
        "split_done s1 s3 p q n' m' sp (map root_ptr ts) ks"
      unfolding cs ks_def len ul by (metis append.assoc length_map ul(2))
    show "split_result s (non_leaf_split_right2 p q (root_ptr l) (root_ptr r) k (int (length ul)) s0) p q C p h ts"
      using s3(1) dn [OF s3(2)] full_split_sizes [OF f s1(2) tz s3(2)] keys_parts unfolding doubled_def by (metis root_ptr.simps(2))
  qed
qed

lemma c_div_half: "c_div (int n + 1) 2 = int (Suc n div 2)"
  by (simp add: c_div_def zdiv_int)

lemma non_leaf_insert_full:
  assumes g: "growing s (Frame p ul kl kr ur # C) l r k h c" and hv: "halves s (Some p) (Some p) l r"
    and full: "Suc (length ul + length ur) = ord_of s"
  shows "\<exists>s3 l' r' k'. non_leaf_insert (Suc fuel) p (root_ptr l) (root_ptr r) k lv s =
      parent_node_build (non_leaf_insert fuel) (root_ptr l') (root_ptr r') k' lv s3 \<and>
    same_sizes s s3 \<and> doubled s3 C p l' r' k' (Suc h) \<and> keys l' @ keys r' = concat (map keys (ul @ l # r # ur))"
proof -
  have G: "heap_ok s" "crepr (nodes s) (items s) (Frame p ul kl kr ur # C) c"
    using g by (simp_all add: growing_def)
  obtain n where n: "nodes s p = Some (NonLeaf n)" "non_leaf_shape n" "count n = int (Suc (length ul + length ur))"
      "length ul + length ur = length kl + length kr" "length ul + length ur < 50" "take (length kl + length kr) (nkey n) = kl @ kr"
    using frame_node [OF G(2)] by blast
  obtain m where m: "non_leaf_new s = Some (next_ptr s, s\<lparr>next_ptr := Suc (next_ptr s), nodes := (nodes s)(next_ptr s \<mapsto> NonLeaf m)\<rparr>)"
      "non_leaf_shape m" "node_type m = BPLUS_TREE_NON_LEAF" "parent m = None"
    using non_leaf_new_spec [OF G(1)] by blast
  define q where "q = next_ptr s"
  define s0 where "s0 = s\<lparr>next_ptr := Suc q, nodes := (nodes s)(q \<mapsto> NonLeaf m)\<rparr>"
  define sp where "sp = Suc (ord_of s) div 2"
  have new: "non_leaf_new s = Some (q, s0)" using m(1) by (simp only: s0_def q_def)
  have f: "full_node s s0 p q ul kl kr ur C l r k h c n m"
    using g hv full n(1) m(2-4) unfolding full_node_def s0_def q_def by blast
  have lk: "length kl = length ul" by (rule full_node_facts(15) [OF f])
  have srt: "sorted_wrt (<) (kl @ k # kr)" using ordereds_keys_sorted [OF growing_ordereds [OF g]] by blast
  have search: "key_binary_search (nkey n) (count n - 1) k = Some (- int (length ul) - 1)"
    using search_mid [OF srt n(6)] n(2-5) lk by (simp add: non_leaf_shape_def)
  have ord: "count n = order (tree s)" using n(3) full by simp
  have sp2: "c_div (count n + 1) 2 = int sp" unfolding n(3) full sp_def by (rule c_div_half)
  let ?split = "if int (length ul) < int sp then non_leaf_split_left p q (root_ptr l) (root_ptr r) k (int (length ul)) s0
    else if int (length ul) = int sp then non_leaf_split_right1 p q (root_ptr l) (root_ptr r) k (int (length ul)) s0
    else non_leaf_split_right2 p q (root_ptr l) (root_ptr r) k (int (length ul)) s0"
  have run: "non_leaf_insert (Suc fuel) p (root_ptr l) (root_ptr r) k lv s = do {
      (sk, s') \<leftarrow> ?split;
      if int (length ul) < int sp then parent_node_build (non_leaf_insert fuel) q p sk lv s'
      else parent_node_build (non_leaf_insert fuel) p q sk lv s' }"
    using search ord sp2 new by (simp add: get_non_leaf_eq [OF n(1)] Let_def)
  have fin: ?thesis if sr: "split_result s res a b C p h (ul @ l # r # ur)"
      and eq: "non_leaf_insert (Suc fuel) p (root_ptr l) (root_ptr r) k lv s =
        res \<bind> (\<lambda>(sk, s'). parent_node_build (non_leaf_insert fuel) a b sk lv s')" for res a b
  proof -
    obtain s3 l' r' k' where z: "res = Some (k', s3)" "same_sizes s s3" "root_ptr l' = a" "root_ptr r' = b"
        "doubled s3 C p l' r' k' (Suc h)" "keys l' @ keys r' = concat (map keys (ul @ l # r # ur))"
      using sr by blast
    show ?thesis by (intro exI conjI) (use z eq in \<open>simp_all del: non_leaf_insert.simps\<close>)
  qed
  consider "length ul < sp" | "length ul = sp" | "Suc sp \<le> length ul" by linarith
  then show ?thesis
  proof cases
    case 1
    show ?thesis by (rule fin [OF full_split_left [OF f sp_def 1]]) (use 1 run in simp)
  next
    case 2
    show ?thesis by (rule fin [OF full_split_right1 [OF f 2 [unfolded sp_def]]]) (use 2 run in simp)
  next
    case 3
    show ?thesis by (rule fin [OF full_split_right2 [OF f arg_cong [OF sp_def, of Suc] 3]]) (use 3 run in simp)
  qed
qed

lemma set_parent_reparent: "repr N it q i t \<Longrightarrow> map_option (set_parent q') (N (root_ptr t)) = map_option (reparent q' i) (N (root_ptr t))"
  by (cases t) (auto simp: leaf_at_def non_leaf_at_def)

lemma repr_parent: "repr (nodes s) it q i t \<Longrightarrow> \<exists>nd. nodes s (root_ptr t) = Some nd \<and> parent (node_hd nd) = q"
  by (cases t) (auto simp: leaf_at_def non_leaf_at_def bplus_node.defs)

text \<open>A half that has no parent yet gets one; nothing else depends on it.\<close>

lemma growing_nodes:
  assumes "growing s C l r k h c" "\<And>x. map_option node_link (N x) = map_option node_link (nodes s x)"
    "\<And>x. x \<in> set (cptrs C) \<Longrightarrow> N x = nodes s x"
  shows "growing (s\<lparr>nodes := N\<rparr>) C l r k h c"
proof -
  let ?s = "s\<lparr>nodes := N\<rparr>"
  have "get_link ?s = get_link s" by (rule get_link_nodes) (use assms(2) in simp_all)
  then have "rings ?s P = rings s P" for P by (rule rings_cong)
  moreover have "heap_ok ?s"
  proof (rule heap_ok_nodes)
    show "heap_ok s" using assms(1) by (simp add: growing_def)
    show "\<forall>x. nodes s x = None \<longrightarrow> nodes ?s x = None"
    proof (intro allI impI)
      show "nodes ?s x = None" if "nodes s x = None" for x using assms(2) [of x] that by simp
    qed
  qed simp_all
  moreover have "crepr N (items s) C c = crepr (nodes s) (items s) C c" by (rule crepr_cong) (rule assms(3))
  ultimately show ?thesis using assms(1) unfolding growing_def by simp
qed

lemma node_link_set_parent [simp]: "node_link (set_parent q nd) = node_link nd"
  by (cases nd) (simp_all add: node_link_def bplus_node.defs)

lemma repr_set_parent:
  assumes "repr N it par idx t" "distinct (ptrs t)" "N x = Some nd" "x = root_ptr t \<or> x \<notin> set (ptrs t)"
  shows "repr (N(x \<mapsto> set_parent q nd)) it (if x = root_ptr t then q else par) idx t"
proof (cases "x = root_ptr t")
  case True
  have "repr (N(x \<mapsto> set_parent q nd)) it q idx t"
    by (rule repr_reparent [OF assms(1,2)]) (use True assms(3) set_parent_reparent [OF assms(1), of q] in simp_all)
  then show ?thesis using True by simp
next
  case False
  then have "repr (N(x \<mapsto> set_parent q nd)) it par idx t = repr N it par idx t"
    by (intro repr_cong(1)) (use assms(4) in auto)
  then show ?thesis using False assms(1) by simp
qed

lemma set_half_parent:
  assumes g: "growing s C l r k h c" and hv: "halves s pl pr l r" and x: "x = root_ptr l \<or> x = root_ptr r"
  shows "\<exists>s'. upd_node (set_parent q) x s = Some s' \<and> growing s' C l r k h c \<and> tree s' = tree s \<and>
    halves s' (if x = root_ptr l then q else pl) (if x = root_ptr r then q else pr) l r"
proof -
  obtain il ir where lr: "repr (nodes s) (items s) pl il l" "repr (nodes s) (items s) pr ir r"
    using hv by (auto simp: halves_def)
  have di: "distinct (ptrs l)" "distinct (ptrs r)" "set (ptrs l) \<inter> set (ptrs r) = {}" "set (ptrs l) \<inter> set (cptrs C) = {}"
      "set (ptrs r) \<inter> set (cptrs C) = {}"
    using g unfolding growing_def by auto
  note rt = root_ptr_in_ptrs [of l] root_ptr_in_ptrs [of r]
  obtain nd where nd: "nodes s x = Some nd" using x repr_parent [OF lr(1)] repr_parent [OF lr(2)] by auto
  let ?N = "(nodes s)(x \<mapsto> set_parent q nd)"
  have "growing (s\<lparr>nodes := ?N\<rparr>) C l r k h c"
    by (rule growing_nodes [OF g]) (use nd x rt di in auto)
  moreover have "repr ?N (items s) (if x = root_ptr l then q else pl) il l"
    by (rule repr_set_parent [OF lr(1) di(1) nd]) (use x rt di in auto)
  moreover have "repr ?N (items s) (if x = root_ptr r then q else pr) ir r"
    by (rule repr_set_parent [OF lr(2) di(2) nd]) (use x rt di in auto)
  ultimately show ?thesis
    by (intro exI [of _ "s\<lparr>nodes := ?N\<rparr>"]) (auto simp: upd_node_def nd halves_def)
qed

lemma roots_differ: "growing s C l r k h c \<Longrightarrow> root_ptr l \<noteq> root_ptr r"
  using root_ptr_in_ptrs [of l] root_ptr_in_ptrs [of r] by (auto simp: growing_def)

lemma halves_parents:
  assumes "halves s pl pr l r"
  shows "\<exists>nl nr. get_node s (root_ptr l) = Some nl \<and> parent nl = pl \<and> get_node s (root_ptr r) = Some nr \<and> parent nr = pr"
proof -
  obtain il ir where lr: "repr (nodes s) (items s) pl il l" "repr (nodes s) (items s) pr ir r"
    using assms by (auto simp: halves_def)
  show ?thesis using repr_parent [OF lr(1)] repr_parent [OF lr(2)] by (auto simp: get_node_def)
qed

lemma parent_build_step:
  assumes "doubled s (Frame q ul kl kr ur # C) p l r k h"
  shows "\<exists>s'. parent_node_build f (root_ptr l) (root_ptr r) k lv s = f q (root_ptr l) (root_ptr r) k (lv + 1) s' \<and>
    growing s' (Frame q ul kl kr ur # C) l r k h p \<and> halves s' (Some q) (Some q) l r \<and> tree s' = tree s"
proof -
  have g: "growing s (Frame q ul kl kr ur # C) l r k h p" and
    hv: "halves s (Some q) None l r \<or> halves s None (Some q) l r"
    using assms by (auto simp: doubled_def)
  note df = roots_differ [OF g]
  from hv show ?thesis
  proof
    assume h: "halves s (Some q) None l r"
    show ?thesis
      using halves_parents [OF h] set_half_parent [OF g h, of "root_ptr r" "Some q"] df by (auto simp: parent_node_build_def)
  next
    assume h: "halves s None (Some q) l r"
    show ?thesis
      using halves_parents [OF h] set_half_parent [OF g h, of "root_ptr l" "Some q"] df by (auto simp: parent_node_build_def)
  qed
qed

lemma new_root:
  assumes g: "growing s [] l r k h c" and hv: "halves s None None l r" and H: "Suc h < BPLUS_MAX_LEVEL"
  shows "\<exists>s' t. parent_node_build f (root_ptr l) (root_ptr r) k lv s = Some (0, s') \<and> tree_rep s' t \<and>
    keys t = keys l @ keys r \<and> same_sizes s s'"
proof -
  let ?L = "root_ptr l" and ?R = "root_ptr r"
  have ok: "heap_ok s" using g by (simp add: growing_def)
  obtain il ir where lr: "repr (nodes s) (items s) None il l" "repr (nodes s) (items s) None ir r"
    using hv by (auto simp: halves_def)
  obtain nl nr where nd: "nodes s ?L = Some nl" "nodes s ?R = Some nr" "parent (node_hd nl) = None" "parent (node_hd nr) = None"
    using repr_parent [OF lr(1)] repr_parent [OF lr(2)] by auto
  define q where "q = next_ptr s"
  obtain m where new: "non_leaf_new s = Some (q, s\<lparr>next_ptr := Suc q, nodes := (nodes s)(q \<mapsto> NonLeaf m)\<rparr>)"
      and m: "non_leaf_shape m" "node_type m = BPLUS_TREE_NON_LEAF" "parent_key_idx m = -1" "parent m = None"
    using non_leaf_new_spec [OF ok] unfolding q_def by blast
  have qn: "nodes s q = None" using ok by (simp add: heap_ok_def q_def)
  have df: "?L \<noteq> q" "?R \<noteq> q" "?L \<noteq> ?R" using nd qn roots_differ [OF g] by auto
  have len: "length (nkey m) = 49" "length (sub_ptr m) = 50" using m(1) by (simp_all add: non_leaf_shape_def)
  let ?m = "m\<lparr>nkey := (nkey m)[0 := k], sub_ptr := (sub_ptr m)[0 := Some ?L, 1 := Some ?R], count := 2\<rparr>"
  let ?N = "(nodes s)(?L \<mapsto> reparent (Some q) (-1) nl, ?R \<mapsto> reparent (Some q) 0 nr, q \<mapsto> NonLeaf ?m)"
  define s4 where "s4 = s\<lparr>next_ptr := Suc q, nodes := ?N, tree := (tree s)\<lparr>root := Some q, level := level (tree s) + 1\<rparr>\<rparr>"
  have run: "parent_node_build f ?L ?R k lv s =
      (if level (tree s) + 1 < 0 then None else list_add (Link q) (Head (nat (level (tree s) + 1))) s4) \<bind> (\<lambda>s. Some (0, s))"
  proof -
    let ?m1 = "m\<lparr>nkey := (nkey m)[0 := k]\<rparr>"
    let ?m2 = "?m1\<lparr>sub_ptr := (sub_ptr m)[0 := Some ?L]\<rparr>"
    let ?m3 = "?m1\<lparr>sub_ptr := (sub_ptr m)[0 := Some ?L, 1 := Some ?R]\<rparr>"
    define z0 where "z0 = s\<lparr>next_ptr := Suc q, nodes := (nodes s)(q \<mapsto> NonLeaf m)\<rparr>"
    define z1 where "z1 = z0\<lparr>nodes := (nodes z0)(q \<mapsto> NonLeaf ?m1)\<rparr>"
    define z2 where "z2 = z1\<lparr>nodes := (nodes z1)(q \<mapsto> NonLeaf ?m2, ?L \<mapsto> reparent (Some q) (-1) nl)\<rparr>"
    define z3 where "z3 = z2\<lparr>nodes := (nodes z2)(q \<mapsto> NonLeaf ?m3, ?R \<mapsto> reparent (Some q) 0 nr)\<rparr>"
    define z4 where "z4 = z3\<lparr>nodes := (nodes z3)(q \<mapsto> NonLeaf ?m)\<rparr>"
    have e1: "put_nkey q 0 k z0 = Some z1" using put_nkey_eq [of z0 q m 0] len by (simp add: z0_def z1_def)
    have e2: "attach q 0 (Some ?L) (-1) z1 = Some z2"
      using attach_eq [of z1 q ?m1 0 ?L nl "-1"] df nd len by (simp add: z2_def z1_def z0_def)
    have e3: "attach q 1 (Some ?R) 0 z2 = Some z3"
      using attach_eq [of z2 q ?m2 1 ?R nr 0] df nd len by (simp add: z3_def z2_def z1_def z0_def)
    have e4: "put_children q 2 z3 = Some z4" using put_children_eq [of z3 q ?m3] df by (simp add: z4_def z3_def)
    have t4: "tree z4 = tree s" by (simp add: z4_def z3_def z2_def z1_def z0_def)
    have "nodes z4 = ?N" using df by (auto simp: z4_def z3_def z2_def z1_def z0_def fun_eq_iff)
    then have e5: "z4\<lparr>tree := (tree s)\<lparr>root := Some q, level := level (tree s) + 1\<rparr>\<rparr> = s4"
      by (simp add: t4 s4_def z4_def z3_def z2_def z1_def z0_def)
    show ?thesis
      using nd by (simp add: parent_node_build_def get_node_def new z0_def [symmetric] e1 e2 e3 e4 Let_def e5 t4)
  qed
  have N: "nodes s4 = (adopt q 0 (map root_ptr [l, r]) (nodes s))(q \<mapsto> NonLeaf ?m)"
    using df nd by (auto simp: s4_def fun_eq_iff)
  have rf: "refilled m ?m (map root_ptr [l, r]) [k]"
    using len m(1) by (auto simp: refilled_def non_leaf_shape_def take_Suc_conv_app_nth)
  let ?t = "ANode q [l, r] [k]"
  have lv: "level (tree s) = int h" using g by (simp add: growing_def)
  have di: "distinct (ptrs l @ ptrs r)" using g by (simp add: growing_def)
  have qf: "q \<notin> set (ptrs l)" "q \<notin> set (ptrs r)" using repr_some(1) [OF lr(1)] repr_some(1) [OF lr(2)] qn by blast+
  let ?P = "\<lambda>i. level_ptrs h i l @ level_ptrs h i r"
  have rs: "rings s ?P" using g by (simp add: growing_def)
  have r4: "rings s4 ?P"
  proof -
    let ?z = "s\<lparr>nodes := (nodes s)(q \<mapsto> NonLeaf m)\<rparr>"
    have z: "rings ?z ?P" by (rule rings_fresh [OF rs qn]) simp_all
    have "get_link s4 = get_link ?z"
      by (rule get_link_nodes) (use df nd in \<open>auto simp: s4_def, simp add: node_link_def bplus_node.defs\<close>)
    then show ?thesis by (rule rings_cong [THEN iffD2, OF _ z])
  qed
  have lok: "lists_ok ?P"
  proof -
    have "lists_ok (\<lambda>i. level_ptrs (Suc h) i ?t)" by (rule lists_ok_tree) (use di qf in simp)
    moreover have "set (?P i) \<subseteq> set (level_ptrs (Suc h) i ?t)" "distinct (level_ptrs (Suc h) i ?t) \<Longrightarrow> distinct (?P i)" for i
      by (auto simp: level_ptrs_above split: if_splits)
    ultimately show ?thesis unfolding lists_ok_def by blast
  qed
  have qP: "q \<notin> set (?P i)" for i using qf level_ptrs_subset [of h i l] level_ptrs_subset [of h i r] by auto
  have lk: "get_link s4 (Link q) = Some (link m)" by (simp add: s4_def get_link_def get_node_def bplus_node.defs)
  obtain s' where s': "list_add (Link q) (Head (Suc h)) s4 = Some s'" "same_core s4 s'" "rings s' (?P(Suc h := q # ?P (Suc h)))"
    using rings_add_head [OF r4 lok H qP lk] by blast
  have P': "?P(Suc h := q # ?P (Suc h)) = (\<lambda>i. level_ptrs (Suc h) i ?t)"
    by (auto simp: fun_eq_iff level_ptrs_above)
  have "repr (nodes s4) (items s4) (parent m) (parent_key_idx m) ?t"
  proof (rule repr_refilled [OF _ rf m(2)])
    show "nodes s4 q = Some (NonLeaf ?m)" by (simp add: N)
    show "\<forall>t \<in> set [l, r]. \<exists>par idx. repr (nodes s) (items s4) par idx t" using lr by (auto simp: s4_def)
    show "\<forall>x \<in> set (concat (map ptrs [l, r])). nodes s4 x = adopt q 0 (map root_ptr [l, r]) (nodes s) x"
      using qf unfolding N by auto
  qed (use di in simp_all)
  then have "repr (nodes s') (items s') None (-1) ?t"
    using repr_unlink_on [of ?t "nodes s'" "nodes s4" "items s4" None "-1"] s'(2) m(3,4) by (simp add: same_core_def)
  moreover have "heap_ok s'"
  proof -
    have "nodes s' x = None" if "Suc q \<le> x" for x
    proof -
      have "nodes s x = None" "x \<noteq> q" using ok that by (simp_all add: heap_ok_def q_def)
      then have "nodes s4 x = None" using nd by (auto simp: s4_def)
      moreover have "map_option unlink (nodes s' x) = map_option unlink (nodes s4 x)" using s'(2) by (simp add: same_core_def)
      ultimately show ?thesis by simp
    qed
    then show ?thesis using ok s'(2) by (simp add: heap_ok_def same_core_def s4_def)
  qed
  moreover have "ordered None None ?t" "balanced (Suc h) ?t" "distinct (ptrs ?t)" "sized (ord_of s) (ent_of s) True ?t"
    using g qf heap_ok_def by (auto simp: growing_def)
  moreover have nl: "nat (level (tree s')) = Suc h" and "0 \<le> level (tree s')" "level (tree s') < int BPLUS_MAX_LEVEL"
    using s'(2) lv H by (simp_all add: same_core_def s4_def nat_add_distrib)
  moreover have "root (tree s') = Some q" "ord_of s' = ord_of s" "ent_of s' = ent_of s"
    using s'(2) lv by (simp_all add: same_core_def s4_def)
  ultimately have "tree_rep s' ?t" using s'(3) unfolding P' tree_rep_def nl by simp
  moreover have "parent_node_build f ?L ?R k lv s = Some (0, s')"
    unfolding run lv using s'(1) by (simp add: nat_add_distrib)
  moreover have "same_sizes s s'" using s'(2) by (simp add: same_sizes_def same_core_def s4_def)
  ultimately show ?thesis by (intro exI [of _ s'] exI [of _ ?t]) simp
qed

text \<open>The way up from two halves, wherever they are.\<close>

lemma parent_build_up:
  assumes "doubled s C p l r k h" "length C \<le> fuel" "Suc (h + length C) < BPLUS_MAX_LEVEL"
  shows "\<exists>s' t. parent_node_build (non_leaf_insert fuel) (root_ptr l) (root_ptr r) k lv s = Some (0, s') \<and>
    tree_rep s' t \<and> keys t = ckl C @ keys l @ keys r @ ckr C \<and> same_sizes s s'"
  using assms
proof (induction C arbitrary: s p l r k h lv fuel)
  case Nil
  then show ?case using new_root [of s l r k h p] by (auto simp: doubled_def)
next
  case (Cons fr C)
  obtain q ul kl kr ur where fr: "fr = Frame q ul kl kr ur" by (cases fr)
  obtain fuel' where fu: "fuel = Suc fuel'" "length C \<le> fuel'" using Cons.prems(2) by (cases fuel) auto
  obtain s1 where s1: "parent_node_build (non_leaf_insert fuel) (root_ptr l) (root_ptr r) k lv s =
        non_leaf_insert fuel q (root_ptr l) (root_ptr r) k (lv + 1) s1"
      "growing s1 (Frame q ul kl kr ur # C) l r k h p" "halves s1 (Some q) (Some q) l r" "same_sizes s s1"
    using parent_build_step same_sizes_tree Cons.prems(1) unfolding fr by blast
  have "Suc (length ul + length ur) \<le> ord_of s1" using s1(2) by (auto simp: growing_def split: if_splits)
  then consider "Suc (length ul + length ur) < ord_of s1" | "Suc (length ul + length ur) = ord_of s1" by linarith
  then show ?case
  proof cases
    case 1
    obtain s' where "non_leaf_insert fuel q (root_ptr l) (root_ptr r) k (lv + 1) s1 = Some (0, s')"
        "tree_rep s' (plug C (ANode q (ul @ l # r # ur) (kl @ k # kr)))" "same_sizes s1 s'"
      using non_leaf_insert_simple [OF s1(2,3) 1] fu(1) by blast
    then show ?thesis using s1(1) same_sizes_trans [OF s1(4)] by (auto simp: fr keys_plug)
  next
    case 2
    obtain s3 l' r' k' where s3: "non_leaf_insert fuel q (root_ptr l) (root_ptr r) k (lv + 1) s1 =
          parent_node_build (non_leaf_insert fuel') (root_ptr l') (root_ptr r') k' (lv + 1) s3"
        "doubled s3 C q l' r' k' (Suc h)" "keys l' @ keys r' = concat (map keys (ul @ l # r # ur))"
        "same_sizes s1 s3"
      using non_leaf_insert_full [OF s1(2,3) 2] fu(1) by blast
    have "Suc (Suc h + length C) < BPLUS_MAX_LEVEL" using Cons.prems(3) by simp
    from Cons.IH [OF s3(2) fu(2) this, of "lv + 1"] obtain s' t where
      "parent_node_build (non_leaf_insert fuel') (root_ptr l') (root_ptr r') k' (lv + 1) s3 = Some (0, s')"
      "tree_rep s' t" "keys t = ckl C @ (keys l' @ keys r') @ ckr C" "same_sizes s3 s'"
      by auto
    then show ?thesis using s1(1) s3(1) same_sizes_trans [OF same_sizes_trans [OF s1(4) s3(4)]] by (auto simp: fr s3(3))
  qed
qed

end
