(* ===== verification/MBT_Insertion.thy ===== *)
theory MBT_Insertion
  imports MBT_Ascent
begin

text \<open>
  Insertion as a whole: \<^verbatim>\<open>leaf_insert\<close> and \<^verbatim>\<open>bplus_tree_insert\<close> of
  \<^verbatim>\<open>src/backend/mbt/mbtree.c\<close> on every tree the heap holds. A key that is present
  is refused and the heap stays as it is; any other key is added, and the heap holds
  a tree again, with the same order, balance and occupancy.
\<close>

subsection \<open>The leaf a key goes to\<close>

definition at_leaf :: "heap \<Rightarrow> frame list \<Rightarrow> ptr \<Rightarrow> int list \<Rightarrow> bool" where
  "at_leaf s C p ks \<longleftrightarrow>
     heap_ok s \<and> root (tree s) = Some (croot C p) \<and> level (tree s) = int (length C) \<and> length C < BPLUS_MAX_LEVEL \<and>
     leaf_at (nodes s p) (items s) (cpar C) (cidx C) ks \<and> crepr (nodes s) (items s) C p \<and> cwf C \<and>
     distinct (p # cptrs C) \<and> olt (clo None C) (chi None C) \<and> ordered (clo None C) (chi None C) (ALeaf p ks) \<and> cord C \<and>
     cbal 0 C \<and> sized (ord_of s) (ent_of s) (C = []) (ALeaf p ks) \<and> csized (ord_of s) (ent_of s) C \<and>
     rings s (\<lambda>i. cleft 0 C i @ level_ptrs 0 i (ALeaf p ks) @ cright 0 C i)"

lemma at_leafI:
  assumes "tree_rep s (plug C (ALeaf p ks))" "cwf C" "length C = nat (level (tree s))"
  shows "at_leaf s C p ks"
proof -
  have lv: "level (tree s) = int (length C)" using assms by (simp add: tree_rep_def)
  have "rings s (\<lambda>i. level_ptrs (0 + length C) i (plug C (ALeaf p ks)))" "balanced (0 + length C) (plug C (ALeaf p ks))"
    using assms(1) unfolding tree_rep_def by (simp_all add: lv)
  then have "rings s (\<lambda>i. cleft 0 C i @ level_ptrs 0 i (ALeaf p ks) @ cright 0 C i)" "cbal 0 C"
    unfolding level_plug balanced_plug by simp_all
  then show ?thesis
    using assms(1,2) lv unfolding tree_rep_def at_leaf_def
    by (simp add: root_plug repr_plug distinct_plug ordered_plug sized_plug)
qed

lemma insert_place:
  assumes "sorted_wrt (<) ks" "(key :: int) \<notin> set ks"
  obtains ksl ksr where "ks = ksl @ ksr" "sorted_wrt (<) (ksl @ key # ksr)"
proof
  let ?n = "key_pos ks key"
  show "ks = take ?n ks @ drop ?n ks" by simp
  have a: "x < key" if x: "x \<in> set (take ?n ks)" for x
  proof -
    obtain i where "i < length (take ?n ks)" "x = take ?n ks ! i" using x by (metis in_set_conv_nth)
    then show ?thesis using key_pos_below [of i ks key] by simp
  qed
  have b: "key < x" if "x \<in> set (drop ?n ks)" for x
  proof -
    obtain i where i: "i < length (drop ?n ks)" "x = drop ?n ks ! i" using \<open>x \<in> set (drop ?n ks)\<close> by (metis in_set_conv_nth)
    have "key \<le> x" using key_pos_above [of ks key "?n + i"] i assms(1) by (simp add: strict_sorted_imp_sorted)
    moreover have "x \<in> set ks" using that by (meson in_set_dropD)
    ultimately show ?thesis using assms(2) by (auto simp: order.order_iff_strict)
  qed
  have "sorted_wrt (<) (take ?n ks @ drop ?n ks)" using assms(1) by simp
  then show "sorted_wrt (<) (take ?n ks @ key # drop ?n ks)"
    using a b unfolding sorted_wrt_append by auto
qed

lemma leaf_search:
  assumes "at_leaf s C p ks"
  obtains l where "nodes s p = Some (Leaf l)" "leaf_holds (items s) l ks" "node_type l = BPLUS_TREE_LEAF"
    "parent l = cpar C" "parent_key_idx l = cidx C"
    "\<And>key. key_binary_search (lkey l) (count l) key =
       Some (if key \<in> set ks then int (key_pos ks key) else - int (key_pos ks key) - 1)"
proof -
  obtain l where l: "nodes s p = Some (Leaf l)" "leaf_wf (items s) l" "node_type l = BPLUS_TREE_LEAF" "parent l = cpar C"
      "parent_key_idx l = cidx C" "count l = int (length ks)" "length ks \<le> 50" "take (length ks) (lkey l) = ks"
    using assms by (auto simp: at_leaf_def leaf_at_def)
  have "sorted ks" using assms by (auto simp: at_leaf_def intro: strict_sorted_imp_sorted)
  then show ?thesis
    using that [of l] l key_binary_search_eq [of ks "lkey l"] by (simp add: leaf_holds_def leaf_wf_def leaf_shape_def)
qed

lemma leaf_insert_present:
  assumes "at_leaf s C p ks" "key \<in> set ks"
  shows "leaf_insert p key data tid s = Some (-1, s)"
proof -
  obtain l where "nodes s p = Some (Leaf l)"
      "\<And>key. key_binary_search (lkey l) (count l) key =
       Some (if key \<in> set ks then int (key_pos ks key) else - int (key_pos ks key) - 1)"
    using leaf_search [OF assms(1)] by blast
  then show ?thesis using assms(2) by (simp add: leaf_insert_def get_leaf_eq)
qed

lemma leaf_search_new:
  assumes "at_leaf s C p (ksl @ ksr)" "sorted_wrt (<) (ksl @ key # ksr)"
  shows "\<exists>l. nodes s p = Some (Leaf l) \<and> leaf_holds (items s) l (ksl @ ksr) \<and> node_type l = BPLUS_TREE_LEAF \<and>
    parent l = cpar C \<and> parent_key_idx l = cidx C \<and>
    key_binary_search (lkey l) (count l) key = Some (- int (length ksl) - 1)"
proof (rule leaf_search [OF assms(1)])
  fix l
  assume "nodes s p = Some (Leaf l)" "leaf_holds (items s) l (ksl @ ksr)" "node_type l = BPLUS_TREE_LEAF"
    "parent l = cpar C" "parent_key_idx l = cidx C"
    and "\<And>key. key_binary_search (lkey l) (count l) key =
       Some (if key \<in> set (ksl @ ksr) then int (key_pos (ksl @ ksr) key) else - int (key_pos (ksl @ ksr) key) - 1)"
  then show ?thesis using key_pos_mid(1,2) [OF assms(2)] by (intro exI [of _ l]) simp
qed

text \<open>A leaf with room.\<close>

lemma leaf_at_refilled:
  assumes "leaf_refilled it l it' l' ks" "node_type l = BPLUS_TREE_LEAF"
  shows "leaf_at (Some (Leaf l')) it' (parent l) (parent_key_idx l) ks"
proof -
  have eq: "l' = l\<lparr>lkey := lkey l', ldata := ldata l', tids := tids l', count := int (length ks)\<rparr>" and h: "leaf_holds it' l' ks"
    using assms(1) unfolding leaf_refilled_def by blast+
  have "node_type l' = node_type l" "parent l' = parent l" "parent_key_idx l' = parent_key_idx l"
    by (subst eq, simp)+
  then show ?thesis using h assms(2) by (simp add: leaf_at_def leaf_holds_def)
qed

lemma leaf_refilled_link: "leaf_refilled it l it' l' ks \<Longrightarrow> node_link (Leaf l') = node_link (Leaf l)"
proof -
  assume "leaf_refilled it l it' l' ks"
  then have "l' = l\<lparr>lkey := lkey l', ldata := ldata l', tids := tids l', count := int (length ks)\<rparr>" unfolding leaf_refilled_def by blast
  then have "link l' = link (l\<lparr>lkey := lkey l', ldata := ldata l', tids := tids l', count := int (length ks)\<rparr>)" by (rule arg_cong)
  then show ?thesis by (simp add: node_link_def bplus_node.defs)
qed

lemma leaf_insert_room:
  assumes a: "at_leaf s C p (ksl @ ksr)" and srt: "sorted_wrt (<) (ksl @ key # ksr)" and rng: "in_range (clo None C) (chi None C) key"
    and d: "length (cstr data) \<le> 32" and room: "length (ksl @ ksr) < ent_of s"
  shows "\<exists>s'. leaf_insert p key data tid s = Some (0, s') \<and> tree_rep s' (plug C (ALeaf p (ksl @ key # ksr))) \<and> same_sizes s s'"
proof -
  have A: "heap_ok s" "crepr (nodes s) (items s) C p" "distinct (p # cptrs C)" "level (tree s) = int (length C)"
    using a by (simp_all add: at_leaf_def)
  obtain l where l: "nodes s p = Some (Leaf l)" "leaf_holds (items s) l (ksl @ ksr)" "node_type l = BPLUS_TREE_LEAF"
      "parent l = cpar C" "parent_key_idx l = cidx C"
      "key_binary_search (lkey l) (count l) key = Some (- int (length ksl) - 1)"
    using leaf_search_new [OF a srt] by blast
  have e50: "ent_of s \<le> 50" using A(1) by (auto simp: heap_ok_def BPLUS_MAX_ENTRIES_def nat_le_iff)
  obtain l' it' where s': "leaf_simple_insert p key data tid (int (length ksl)) s =
      Some (s\<lparr>items := it', nodes := (nodes s)(p \<mapsto> Leaf l')\<rparr>)"
    and rf: "leaf_refilled (items s) l it' l' (ksl @ key # ksr)"
    using leaf_simple_insert_spec [OF l(1,2) _ d] room e50 by fastforce
  define s' where "s' = s\<lparr>items := it', nodes := (nodes s)(p \<mapsto> Leaf l')\<rparr>"
  have "count l \<noteq> entries (tree s)" using l(2) room by (auto simp: leaf_holds_def)
  then have run: "leaf_insert p key data tid s = Some (0, s')"
    using l(1,6) s' by (simp add: leaf_insert_def get_leaf_eq s'_def)
  have dm: "dom it' = dom (items s)" using rf unfolding leaf_refilled_def by blast
  have "crepr (nodes s') (items s') C p"
  proof -
    have "crepr (nodes s') (items s') C p = crepr (nodes s) (items s') C p" by (rule crepr_cong) (use A(3) in \<open>auto simp: s'_def\<close>)
    then show ?thesis using crepr_items [OF A(2)] dm by (simp add: s'_def)
  qed
  moreover have "repr (nodes s') (items s') (cpar C) (cidx C) (ALeaf p (ksl @ key # ksr))"
    using leaf_at_refilled [OF rf l(3)] l(4,5) by (simp add: s'_def)
  moreover have "get_link s' = get_link s"
    by (rule get_link_nodes) (auto simp: s'_def l(1) leaf_refilled_link [OF rf])
  then have "rings s' P = rings s P" for P by (rule rings_cong)
  moreover have "heap_ok s'" by (rule heap_ok_nodes [OF A(1)]) (use l(1) in \<open>simp_all add: s'_def\<close>)
  moreover have "sized (ord_of s') (ent_of s') (C = []) (ALeaf p (ksl @ key # ksr))"
    using a room by (auto simp: at_leaf_def s'_def)
  moreover have "ordered (clo None C) (chi None C) (ALeaf p (ksl @ key # ksr))"
    using a srt rng by (auto simp: at_leaf_def)
  ultimately have "tree_rep s' (plug C (ALeaf p (ksl @ key # ksr)))"
    using a by (intro tree_rep_plugI [where h = 0]) (simp_all add: at_leaf_def s'_def)
  moreover have "same_sizes s s'" by (simp add: same_sizes_def s'_def)
  ultimately show ?thesis using run by blast
qed

text \<open>A full leaf: the new leaf beside it.\<close>

abbreviation leaf_level :: "frame list \<Rightarrow> ptr list \<Rightarrow> nat \<Rightarrow> ptr list" where
  "leaf_level C xs i \<equiv> cleft 0 C i @ (if i = 0 then xs else []) @ cright 0 C i"

lemma leaf_sibling_lists:
  assumes a: "at_leaf s C p ks" and l: "nodes s p = Some (Leaf l)" and q: "q = next_ptr s"
    and s0: "s0 = s\<lparr>items := it, nodes := (nodes s)(q \<mapsto> Leaf m), next_ptr := q + 51\<rparr>"
  shows "\<exists>s1. list_add (Link q) (Link p) s0 = Some s1 \<and> same_core s0 s1 \<and> rings s1 (leaf_level C [p, q])"
    "\<exists>s1. list_add_between (Link q) (prev (link l)) (Link p) s0 = Some s1 \<and> same_core s0 s1 \<and> rings s1 (leaf_level C [q, p])"
proof -
  let ?t = "plug C (ALeaf p ks)" and ?H = "0 + length C"
  have A: "heap_ok s" "crepr (nodes s) (items s) C p" "distinct (p # cptrs C)" "rings s (leaf_level C [p])"
    using a by (simp_all add: at_leaf_def)
  have qn: "nodes s q = None" using A(1) q by (simp add: heap_ok_def)
  then have pq: "p \<noteq> q" using l by auto
  have P: "leaf_level C [p] = (\<lambda>i. level_ptrs ?H i ?t)"
    by (rule ext) (simp only: level_plug level_ptrs.simps)
  have r0: "rings s0 (leaf_level C [p])"
    by (rule rings_fresh [OF A(4) qn]) (simp_all add: s0)
  have ok: "lists_ok (leaf_level C [p])" unfolding P by (rule lists_ok_tree) (use A(3) in \<open>simp add: distinct_plug\<close>)
  have qf: "q \<notin> set (leaf_level C [p] j)" for j
  proof -
    have "q \<notin> set (ptrs ?t)" using crepr_some [OF A(2), of q] qn pq by (auto simp: ptrs_plug)
    then show ?thesis using level_ptrs_subset [of ?H j ?t] fun_cong [OF P, of j] by auto
  qed
  have lk: "get_link s0 (Link q) = Some (link m)" "get_link s0 (Link p) = Some (link l)"
    using pq l by (simp_all add: s0 get_link_def get_node_def bplus_node.defs)
  have mid: "leaf_level C [p] 0 = cleft 0 C 0 @ p # cright 0 C 0" by simp
  have upd: "(leaf_level C [p])(0 := cleft 0 C 0 @ xs @ cright 0 C 0) = leaf_level C xs" for xs by auto
  show "\<exists>s1. list_add (Link q) (Link p) s0 = Some s1 \<and> same_core s0 s1 \<and> rings s1 (leaf_level C [p, q])"
    using rings_add_after [OF r0 ok _ mid qf lk(1)] unfolding upd [of "[p, q]", simplified] by (simp add: BPLUS_MAX_LEVEL_def)
  show "\<exists>s1. list_add_between (Link q) (prev (link l)) (Link p) s0 = Some s1 \<and> same_core s0 s1 \<and> rings s1 (leaf_level C [q, p])"
    using rings_add_before [OF r0 ok _ mid qf lk] unfolding upd [of "[q, p]", simplified] by (simp add: BPLUS_MAX_LEVEL_def)
qed

lemma unlink_LeafD:
  assumes "map_option unlink y = Some (unlink (Leaf l))"
  shows "\<exists>l'. y = Some (Leaf l') \<and> node_type l' = node_type l \<and> parent l' = parent l \<and> count l' = count l \<and>
    parent_key_idx l' = parent_key_idx l \<and> (\<forall>it. leaf_cells it l' \<longleftrightarrow> leaf_cells it l) \<and> (\<forall>it ks. leaf_holds it l' ks \<longleftrightarrow> leaf_holds it l ks)"
proof -
  obtain nd where nd: "y = Some nd" "unlink nd = unlink (Leaf l)" using assms by auto
  then obtain l' where l': "nd = Leaf l'" by (cases nd) auto
  let ?u = "\<lambda>n. n\<lparr>link := \<lparr>prev = Head 0, next = Head 0\<rparr>\<rparr> :: bplus_leaf"
  have eq: "?u l' = ?u l" using nd(2) l' by simp
  have "node_type (?u l') = node_type (?u l)" "parent (?u l') = parent (?u l)" "parent_key_idx (?u l') = parent_key_idx (?u l)"
    "count (?u l') = count (?u l)"
    "\<forall>it. leaf_cells it (?u l') = leaf_cells it (?u l)" "\<forall>it ks. leaf_holds it (?u l') ks = leaf_holds it (?u l) ks"
    unfolding eq by simp_all
  then show ?thesis using nd(1) l' by (simp add: leaf_cells_def leaf_shape_def leaf_holds_def leaf_wf_def)
qed

lemma leaf_split_order:
  assumes "sorted_wrt (<) ks" "\<forall>k \<in> set ks. in_range lo hi k" "0 < i" "i < length ks"
  shows "olt lo (Some (ks ! i))" "ordered lo (Some (ks ! i)) (ALeaf a (take i ks))"
    "olt (Some (ks ! i)) hi" "ordered (Some (ks ! i)) hi (ALeaf b (drop i ks))"
proof -
  have lt: "x < ks ! i" if "x \<in> set (take i ks)" for x
  proof -
    have "\<exists>j < length (take i ks). take i ks ! j = x" using that by (simp only: in_set_conv_nth)
    then obtain j where "j < i" "x = ks ! j" by auto
    then show ?thesis using sorted_wrt_nth_less [OF assms(1)] assms(4) by simp
  qed
  have ge: "ks ! i \<le> x" if "x \<in> set (drop i ks)" for x
  proof -
    have "\<exists>j < length (drop i ks). drop i ks ! j = x" using that by (simp only: in_set_conv_nth)
    then obtain j where "j < length ks - i" "x = ks ! (i + j)" using assms(4) by auto
    then have j: "i + j < length ks" "x = ks ! (i + j)" by simp_all
    then show ?thesis using sorted_wrt_nth_less [OF assms(1), of i "i + j"] by (cases j) auto
  qed
  have "0 < length ks" using assms(4) by linarith
  then have m: "ks ! i \<in> set ks" "ks ! 0 \<in> set ks" "ks ! 0 < ks ! i"
    using assms(3,4) sorted_wrt_nth_less [OF assms(1), of 0 i] by simp_all
  have rng: "in_range lo hi (ks ! i)" "in_range lo hi (ks ! 0)" using m assms(2) by blast+
  show "olt lo (Some (ks ! i))" using rng(2) m(3) by (cases lo) (auto simp: in_range_def)
  show "olt (Some (ks ! i)) hi" using rng(1) by (cases hi) (auto simp: in_range_def)
  have s: "sorted_wrt (<) (take i ks)" "sorted_wrt (<) (drop i ks)" using assms(1) by (simp_all add: sorted_wrt_take sorted_wrt_drop)
  show "ordered lo (Some (ks ! i)) (ALeaf a (take i ks))"
    using s(1) lt assms(2) by (auto simp: in_range_def dest!: in_set_takeD)
  show "ordered (Some (ks ! i)) hi (ALeaf b (drop i ks))"
    using s(2) ge assms(2) by (auto simp: in_range_def dest: in_set_dropD)
qed

lemma leaf_split_growing:
  assumes a: "at_leaf s C p ks0" and ks: "sorted_wrt (<) ks" "\<forall>k \<in> set ks. in_range (clo None C) (chi None C) k"
    and q: "q = next_ptr s" and l: "nodes s p \<noteq> None"
    and s0: "s0 = s\<lparr>items := it, nodes := (nodes s)(q \<mapsto> Leaf m), next_ptr := q + 51\<rparr>" "dom (items s) \<subseteq> dom it"
    and core: "same_core s0 s1" and ab: "x = p \<and> y = q \<or> x = q \<and> y = p" and rg: "rings s1 (leaf_level C [x, y])"
    and s2: "s2 = s1\<lparr>items := it', nodes := N\<rparr>" "dom it' = dom (items s1)"
      "\<And>z. map_option node_link (N z) = map_option node_link (nodes s1 z)" "\<And>z. z \<noteq> p \<Longrightarrow> z \<noteq> q \<Longrightarrow> N z = nodes s1 z"
    and i: "(ent_of s + 1) div 2 \<le> i" "(ent_of s + 1) div 2 \<le> length ks - i" "length ks = Suc (ent_of s)"
  shows "growing s2 C (ALeaf x (take i ks)) (ALeaf y (drop i ks)) (ks ! i) 0 p"
proof -
  have A: "heap_ok s" "crepr (nodes s) (items s) C p" "distinct (p # cptrs C)" "csized (ord_of s) (ent_of s) C"
    using a by (simp_all add: at_leaf_def)
  have e1: "1 \<le> ent_of s" using A(1) by (auto simp: heap_ok_def)
  then have "1 \<le> (ent_of s + 1) div 2" by simp
  then have i2: "0 < i" "i < length ks" using i by linarith+
  have c: "tree s0 = tree s" "items s1 = it" "next_ptr s1 = q + 51" "raw_leaf s1 = raw_leaf s" "raw_non_leaf s1 = raw_non_leaf s"
      "root (tree s1) = root (tree s)" "level (tree s1) = level (tree s)" "order (tree s1) = order (tree s)"
      "entries (tree s1) = entries (tree s)" "length (levels (tree s1)) = length (levels (tree s))"
      "\<And>z. map_option unlink (nodes s1 z) = map_option unlink (nodes s0 z)"
    using core s0(1) by (simp_all add: same_core_def)
  have qn: "nodes s q = None" using A(1) q by (simp add: heap_ok_def)
  then have pq: "p \<noteq> q" "q \<notin> set (cptrs C)" using l crepr_some [OF A(2), of q] by auto
  have "heap_ok s2"
  proof -
    have "N z = None" if "q + 51 \<le> z" for z
    proof -
      have "nodes s z = None" "z \<noteq> q" using A(1) q that by (simp_all add: heap_ok_def)
      then have "nodes s1 z = None" "z \<noteq> p" using c(11) [of z] s0(1) l by auto
      then show ?thesis using s2(4) [of z] \<open>z \<noteq> q\<close> by simp
    qed
    then show ?thesis using A(1) c by (simp add: heap_ok_def s2(1))
  qed
  moreover have "crepr (nodes s2) (items s2) C p"
  proof -
    have "crepr N it' C p = crepr (nodes s) it' C p"
    proof (rule crepr_unlink_on, rule ballI)
      fix z assume "z \<in> set (cptrs C)"
      then have "z \<noteq> p" "z \<noteq> q" using A(3) pq by auto
      then show "map_option unlink (N z) = map_option unlink (nodes s z)" using s2(4) [of z] c(11) [of z] s0(1) by simp
    qed
    moreover have "dom (items s) \<subseteq> dom it'" using s0(2) s2(2) c(2) by simp
    ultimately show ?thesis using crepr_items [OF A(2)] s2(1) by simp
  qed
  moreover have "get_link s2 = get_link s1" by (rule get_link_nodes) (simp_all add: s2(1,3))
  then have "rings s2 (leaf_level C [x, y])" by (rule rings_cong [THEN iffD2, OF _ rg])
  moreover have "leaf_level C [x, y] = (\<lambda>j. cleft 0 C j @ level_ptrs 0 j (ALeaf x (take i ks)) @ level_ptrs 0 j (ALeaf y (drop i ks)) @ cright 0 C j)"
    by auto
  moreover note leaf_split_order [OF ks i2]
  moreover have "distinct (ptrs (ALeaf x (take i ks)) @ ptrs (ALeaf y (drop i ks)) @ cptrs C)" using A(3) pq ab by auto
  moreover have "sized (ord_of s2) (ent_of s2) False (ALeaf x (take i ks))" "sized (ord_of s2) (ent_of s2) False (ALeaf y (drop i ks))"
    using i i2 c(8,9) s2(1) by (simp_all, linarith)
  ultimately show ?thesis
    using a ab c(6-9) s2(1) unfolding growing_def at_leaf_def by auto
qed

lemma leaf_holds_first:
  assumes "leaf_refilled it l it' l' (drop i ks)" "i < length ks"
  shows "aget (lkey l') 0 = Some (ks ! i)"
proof -
  have h: "take (length ks - i) (lkey l') = drop i ks" "leaf_wf it' l'"
    using assms(1) by (auto simp: leaf_refilled_def leaf_holds_def)
  have "lkey l' ! 0 = take (length ks - i) (lkey l') ! 0" using assms(2) by simp
  also have "\<dots> = ks ! i" unfolding h(1) using assms(2) by simp
  finally show ?thesis using h(2) by (simp add: aget_def leaf_wf_def leaf_shape_def)
qed

text \<open>A full leaf and the new one, before the split.\<close>

definition full_leaf :: "heap \<Rightarrow> heap \<Rightarrow> frame list \<Rightarrow> ptr \<Rightarrow> ptr \<Rightarrow> int list \<Rightarrow> int list \<Rightarrow> int \<Rightarrow> bplus_leaf \<Rightarrow> bplus_leaf \<Rightarrow> item_store \<Rightarrow> bool" where
  "full_leaf s s0 C p q ksl ksr key l m it \<longleftrightarrow>
     at_leaf s C p (ksl @ ksr) \<and> sorted_wrt (<) (ksl @ key # ksr) \<and> in_range (clo None C) (chi None C) key \<and>
     length ksl + length ksr = ent_of s \<and> q = next_ptr s \<and> nodes s p = Some (Leaf l) \<and>
     leaf_holds (items s) l (ksl @ ksr) \<and> node_type l = BPLUS_TREE_LEAF \<and> parent l = cpar C \<and>
     leaf_cells it m \<and> node_type m = BPLUS_TREE_LEAF \<and> parent m = None \<and> dom (items s) \<subseteq> dom it \<and>
     s0 = s\<lparr>items := it, nodes := (nodes s)(q \<mapsto> Leaf m), next_ptr := q + 51\<rparr>"

lemma full_leaf_core:
  assumes f: "full_leaf s s0 C p q ksl ksr key l m it" and core: "same_core s0 s1"
  shows "\<exists>l1 m1. nodes s1 p = Some (Leaf l1) \<and> nodes s1 q = Some (Leaf m1) \<and> p \<noteq> q \<and> nodes s0 p = Some (Leaf l) \<and> count l = count l1 \<and>
    leaf_holds (items s1) l1 (ksl @ ksr) \<and> leaf_cells (items s1) m1 \<and> node_type l1 = BPLUS_TREE_LEAF \<and> node_type m1 = BPLUS_TREE_LEAF \<and>
    parent l1 = cpar C \<and> parent m1 = None"
proof -
  have F: "nodes s p = Some (Leaf l)" "q = next_ptr s" "heap_ok s" "leaf_holds (items s) l (ksl @ ksr)" "leaf_cells it m"
      "s0 = s\<lparr>items := it, nodes := (nodes s)(q \<mapsto> Leaf m), next_ptr := q + 51\<rparr>" "dom (items s) \<subseteq> dom it"
    using f unfolding full_leaf_def at_leaf_def by blast+
  have pq: "p \<noteq> q" using F(1-3) by (auto simp: heap_ok_def)
  have it: "items s1 = it" using core by (simp add: same_core_def F(6))
  have "map_option unlink (nodes s1 p) = Some (unlink (Leaf l))" "map_option unlink (nodes s1 q) = Some (unlink (Leaf m))"
    using core pq F(1) by (simp_all add: same_core_def F(6))
  from unlink_LeafD [OF this(1)] unlink_LeafD [OF this(2)]
  obtain l1 m1 where "nodes s1 p = Some (Leaf l1)" "nodes s1 q = Some (Leaf m1)" "count l1 = count l"
    "\<forall>it ks. leaf_holds it l1 ks \<longleftrightarrow> leaf_holds it l ks" "\<forall>it. leaf_cells it m1 \<longleftrightarrow> leaf_cells it m"
    "node_type l1 = node_type l" "node_type m1 = node_type m" "parent l1 = parent l" "parent m1 = parent m" by blast
  moreover have "leaf_holds it l (ksl @ ksr)" using F(4) leaf_wf_items [OF _ F(7)] by (simp add: leaf_holds_def)
  moreover have "nodes s0 p = Some (Leaf l)" using F(1) pq by (simp add: F(6))
  ultimately show ?thesis using f F(5) it pq by (intro exI [of _ l1] exI [of _ m1]) (simp add: full_leaf_def)
qed

lemma full_leaf_doubled:
  assumes f: "full_leaf s s0 C p q ksl ksr key l m it" and core: "same_core s0 s1"
    and pq: "nodes s1 p = Some (Leaf l1)" "nodes s1 q = Some (Leaf m1)" "p \<noteq> q"
      "node_type l1 = BPLUS_TREE_LEAF" "node_type m1 = BPLUS_TREE_LEAF" "parent l1 = cpar C" "parent m1 = None"
    and s2: "s2 = s1\<lparr>items := it', nodes := (nodes s1)(q \<mapsto> Leaf m2, p \<mapsto> Leaf l2)\<rparr>"
    and ks: "ks = ksl @ key # ksr" and i: "i = Suc (ent_of s) div 2"
  shows "leaf_refilled (items s1) l1 it' l2 (take i ks) \<Longrightarrow> leaf_refilled (items s1) m1 it' m2 (drop i ks) \<Longrightarrow>
      rings s1 (leaf_level C [p, q]) \<Longrightarrow>
      doubled s2 C p (ALeaf p (take i ks)) (ALeaf q (drop i ks)) (ks ! i) 0"
    "leaf_refilled (items s1) l1 it' l2 (drop i ks) \<Longrightarrow> leaf_refilled (items s1) m1 it' m2 (take i ks) \<Longrightarrow>
      rings s1 (leaf_level C [q, p]) \<Longrightarrow>
      doubled s2 C p (ALeaf q (take i ks)) (ALeaf p (drop i ks)) (ks ! i) 0"
proof -
  have F: "at_leaf s C p (ksl @ ksr)" "sorted_wrt (<) ks" "in_range (clo None C) (chi None C) key" "length ksl + length ksr = ent_of s"
      "q = next_ptr s" "nodes s p \<noteq> None" "dom (items s) \<subseteq> dom it"
      "s0 = s\<lparr>items := it, nodes := (nodes s)(q \<mapsto> Leaf m), next_ptr := q + 51\<rparr>"
    using f unfolding full_leaf_def ks by auto
  have rng: "\<forall>k \<in> set ks. in_range (clo None C) (chi None C) k" using F(1,3) ks by (auto simp: at_leaf_def)
  have z: "(ent_of s + 1) div 2 \<le> i" "(ent_of s + 1) div 2 \<le> length ks - i" "length ks = Suc (ent_of s)"
    using F(4) i ks by auto
  have grow: "growing s2 C (ALeaf x (take i ks)) (ALeaf y (drop i ks)) (ks ! i) 0 p"
    if ab: "x = p \<and> y = q \<or> x = q \<and> y = p" and rg: "rings s1 (leaf_level C [x, y])"
      and rf: "leaf_refilled (items s1) l1 it' l2 k1" "leaf_refilled (items s1) m1 it' m2 k2" for x y k1 k2
  proof (rule leaf_split_growing [OF F(1,2) rng F(5,6,8,7) core ab rg s2 _ _ _ z])
    show "dom it' = dom (items s1)" using rf(1) unfolding leaf_refilled_def by blast
    show "map_option node_link (((nodes s1)(q \<mapsto> Leaf m2, p \<mapsto> Leaf l2)) v) = map_option node_link (nodes s1 v)" for v
      using pq(1-3) leaf_refilled_link [OF rf(1)] leaf_refilled_link [OF rf(2)] by simp
  qed simp
  { assume rf: "leaf_refilled (items s1) l1 it' l2 (take i ks)" "leaf_refilled (items s1) m1 it' m2 (drop i ks)"
      and rg: "rings s1 (leaf_level C [p, q])"
    show "doubled s2 C p (ALeaf p (take i ks)) (ALeaf q (drop i ks)) (ks ! i) 0"
      using grow [OF _ rg rf] leaf_at_refilled [OF rf(1) pq(4)] leaf_at_refilled [OF rf(2) pq(5)] pq(3,6,7)
      by (auto simp: doubled_def halves_def s2) }
  { assume rf: "leaf_refilled (items s1) l1 it' l2 (drop i ks)" "leaf_refilled (items s1) m1 it' m2 (take i ks)"
      and rg: "rings s1 (leaf_level C [q, p])"
    show "doubled s2 C p (ALeaf q (take i ks)) (ALeaf p (drop i ks)) (ks ! i) 0"
      using grow [OF _ rg rf] leaf_at_refilled [OF rf(1) pq(4)] leaf_at_refilled [OF rf(2) pq(5)] pq(3,6,7)
      by (auto simp: doubled_def halves_def s2) }
qed

lemma leaf_full_left:
  assumes f: "full_leaf s s0 C p q ksl ksr key l m it" and i: "i = Suc (ent_of s) div 2" "length ksl < i"
    and d: "length (cstr data) \<le> 32" and ks: "ks = ksl @ key # ksr"
  shows "\<exists>s2 l2. leaf_split_left p q key data tid (int (length ksl)) s0 = Some s2 \<and>
    doubled s2 C p (ALeaf q (take i ks)) (ALeaf p (drop i ks)) (ks ! i) 0 \<and>
    same_sizes s s2 \<and> get_leaf s2 p = Some l2 \<and> aget (lkey l2) 0 = Some (ks ! i)"
proof -
  have F: "at_leaf s C p (ksl @ ksr)" "length ksl + length ksr = ent_of s" "q = next_ptr s" "nodes s p = Some (Leaf l)"
      "s0 = s\<lparr>items := it, nodes := (nodes s)(q \<mapsto> Leaf m), next_ptr := q + 51\<rparr>"
    using f unfolding full_leaf_def by blast+
  have e: "1 \<le> ent_of s" using F(1) by (auto simp: at_leaf_def heap_ok_def)
  obtain s1 where s1: "list_add_between (Link q) (prev (link l)) (Link p) s0 = Some s1" "same_core s0 s1" "rings s1 (leaf_level C [q, p])"
    using leaf_sibling_lists(2) [OF F(1,4,3,5)] by blast
  obtain l1 m1 where pq: "nodes s1 p = Some (Leaf l1)" "nodes s1 q = Some (Leaf m1)" "p \<noteq> q" "nodes s0 p = Some (Leaf l)" "count l = count l1"
      "leaf_holds (items s1) l1 (ksl @ ksr)" "leaf_cells (items s1) m1" "node_type l1 = BPLUS_TREE_LEAF" "node_type m1 = BPLUS_TREE_LEAF"
      "parent l1 = cpar C" "parent m1 = None"
    using full_leaf_core [OF f s1(2)] by blast
  have "i = Suc (length ksl + length ksr) div 2" "i \<le> length ksl + length ksr" using F(2) i e by auto
  from leaf_split_left_spec [OF pq(4,5) s1(1) pq(1,2,6,7) d this(1) i(2) this(2) ks]
  obtain l2 m2 it2 where s2: "leaf_split_left p q key data tid (int (length ksl)) s0 =
        Some (s1\<lparr>items := it2, nodes := (nodes s1)(q \<mapsto> Leaf m2, p \<mapsto> Leaf l2)\<rparr>)"
      and rf: "leaf_refilled (items s1) l1 it2 l2 (drop i ks)" "leaf_refilled (items s1) m1 it2 m2 (take i ks)"
    by blast
  have "i < length ks" using F(2) i e ks by simp
  then have "aget (lkey l2) 0 = Some (ks ! i)" by (rule leaf_holds_first [OF rf(1)])
  moreover have "same_sizes s (s1\<lparr>items := it2, nodes := (nodes s1)(q \<mapsto> Leaf m2, p \<mapsto> Leaf l2)\<rparr>)"
    using s1(2) by (simp add: same_sizes_def same_core_def F(5))
  ultimately show ?thesis
    using s2 full_leaf_doubled(2) [OF f s1(2) pq(1-3,8-11) refl ks i(1) rf s1(3)] by (simp add: get_leaf_def)
qed

lemma leaf_full_right:
  assumes f: "full_leaf s s0 C p q ksl ksr key l m it" and i: "i = Suc (ent_of s) div 2" "i \<le> length ksl"
    and d: "length (cstr data) \<le> 32" and ks: "ks = ksl @ key # ksr"
  shows "\<exists>s2 m2. leaf_split_right p q key data tid (int (length ksl)) s0 = Some s2 \<and>
    doubled s2 C p (ALeaf p (take i ks)) (ALeaf q (drop i ks)) (ks ! i) 0 \<and>
    same_sizes s s2 \<and> get_leaf s2 q = Some m2 \<and> aget (lkey m2) 0 = Some (ks ! i)"
proof -
  have F: "at_leaf s C p (ksl @ ksr)" "length ksl + length ksr = ent_of s" "q = next_ptr s" "nodes s p = Some (Leaf l)"
      "s0 = s\<lparr>items := it, nodes := (nodes s)(q \<mapsto> Leaf m), next_ptr := q + 51\<rparr>"
    using f unfolding full_leaf_def by blast+
  have e: "1 \<le> ent_of s" using F(1) by (auto simp: at_leaf_def heap_ok_def)
  obtain s1 where s1: "list_add (Link q) (Link p) s0 = Some s1" "same_core s0 s1" "rings s1 (leaf_level C [p, q])"
    using leaf_sibling_lists(1) [OF F(1,4,3,5)] by blast
  obtain l1 m1 where pq: "nodes s1 p = Some (Leaf l1)" "nodes s1 q = Some (Leaf m1)" "p \<noteq> q" "nodes s0 p = Some (Leaf l)" "count l = count l1"
      "leaf_holds (items s1) l1 (ksl @ ksr)" "leaf_cells (items s1) m1" "node_type l1 = BPLUS_TREE_LEAF" "node_type m1 = BPLUS_TREE_LEAF"
      "parent l1 = cpar C" "parent m1 = None"
    using full_leaf_core [OF f s1(2)] by blast
  have "i = Suc (length ksl + length ksr) div 2" "1 \<le> i" using F(2) i e by auto
  from leaf_split_right_spec [OF pq(4,5) s1(1) pq(1,2,3,6,7) d this(1) i(2) this(2) ks]
  obtain l2 m2 it2 where s2: "leaf_split_right p q key data tid (int (length ksl)) s0 =
        Some (s1\<lparr>items := it2, nodes := (nodes s1)(q \<mapsto> Leaf m2, p \<mapsto> Leaf l2)\<rparr>)"
      and rf: "leaf_refilled (items s1) l1 it2 l2 (take i ks)" "leaf_refilled (items s1) m1 it2 m2 (drop i ks)"
    by blast
  have "i < length ks" using F(2) i e ks by simp
  then have "aget (lkey m2) 0 = Some (ks ! i)" by (rule leaf_holds_first [OF rf(2)])
  moreover have "same_sizes s (s1\<lparr>items := it2, nodes := (nodes s1)(q \<mapsto> Leaf m2, p \<mapsto> Leaf l2)\<rparr>)"
    using s1(2) by (simp add: same_sizes_def same_core_def F(5))
  ultimately show ?thesis
    using s2 full_leaf_doubled(1) [OF f s1(2) pq(1-3,8-11) refl ks i(1) rf s1(3)] pq(3) by (simp add: get_leaf_def)
qed

lemma leaf_insert_full:
  assumes a: "at_leaf s C p (ksl @ ksr)" and srt: "sorted_wrt (<) (ksl @ key # ksr)" and rng: "in_range (clo None C) (chi None C) key"
    and d: "length (cstr data) \<le> 32" and full: "length (ksl @ ksr) = ent_of s" and H: "Suc (length C) < BPLUS_MAX_LEVEL"
  shows "\<exists>s' t. leaf_insert p key data tid s = Some (0, s') \<and> tree_rep s' t \<and> keys t = ckl C @ (ksl @ key # ksr) @ ckr C \<and>
    same_sizes s s'"
proof -
  define ks where "ks = ksl @ key # ksr"
  define i where "i = Suc (ent_of s) div 2"
  have ok: "heap_ok s" using a by (simp add: at_leaf_def)
  obtain l where l: "nodes s p = Some (Leaf l)" "leaf_holds (items s) l (ksl @ ksr)" "node_type l = BPLUS_TREE_LEAF" "parent l = cpar C"
      "key_binary_search (lkey l) (count l) key = Some (- int (length ksl) - 1)"
    using leaf_search_new [OF a srt] by blast
  obtain m it where m: "leaf_new s = Some (next_ptr s, s\<lparr>items := it, nodes := (nodes s)(next_ptr s \<mapsto> Leaf m), next_ptr := next_ptr s + 51\<rparr>)"
      "leaf_cells it m" "dom (items s) \<subseteq> dom it" "node_type m = BPLUS_TREE_LEAF" "parent m = None"
    using leaf_new_spec [OF ok] by blast
  define q where "q = next_ptr s"
  define s0 where "s0 = s\<lparr>items := it, nodes := (nodes s)(q \<mapsto> Leaf m), next_ptr := q + 51\<rparr>"
  have new: "leaf_new s = Some (q, s0)" using m(1) unfolding s0_def q_def .
  have f: "full_leaf s s0 C p q ksl ksr key l m it"
    using a srt rng full l m(2-5) unfolding full_leaf_def s0_def q_def by simp
  have e0: "0 \<le> entries (tree s)" using ok by (simp add: heap_ok_def)
  have cnt: "count l = entries (tree s)" using l(2) full e0 by (simp add: leaf_holds_def)
  have sp: "c_div (entries (tree s) + 1) 2 = int i" using c_div_half [of "ent_of s"] e0 unfolding i_def by simp
  have fuel: "length C \<le> ascent_fuel" "Suc (0 + length C) < BPLUS_MAX_LEVEL" using H by (simp_all add: ascent_fuel_def)
  have keys: "keys (ALeaf x (take i ks)) @ keys (ALeaf y (drop i ks)) @ zs = ks @ zs" for x y zs
    by (simp flip: append_assoc)
  show ?thesis
  proof (cases "length ksl < i")
    case True
    from leaf_full_left [OF f i_def True d ks_def] obtain s2 l2 where
      s2: "leaf_split_left p q key data tid (int (length ksl)) s0 = Some s2"
        "doubled s2 C p (ALeaf q (take i ks)) (ALeaf p (drop i ks)) (ks ! i) 0"
        "same_sizes s s2" "get_leaf s2 p = Some l2" "aget (lkey l2) 0 = Some (ks ! i)" by blast
    have "leaf_insert p key data tid s = parent_node_build (non_leaf_insert ascent_fuel) q p (ks ! i) 0 s2"
      using True l(5) cnt sp new s2 by (simp add: leaf_insert_def get_leaf_eq [OF l(1)])
    then show ?thesis using parent_build_up [OF s2(2) fuel, of 0] same_sizes_trans [OF s2(3)] unfolding keys ks_def [symmetric] by auto
  next
    case False
    then have ge: "i \<le> length ksl" by simp
    from leaf_full_right [OF f i_def ge d ks_def] obtain s2 l2 where
      s2: "leaf_split_right p q key data tid (int (length ksl)) s0 = Some s2"
        "doubled s2 C p (ALeaf p (take i ks)) (ALeaf q (drop i ks)) (ks ! i) 0"
        "same_sizes s s2" "get_leaf s2 q = Some l2" "aget (lkey l2) 0 = Some (ks ! i)" by blast
    have "leaf_insert p key data tid s = parent_node_build (non_leaf_insert ascent_fuel) p q (ks ! i) 0 s2"
      using False l(5) cnt sp new s2 by (simp add: leaf_insert_def get_leaf_eq [OF l(1)])
    then show ?thesis using parent_build_up [OF s2(2) fuel, of 0] same_sizes_trans [OF s2(3)] unfolding keys ks_def [symmetric] by auto
  qed
qed

subsection \<open>Insertion into a tree\<close>

lemma insert_into_tree:
  assumes "tree_rep s t" "length (cstr data) \<le> 32" "level (tree s) + 1 < int BPLUS_MAX_LEVEL"
  shows "if key \<in> set (keys t) then bplus_tree_insert key data tid s = Some (-1, s)
    else \<exists>s' t'. bplus_tree_insert key data tid s = Some (0, s') \<and> tree_rep s' t' \<and>
      sorted_wrt (<) (keys t') \<and> set (keys t') = insert key (set (keys t)) \<and> same_sizes s s'"
proof -
  let ?h = "nat (level (tree s))"
  have T: "repr (nodes s) (items s) None (-1) t" "ordered None None t" "balanced ?h t" "root (tree s) = Some (root_ptr t)"
    "0 \<le> level (tree s)"
    using assms(1) by (simp_all add: tree_rep_def)
  have fuel: "?h < descent_fuel" using assms(3) T(5) by (simp add: descent_fuel_def)
  have "in_range None None key" by (simp add: in_range_def)
  from insert_loop_reaches [OF T(1,2) this T(3) fuel, of data tid]
  obtain C p ks where C: "t = plug C (ALeaf p ks)" "cwf C" "length C = ?h" "in_range (clo None C) (chi None C) key"
      "bplus_tree_insert key data tid s = leaf_insert p key data tid s"
    unfolding bplus_tree_insert_def T(4) by blast
  have a: "at_leaf s C p ks" using at_leafI C(1-3) assms(1) by blast
  have H: "Suc (length C) < BPLUS_MAX_LEVEL" using C(3) assms(3) T(5) by simp
  show ?thesis
  proof (cases "key \<in> set ks")
    case True
    then show ?thesis using leaf_insert_present [OF a] C(1,5) by (simp add: keys_plug)
  next
    case False
    have "sorted_wrt (<) ks" using a by (simp add: at_leaf_def)
    then obtain ksl ksr where ks: "ks = ksl @ ksr" "sorted_wrt (<) (ksl @ key # ksr)" using insert_place False by blast
    have "ordered None None (plug C (ALeaf p (ksl @ key # ksr)))"
      using a C(2,4) ks by (auto simp: ordered_plug at_leaf_def)
    then have srt: "sorted_wrt (<) (ckl C @ (ksl @ key # ksr) @ ckr C)"
      using keys_sorted_range(1) by (fastforce simp: keys_plug)
    then have "key \<notin> set (keys t)" unfolding C(1) ks(1) keys_plug by (auto simp: sorted_wrt_append)
    moreover have "\<exists>s' t'. leaf_insert p key data tid s = Some (0, s') \<and> tree_rep s' t' \<and>
        keys t' = ckl C @ (ksl @ key # ksr) @ ckr C \<and> same_sizes s s'"
    proof -
      have "length ks \<le> ent_of s" using a by (simp add: at_leaf_def)
      then consider "length (ksl @ ksr) < ent_of s" | "length (ksl @ ksr) = ent_of s" using ks(1) by fastforce
      then show ?thesis
      proof cases
        case 1
        have "keys (plug C (ALeaf p (ksl @ key # ksr))) = ckl C @ (ksl @ key # ksr) @ ckr C" by (simp add: keys_plug)
        then show ?thesis using leaf_insert_room [OF a [unfolded ks(1)] ks(2) C(4) assms(2) 1, of tid] by blast
      next
        case 2
        then show ?thesis using leaf_insert_full [OF a [unfolded ks(1)] ks(2) C(4) assms(2) _ H] by blast
      qed
    qed
    ultimately show ?thesis using srt C(1,5) ks(1) by (fastforce simp: keys_plug)
  qed
qed

end
