(* ===== verification/MBT_Codec.thy ===== *)
theory MBT_Codec
  imports MBT_Node
begin

text \<open>
  The page images of the nodes: \<^verbatim>\<open>bplus_non_leaf_serialize\<close>, \<^verbatim>\<open>bplus_leaf_serialize\<close>,
  their inverses and the size functions of \<^verbatim>\<open>src/backend/mbt/mbtree.c\<close>. A writer
  carries the position and the buffer, a reader the position; both fault outside
  the buffer and outside the arrays of the node.
\<close>

subsection \<open>Writers\<close>

text \<open>\<^verbatim>\<open>memcpy(buffer+pos, src, n); pos += n\<close>\<close>

definition emit :: "byte list \<Rightarrow> nat \<times> byte list \<Rightarrow> (nat \<times> byte list) option" where
  "emit bs st = do { buf \<leftarrow> blit (snd st) (fst st) bs; Some (fst st + length bs, buf) }"

text \<open>A loop that writes the first \<open>n\<close> cells of an array.\<close>

definition emit_array ::
    "('a \<Rightarrow> byte list) \<Rightarrow> 'a list \<Rightarrow> int \<Rightarrow> nat \<times> byte list \<Rightarrow> (nat \<times> byte list) option" where
  "emit_array enc arr n = for_up 0 n (\<lambda>i st. do { v \<leftarrow> aget arr i; emit (enc v) st })"

definition bplus_non_leaf_serialize :: "bplus_non_leaf \<Rightarrow> byte list \<Rightarrow> byte list option" where
  "bplus_non_leaf_serialize n buffer =
     do { st \<leftarrow> emit (int64_le (node_type n)) (0, buffer);
          st \<leftarrow> emit (int64_le (parent_key_idx n)) st;
          st \<leftarrow> emit (int64_le (count n)) st;
          st \<leftarrow> emit_array int64_le (nkey n) (count n) st;
          st \<leftarrow> emit_array id (nchildhash n) (count n) st;
          st \<leftarrow> emit (nnode_hash n) st;
          st \<leftarrow> emit_array int64_le (chindrenoffset n) (count n) st;
          st \<leftarrow> emit (int64_le (nnode_id n)) st;
          st \<leftarrow> emit (int64_le (nparent_id n)) st;
          Some (snd st) }"

text \<open>The three 16-bit fields of the item pointers, read through \<^verbatim>\<open>tids[i]\<close>.\<close>

definition tid_bytes :: "ItemPointerData \<Rightarrow> byte list" where
  "tid_bytes t = u16_le (unat (bi_hi t)) @ u16_le (unat (bi_lo t)) @ u16_le (unat (ip_posid t))"

definition emit_tids ::
    "(ptr \<Rightarrow> ItemPointerData option) \<Rightarrow> ptr option list \<Rightarrow> int \<Rightarrow> nat \<times> byte list \<Rightarrow> (nat \<times> byte list) option" where
  "emit_tids it arr n = for_up 0 n
     (\<lambda>i st. do { t \<leftarrow> aget arr i; q \<leftarrow> t; tid \<leftarrow> it q;
                  st \<leftarrow> emit (u16_le (unat (bi_hi tid))) st;
                  st \<leftarrow> emit (u16_le (unat (bi_lo tid))) st;
                  emit (u16_le (unat (ip_posid tid))) st })"

definition bplus_leaf_serialize ::
    "(ptr \<Rightarrow> ItemPointerData option) \<Rightarrow> bplus_leaf \<Rightarrow> byte list \<Rightarrow> byte list option" where
  "bplus_leaf_serialize it l buffer =
     do { st \<leftarrow> emit (int64_le (node_type l)) (0, buffer);
          st \<leftarrow> emit (int64_le (parent_key_idx l)) st;
          st \<leftarrow> emit (int64_le (count l)) st;
          st \<leftarrow> emit_array int64_le (lkey l) (count l) st;
          st \<leftarrow> emit_array id (ldata l) (count l) st;
          st \<leftarrow> emit_array id (lchildhash l) (count l) st;
          st \<leftarrow> emit (lnode_hash l) st;
          st \<leftarrow> emit (int64_le (lnode_id l)) st;
          st \<leftarrow> emit (int64_le (lparent_id l)) st;
          st \<leftarrow> emit_tids it (tids l) (count l) st;
          Some (snd st) }"

definition bplus_non_leaf_get_serialize_size :: "bplus_non_leaf \<Rightarrow> int" where
  "bplus_non_leaf_get_serialize_size n =
     8 + 8 + 8 + 8 * max 0 (count n - 1) + 33 * max 0 (count n) + 33 + 8 * max 0 (count n) + 8 + 8"

definition bplus_leaf_get_serialize_size :: "bplus_leaf \<Rightarrow> int" where
  "bplus_leaf_get_serialize_size l =
     8 + 8 + 8 + 8 * max 0 (count l) + 33 * max 0 (count l) + 33 * max 0 (count l) + 33 + 8 + 8"

subsection \<open>Readers\<close>

definition get_int64 :: "byte list \<Rightarrow> nat \<Rightarrow> int option" where
  "get_int64 buffer pos = do { bs \<leftarrow> slice buffer pos 8; Some (le_int64 bs) }"

definition get_u16 :: "byte list \<Rightarrow> nat \<Rightarrow> 16 word option" where
  "get_u16 buffer pos = do { bs \<leftarrow> slice buffer pos 2; Some (word_of_nat (le_u16 bs)) }"

text \<open>
  \<^verbatim>\<open>strncpy(dst, buffer+pos, 32)\<close> reads up to 32 bytes or the first NUL, and writes
  the first 32 bytes of \<open>dst\<close>.
\<close>

definition get_str32 :: "byte list \<Rightarrow> nat \<Rightarrow> byte list \<Rightarrow> byte list option" where
  "get_str32 buffer pos dst =
     (let src = drop pos buffer
      in if 32 \<le> length src \<or> 0 \<in> set src then strncpy dst src 32 else None)"

text \<open>A loop that reads the first \<open>n\<close> cells of an array from entries of \<open>w\<close> bytes.\<close>

definition read_array ::
    "nat \<Rightarrow> (nat \<Rightarrow> 'a \<Rightarrow> 'a option) \<Rightarrow> int \<Rightarrow> nat \<times> 'a list \<Rightarrow> (nat \<times> 'a list) option" where
  "read_array w g n = for_up 0 n
     (\<lambda>i (pos, arr). do { d \<leftarrow> aget arr i; v \<leftarrow> g pos d; arr \<leftarrow> aput arr i v; Some (pos + w, arr) })"

abbreviation read_int64s :: "byte list \<Rightarrow> int \<Rightarrow> nat \<times> int list \<Rightarrow> (nat \<times> int list) option" where
  "read_int64s buffer \<equiv> read_array 8 (\<lambda>pos _. get_int64 buffer pos)"

abbreviation read_strs :: "byte list \<Rightarrow> int \<Rightarrow> nat \<times> byte list list \<Rightarrow> (nat \<times> byte list list) option" where
  "read_strs buffer \<equiv> read_array 33 (get_str32 buffer)"

definition bplus_non_leaf_deserialize :: "bplus_non_leaf \<Rightarrow> byte list \<Rightarrow> bplus_non_leaf option" where
  "bplus_non_leaf_deserialize n buffer =
     do { ty \<leftarrow> get_int64 buffer 0;
          idx \<leftarrow> get_int64 buffer 8;
          c \<leftarrow> get_int64 buffer 16;
          (pos, ks) \<leftarrow> read_int64s buffer c (24, nkey n);
          (pos, hs) \<leftarrow> read_strs buffer c (pos, nchildhash n);
          h \<leftarrow> get_str32 buffer pos (nnode_hash n);
          (pos, os) \<leftarrow> read_int64s buffer c (pos + 33, chindrenoffset n);
          i \<leftarrow> get_int64 buffer pos;
          pi \<leftarrow> get_int64 buffer (pos + 8);
          Some (n\<lparr>node_type := ty, parent_key_idx := idx, count := c, nkey := ks, nchildhash := hs,
                  nnode_hash := h, chindrenoffset := os, nnode_id := i, nparent_id := pi\<rparr>) }"

text \<open>Each entry of a leaf that is read gets a new item pointer.\<close>

definition read_tids ::
    "byte list \<Rightarrow> int \<Rightarrow> nat \<times> ptr option list \<times> heap \<Rightarrow> (nat \<times> ptr option list \<times> heap) option" where
  "read_tids buffer n = for_up 0 n
     (\<lambda>i (pos, arr, s). do {
        arr \<leftarrow> aput arr i (Some (next_ptr s));
        hi \<leftarrow> get_u16 buffer pos;
        lo \<leftarrow> get_u16 buffer (pos + 2);
        ip \<leftarrow> get_u16 buffer (pos + 4);
        Some (pos + 6, arr,
          s\<lparr>items := (items s)(next_ptr s \<mapsto> \<lparr>bi_hi = hi, bi_lo = lo, ip_posid = ip\<rparr>),
            next_ptr := Suc (next_ptr s)\<rparr>) })"

definition bplus_leaf_deserialize :: "bplus_leaf \<Rightarrow> byte list \<Rightarrow> heap \<Rightarrow> (bplus_leaf \<times> heap) option" where
  "bplus_leaf_deserialize l buffer s =
     do { ty \<leftarrow> get_int64 buffer 0;
          idx \<leftarrow> get_int64 buffer 8;
          c \<leftarrow> get_int64 buffer 16;
          (pos, ks) \<leftarrow> read_int64s buffer c (24, lkey l);
          (pos, ds) \<leftarrow> read_strs buffer c (pos, ldata l);
          (pos, hs) \<leftarrow> read_strs buffer c (pos, lchildhash l);
          h \<leftarrow> get_str32 buffer pos (lnode_hash l);
          i \<leftarrow> get_int64 buffer (pos + 33);
          pi \<leftarrow> get_int64 buffer (pos + 41);
          (pos, ts, s) \<leftarrow> read_tids buffer c (pos + 49, tids l, s);
          Some (l\<lparr>node_type := ty, parent_key_idx := idx, count := c, lkey := ks, ldata := ds,
                  lchildhash := hs, lnode_hash := h, lnode_id := i, lparent_id := pi, tids := ts\<rparr>, s) }"

subsection \<open>What a writer leaves in the buffer\<close>

text \<open>\<open>emits f bs\<close>: \<open>f\<close> puts \<open>bs\<close> at the position and moves past it, or faults for lack of space.\<close>

definition emits :: "(nat \<times> byte list \<Rightarrow> (nat \<times> byte list) option) \<Rightarrow> byte list \<Rightarrow> bool" where
  "emits f bs \<longleftrightarrow> (\<forall>d rest. f (length d, d @ rest) =
     (if length bs \<le> length rest then Some (length d + length bs, d @ bs @ drop (length bs) rest) else None))"

lemma emits_emit: "emits (emit bs) bs"
  by (simp add: emits_def emit_def blit_def)

lemma emitsD: "emits f bs \<Longrightarrow> f (length d, d @ rest) =
     (if length bs \<le> length rest then Some (length d + length bs, d @ bs @ drop (length bs) rest) else None)"
  by (simp add: emits_def)

lemma emits_bind:
  assumes "emits f a" and "emits g b"
  shows "emits (\<lambda>st. f st \<bind> g) (a @ b)"
  unfolding emits_def
proof (intro allI)
  fix d rest :: "byte list"
  have "g (length d + length a, d @ a @ drop (length a) rest) =
      (if length b \<le> length rest - length a
       then Some (length d + length a + length b, d @ a @ b @ drop (length b) (drop (length a) rest)) else None)"
    using emitsD [OF assms(2), of "d @ a" "drop (length a) rest"] by simp
  then show "f (length d, d @ rest) \<bind> g =
      (if length (a @ b) \<le> length rest
       then Some (length d + length (a @ b), d @ (a @ b) @ drop (length (a @ b)) rest) else None)"
    by (auto simp: emitsD [OF assms(1)] add.commute)
qed

lemma emits_skip: "emits Some []"
  by (simp add: emits_def)

lemma emits_for:
  assumes "\<And>i. a \<le> i \<Longrightarrow> i < n \<Longrightarrow> emits (f (int i)) (e i)"
  shows "emits (for_up (int a) (int n) f) (concat (map e [a..<n]))"
  using assms
proof (induction "n - a" arbitrary: a)
  case 0
  then have "for_up (int a) (int n) f = Some" by (auto simp: for_up.simps [of "int a"] fun_eq_iff)
  then show ?case using 0 by (simp add: emits_skip)
next
  case (Suc k)
  then have less: "a < n" by simp
  have tl: "emits (for_up (int (Suc a)) (int n) f) (concat (map e [Suc a..<n]))"
    using Suc by (intro Suc.hyps) simp_all
  have unfold: "for_up (int a) (int n) f = (\<lambda>st. f (int a) st \<bind> for_up (int (Suc a)) (int n) f)"
    using less by (auto simp: for_up.simps [of "int a"] fun_eq_iff add.commute)
  have bytes: "concat (map e [a..<n]) = e a @ concat (map e [Suc a..<n])"
    using less by (simp add: upt_conv_Cons)
  show ?case
    unfolding unfold bytes by (rule emits_bind [OF Suc.prems(1) [OF le_refl less] tl])
qed

lemma emits_array:
  assumes "n \<le> length arr"
  shows "emits (emit_array enc arr (int n)) (concat (map enc (take n arr)))"
proof -
  have "emits (for_up (int 0) (int n) (\<lambda>i st. do { v \<leftarrow> aget arr i; emit (enc v) st }))
      (concat (map (\<lambda>i. enc (arr ! i)) [0..<n]))"
    using assms by (intro emits_for) (simp add: aget_def emits_emit)
  moreover have "map (\<lambda>i. enc (arr ! i)) [0..<n] = map enc (take n arr)"
    using assms by (intro nth_equalityI) simp_all
  ultimately show ?thesis
    by (simp add: emit_array_def)
qed

text \<open>The item pointers an array of pointers refers to.\<close>

definition tid_vals :: "(ptr \<Rightarrow> ItemPointerData option) \<Rightarrow> ptr option list \<Rightarrow> ItemPointerData list option" where
  "tid_vals it ts = those (map (\<lambda>t. t \<bind> it) ts)"

lemma those_nth: "those xs = Some ys \<Longrightarrow> length ys = length xs \<and> (\<forall>i < length xs. xs ! i = Some (ys ! i))"
proof (induction xs arbitrary: ys)
  case (Cons x xs)
  then show ?case
    by (auto split: option.splits simp: nth_Cons' less_Suc_eq_0_disj)
qed simp

lemma those_map_nth:
  "length ys = length xs \<Longrightarrow> (\<And>i. i < length xs \<Longrightarrow> xs ! i = Some (ys ! i)) \<Longrightarrow> those xs = Some ys"
proof (induction xs ys rule: list_induct2')
  case (4 x xs y ys)
  have "x = Some y" using 4(3) [of 0] by simp
  moreover have "those xs = Some ys"
    using 4(1,2) 4(3) [of "Suc _"] by auto
  ultimately show ?case by simp
qed simp_all

lemma emits_tids:
  assumes "tid_vals it (take n arr) = Some vs" and "n \<le> length arr"
  shows "emits (emit_tids it arr (int n)) (concat (map tid_bytes vs))"
proof -
  have len: "length vs = n" and nth: "\<And>i. i < n \<Longrightarrow> arr ! i \<bind> it = Some (vs ! i)"
    using those_nth [OF assms(1) [unfolded tid_vals_def]] assms(2) by auto
  have "emits (\<lambda>st. do { t \<leftarrow> aget arr (int i); q \<leftarrow> t; tid \<leftarrow> it q;
      st \<leftarrow> emit (u16_le (unat (bi_hi tid))) st;
      st \<leftarrow> emit (u16_le (unat (bi_lo tid))) st;
      emit (u16_le (unat (ip_posid tid))) st }) (tid_bytes (vs ! i))" if "i < n" for i
    using emits_bind [OF emits_emit emits_bind [OF emits_emit emits_emit]] nth [OF that] that assms(2)
    by (auto simp: aget_def tid_bytes_def bind_eq_Some_conv)
  then have "emits (emit_tids it arr (int n)) (concat (map (\<lambda>i. tid_bytes (vs ! i)) [0..<n]))"
    unfolding emit_tids_def 
    using emits_for [of 0 n "\<lambda>i st. do { t \<leftarrow> aget arr i; q \<leftarrow> t; tid \<leftarrow> it q;
      st \<leftarrow> emit (u16_le (unat (bi_hi tid))) st;
      st \<leftarrow> emit (u16_le (unat (bi_lo tid))) st;
      emit (u16_le (unat (ip_posid tid))) st }" "\<lambda>i. tid_bytes (vs ! i)"] by simp
  moreover have "map (\<lambda>i. tid_bytes (vs ! i)) [0..<n] = map tid_bytes vs"
    using len by (intro nth_equalityI) simp_all
  ultimately show ?thesis by simp
qed

definition non_leaf_image :: "bplus_non_leaf \<Rightarrow> byte list" where
  "non_leaf_image n =
     (let c = nat (count n)
      in int64_le (node_type n) @ int64_le (parent_key_idx n) @ int64_le (count n) @
         concat (map int64_le (take c (nkey n))) @ concat (take c (nchildhash n)) @ nnode_hash n @
         concat (map int64_le (take c (chindrenoffset n))) @ int64_le (nnode_id n) @ int64_le (nparent_id n))"

definition leaf_image :: "ItemPointerData list \<Rightarrow> bplus_leaf \<Rightarrow> byte list" where
  "leaf_image vs l =
     (let c = nat (count l)
      in int64_le (node_type l) @ int64_le (parent_key_idx l) @ int64_le (count l) @
         concat (map int64_le (take c (lkey l))) @ concat (take c (ldata l)) @ concat (take c (lchildhash l)) @
         lnode_hash l @ int64_le (lnode_id l) @ int64_le (lparent_id l) @ concat (map tid_bytes vs))"

lemma emits_all: "emits f bs \<Longrightarrow>
    f (0, buf) = (if length bs \<le> length buf then Some (length bs, bs @ drop (length bs) buf) else None)"
  using emitsD [of f bs "[]" buf] by simp

lemmas emits_then = emits_bind [OF emits_emit]

lemma bplus_non_leaf_serialize_eq:
  assumes "non_leaf_shape n" and c: "0 \<le> count n" "count n \<le> 49"
  shows "bplus_non_leaf_serialize n buffer =
    (if length (non_leaf_image n) \<le> length buffer
     then Some (non_leaf_image n @ drop (length (non_leaf_image n)) buffer) else None)"
proof -
  have c': "count n = int (nat (count n))" using c by simp
  have len: "nat (count n) \<le> length (nkey n)" "nat (count n) \<le> length (nchildhash n)"
    "nat (count n) \<le> length (chindrenoffset n)"
    using assms(1) c by (simp_all add: non_leaf_shape_def)
  have "emits (\<lambda>st. emit (int64_le (node_type n)) st \<bind> (\<lambda>st. emit (int64_le (parent_key_idx n)) st \<bind>
      (\<lambda>st. emit (int64_le (count n)) st \<bind> (\<lambda>st. emit_array int64_le (nkey n) (count n) st \<bind>
      (\<lambda>st. emit_array id (nchildhash n) (count n) st \<bind> (\<lambda>st. emit (nnode_hash n) st \<bind>
      (\<lambda>st. emit_array int64_le (chindrenoffset n) (count n) st \<bind>
      (\<lambda>st. emit (int64_le (nnode_id n)) st \<bind> emit (int64_le (nparent_id n)))))))))) (non_leaf_image n)"
    unfolding non_leaf_image_def Let_def
    by (intro emits_then emits_bind emits_emit; subst c'; rule emits_array [where enc = id, simplified] emits_array)
      (simp_all add: len)
  from arg_cong [OF emits_all [OF this, of buffer], of "\<lambda>r. r \<bind> (\<lambda>st. Some (snd st))"] show ?thesis
    by (simp add: bplus_non_leaf_serialize_def split: if_splits)
qed


lemma bplus_leaf_serialize_eq:
  assumes "leaf_shape l" and c: "0 \<le> count l" "count l \<le> 50"
    and tids: "tid_vals it (take (nat (count l)) (tids l)) = Some vs"
  shows "bplus_leaf_serialize it l buffer =
    (if length (leaf_image vs l) \<le> length buffer
     then Some (leaf_image vs l @ drop (length (leaf_image vs l)) buffer) else None)"
proof -
  have c': "count l = int (nat (count l))" using c by simp
  have len: "nat (count l) \<le> length (lkey l)" "nat (count l) \<le> length (ldata l)"
    "nat (count l) \<le> length (lchildhash l)" "nat (count l) \<le> length (tids l)"
    using assms(1) c by (simp_all add: leaf_shape_def)
  have "emits (\<lambda>st. emit (int64_le (node_type l)) st \<bind> (\<lambda>st. emit (int64_le (parent_key_idx l)) st \<bind>
      (\<lambda>st. emit (int64_le (count l)) st \<bind> (\<lambda>st. emit_array int64_le (lkey l) (count l) st \<bind>
      (\<lambda>st. emit_array id (ldata l) (count l) st \<bind> (\<lambda>st. emit_array id (lchildhash l) (count l) st \<bind>
      (\<lambda>st. emit (lnode_hash l) st \<bind> (\<lambda>st. emit (int64_le (lnode_id l)) st \<bind>
      (\<lambda>st. emit (int64_le (lparent_id l)) st \<bind> emit_tids it (tids l) (count l))))))))))
      (leaf_image vs l)"
    unfolding leaf_image_def Let_def
    by (intro emits_then emits_bind emits_emit; subst c';
        rule emits_array [where enc = id, simplified] emits_array emits_tids [OF tids])
      (simp_all add: len)
  from arg_cong [OF emits_all [OF this, of buffer], of "\<lambda>r. r \<bind> (\<lambda>st. Some (snd st))"] show ?thesis
    by (simp add: bplus_leaf_serialize_def split: if_splits)
qed

lemma length_concat_const: "(\<And>x. x \<in> set xs \<Longrightarrow> length (f x) = k) \<Longrightarrow> length (concat (map f xs)) = k * length xs"
  by (induction xs) simp_all

lemma length_tid_bytes [simp]: "length (tid_bytes t) = 6"
  by (simp add: tid_bytes_def)

lemma length_blocks: "(\<And>b. b \<in> set xs \<Longrightarrow> length b = k) \<Longrightarrow> n \<le> length xs \<Longrightarrow> length (concat (take n xs)) = k * n"
  using length_concat_const [of "take n xs" "\<lambda>b. b" k] by (auto dest: in_set_takeD)

lemma length_int64s: "n \<le> length xs \<Longrightarrow> length (concat (map int64_le (take n xs))) = 8 * n"
  by (subst length_concat_const [where k = 8]) simp_all

lemma length_non_leaf_image:
  assumes "non_leaf_shape n" and "0 \<le> count n" "count n \<le> 49"
  shows "length (non_leaf_image n) = 73 + 49 * nat (count n)"
proof -
  have c: "nat (count n) \<le> 49" using assms by simp
  show ?thesis
    using assms(1) c
    by (simp add: non_leaf_image_def non_leaf_shape_def Let_def length_blocks [where k = 33] length_int64s
        del: length_concat)
qed

lemma length_leaf_image:
  assumes "leaf_shape l" and "0 \<le> count l" "count l \<le> 50" and "length vs = nat (count l)"
  shows "length (leaf_image vs l) = 73 + 80 * nat (count l)"
proof -
  have c: "nat (count l) \<le> 50" using assms by simp
  show ?thesis
    using assms(1,4) c
    by (simp add: leaf_image_def leaf_shape_def Let_def length_blocks [where k = 33] length_int64s
        length_concat_const [where k = 6] del: length_concat)
qed

subsection \<open>What a reader finds in an image\<close>

lemma get_int64_at [simp]:
  "in_int64 v \<Longrightarrow> pos = length d \<Longrightarrow> get_int64 (d @ int64_le v @ rest) pos = Some v"
  using le_int64_int64_le [of v "[]"] by (simp add: get_int64_def slice_def)

lemma get_u16_at [simp]:
  "pos = length d \<Longrightarrow> get_u16 (d @ u16_le (unat v) @ rest) pos = Some v"
  using le_u16_u16_le [of "unat v" "[]"] unsigned_less [of v, where 'a = nat]
  by (simp add: get_u16_def slice_def)

text \<open>The string of at most 32 characters that a buffer of 33 bytes carries over.\<close>

definition str32 :: "byte list \<Rightarrow> byte list" where
  "str32 b = cstr (take 32 b)"

definition load_str :: "byte list \<Rightarrow> byte list \<Rightarrow> byte list" where
  "load_str b dst = str32 b @ replicate (32 - length (str32 b)) 0 @ drop 32 dst"

lemma take_cstr: "take n (cstr b) = cstr (take n b)"
  by (induction b arbitrary: n) (simp_all add: cstr_def take_Cons')

lemma length_str32: "length (str32 b) \<le> 32"
  using length_takeWhile_le [of "\<lambda>c. c \<noteq> 0" "take 32 b"] by (simp add: str32_def cstr_def)

lemma str32_load_str: "str32 (load_str b dst) = str32 b"
proof -
  have nz: "\<forall>x \<in> set (str32 b). x \<noteq> 0"
    by (auto simp: str32_def cstr_def dest: set_takeWhileD)
  have "take 32 (load_str b dst) = str32 b @ replicate (32 - length (str32 b)) 0"
    using length_str32 [of b] by (simp add: load_str_def)
  then show ?thesis
    using nz by (simp add: str32_def [of "load_str b dst"] cstr_def takeWhile_append)
qed

lemma get_str32_at:
  "length b = 33 \<Longrightarrow> length dst = 33 \<Longrightarrow> pos = length d \<Longrightarrow>
     get_str32 (d @ b @ rest) pos dst = Some (load_str b dst)"
  using length_str32 [of b]
  by (simp add: get_str32_def strncpy_def take_cstr load_str_def str32_def blit_def Let_def)

lemma read_array_eq:
  assumes "n \<le> length arr" and "\<And>i. i < n \<Longrightarrow> g (pos + w * i) (arr ! i) = Some (v i)"
  shows "read_array w g (int n) (pos, arr) = Some (pos + w * n, map v [0..<n] @ drop n arr)"
proof -
  let ?step = "\<lambda>i (pos, arr). do { d \<leftarrow> aget arr i; v \<leftarrow> g pos d; arr \<leftarrow> aput arr i v; Some (pos + w, arr) }"
  have "for_up (int a) (int n) ?step (pos + w * a, map v [0..<a] @ drop a arr) =
      Some (pos + w * n, map v [0..<n] @ drop n arr)" if "a \<le> n" for a
    using that
  proof (induction "n - a" arbitrary: a)
    case 0
    then show ?case by (simp add: for_up.simps)
  next
    case (Suc k)
    then have less: "a < n" "a < length arr" using assms(1) by auto
    then have dr: "drop a arr = arr ! a # drop (Suc a) arr" by (simp add: Cons_nth_drop_Suc)
    have step: "?step (int a) (pos + w * a, map v [0..<a] @ drop a arr) =
        Some (pos + w * Suc a, map v [0..<Suc a] @ drop (Suc a) arr)"
      using less assms(2) [OF less(1)] by (simp add: aget_def aput_def nth_append dr list_update_append)
    have "for_up (int (Suc a)) (int n) ?step (pos + w * Suc a, map v [0..<Suc a] @ drop (Suc a) arr) =
      Some (pos + w * n, map v [0..<n] @ drop n arr)"
      using Suc less by (intro Suc.hyps) simp_all
    then show ?case
      by (subst for_up.simps, subst step) (simp add: less add.commute)
  qed
  from this [of 0] show ?thesis by (simp add: read_array_def)
qed

lemma concat_split:
  assumes "\<forall>b \<in> set bs. length b = w" and "i < length bs"
  shows "\<exists>d r. concat bs = d @ bs ! i @ r \<and> length d = w * i"
proof (intro exI conjI)
  show "concat bs = concat (take i bs) @ bs ! i @ concat (drop (Suc i) bs)"
    using assms(2) by (metis append_take_drop_id Cons_nth_drop_Suc concat.simps(2) concat_append)
  show "length (concat (take i bs)) = w * i"
    using assms by (intro length_blocks) simp_all
qed

lemma read_int64s_at:
  assumes "\<forall>v \<in> set vs. in_int64 v" and "length vs = n" "n \<le> length arr" "pos = length d"
  shows "read_int64s (d @ concat (map int64_le vs) @ rest) (int n) (pos, arr) =
    Some (pos + 8 * n, vs @ drop n arr)"
proof -
  have len8: "\<forall>b \<in> set (map int64_le vs). length b = 8" by auto
  have "get_int64 (d @ concat (map int64_le vs) @ rest) (pos + 8 * i) = Some (vs ! i)" if less: "i < n" for i
  proof -
    obtain e r where "concat (map int64_le vs) = e @ int64_le (vs ! i) @ r" "length e = 8 * i"
      using concat_split [OF len8, of i] less assms(2) by auto
    then show ?thesis
      using assms less get_int64_at [of "vs ! i" "pos + 8 * i" "d @ e" "r @ rest"] by simp
  qed
  then show ?thesis
    using read_array_eq [OF assms(3), of "\<lambda>p _. get_int64 (d @ concat (map int64_le vs) @ rest) p" pos 8 "nth vs"]
      assms(2) by (auto simp: map_nth)
qed

lemma read_strs_at:
  assumes "\<forall>b \<in> set bs. length b = 33" "\<forall>b \<in> set arr. length b = 33"
    and "length bs = n" "n \<le> length arr" "pos = length d"
  shows "read_strs (d @ concat bs @ rest) (int n) (pos, arr) =
    Some (pos + 33 * n, map2 load_str bs arr @ drop n arr)"
proof -
  have "get_str32 (d @ concat bs @ rest) (pos + 33 * i) (arr ! i) = Some (load_str (bs ! i) (arr ! i))"
    if less: "i < n" for i
  proof -
    obtain e r where "concat bs = e @ bs ! i @ r" "length e = 33 * i"
      using concat_split [OF assms(1), of i] less assms(3) by auto
    then show ?thesis
      using assms less get_str32_at [of "bs ! i" "arr ! i" "pos + 33 * i" "d @ e" "r @ rest"] by simp
  qed
  then have
    "read_strs (d @ concat bs @ rest) (int n) (pos, arr) =
      Some (pos + 33 * n, map (\<lambda>i. load_str (bs ! i) (arr ! i)) [0..<n] @ drop n arr)"
    by (rule read_array_eq [OF assms(4)])
  moreover have "map (\<lambda>i. load_str (bs ! i) (arr ! i)) [0..<n] = map2 load_str bs arr"
    using assms by (intro nth_equalityI) simp_all
  ultimately show ?thesis by simp
qed

subsection \<open>Round trips\<close>

text \<open>The fields of a node are 64-bit integers.\<close>

definition non_leaf_int64 :: "bplus_non_leaf \<Rightarrow> bool" where
  "non_leaf_int64 n \<longleftrightarrow>
     in_int64 (node_type n) \<and> in_int64 (parent_key_idx n) \<and> in_int64 (nnode_id n) \<and> in_int64 (nparent_id n) \<and>
     (\<forall>v \<in> set (nkey n). in_int64 v) \<and> (\<forall>v \<in> set (chindrenoffset n). in_int64 v)"

definition leaf_int64 :: "bplus_leaf \<Rightarrow> bool" where
  "leaf_int64 l \<longleftrightarrow>
     in_int64 (node_type l) \<and> in_int64 (parent_key_idx l) \<and> in_int64 (lnode_id l) \<and> in_int64 (lparent_id l) \<and>
     (\<forall>v \<in> set (lkey l). in_int64 v)"

text \<open>
  What a page keeps of a node: the scalar fields and the used prefix of the arrays,
  strings up to their first NUL and 32 characters.
\<close>

definition non_leaf_content ::
    "bplus_non_leaf \<Rightarrow> int \<times> int \<times> int \<times> int list \<times> byte list list \<times> byte list \<times> int list \<times> int \<times> int" where
  "non_leaf_content n =
     (let c = nat (count n)
      in (node_type n, parent_key_idx n, count n, take c (nkey n), map str32 (take c (nchildhash n)),
          str32 (nnode_hash n), take c (chindrenoffset n), nnode_id n, nparent_id n))"

definition leaf_content ::
    "(ptr \<Rightarrow> ItemPointerData option) \<Rightarrow> bplus_leaf \<Rightarrow>
     int \<times> int \<times> int \<times> int list \<times> byte list list \<times> byte list list \<times> byte list \<times> int \<times> int \<times>
     ItemPointerData list option" where
  "leaf_content it l =
     (let c = nat (count l)
      in (node_type l, parent_key_idx l, count l, take c (lkey l), map str32 (take c (ldata l)),
          map str32 (take c (lchildhash l)), str32 (lnode_hash l), lnode_id l, lparent_id l,
          tid_vals it (take c (tids l))))"

lemma map_str32_load: "length bs \<le> length arr \<Longrightarrow> map (str32 \<circ> (\<lambda>(b, d). load_str b d)) (zip bs arr) = map str32 bs"
  by (intro nth_equalityI) (simp_all add: str32_load_str)

lemma in_int64_count: "0 \<le> c \<Longrightarrow> c \<le> 50 \<Longrightarrow> in_int64 c"
  by (simp add: in_int64_def)

lemma bplus_non_leaf_deserialize_image:
  assumes n: "non_leaf_shape n" "non_leaf_int64 n" "0 \<le> count n" "count n \<le> 49" and m: "non_leaf_shape m"
  obtains m' where "bplus_non_leaf_deserialize m (non_leaf_image n @ rest) = Some m'"
    and "non_leaf_content m' = non_leaf_content n"
    and "parent m' = parent m" "link m' = link m" "sub_ptr m' = sub_ptr m" "tids m' = tids m"
proof -
  define c where "c = nat (count n)"
  have c: "count n = int c" "c \<le> 49" using n by (simp_all add: c_def)
  let ?A = "int64_le (node_type n)" and ?B = "int64_le (parent_key_idx n)" and ?C = "int64_le (count n)"
    and ?K = "concat (map int64_le (take c (nkey n)))" and ?H = "concat (take c (nchildhash n))"
    and ?N = "nnode_hash n" and ?O = "concat (map int64_le (take c (chindrenoffset n)))"
    and ?I = "int64_le (nnode_id n)" and ?P = "int64_le (nparent_id n)"
  define buf where "buf = ?A @ ?B @ ?C @ ?K @ ?H @ ?N @ ?O @ ?I @ ?P @ rest"
  note sh = n(1) [unfolded non_leaf_shape_def] and shm = m [unfolded non_leaf_shape_def]
    and i64 = n(2) [unfolded non_leaf_int64_def]
  have lens: "length ?K = 8 * c" "length ?H = 33 * c" "length ?N = 33" "length ?O = 8 * c"
    using sh c by (simp_all add: length_blocks [where k = 33] length_int64s del: length_concat)
  have tk: "\<forall>b \<in> set (take c (nchildhash n)). length b = 33" "\<forall>v \<in> set (take c (chindrenoffset n)). in_int64 v"
    using sh i64 by (auto dest: in_set_takeD)
  have "non_leaf_image n @ rest = buf"
    by (simp add: non_leaf_image_def Let_def c_def buf_def)
  moreover have "get_int64 buf 0 = Some (node_type n)"
    using get_int64_at [of _ 0 "[]"] i64 by (simp add: buf_def)
  moreover have "get_int64 buf 8 = Some (parent_key_idx n)"
    using get_int64_at [of _ 8 ?A] i64 by (simp add: buf_def)
  moreover have "get_int64 buf 16 = Some (count n)"
    using get_int64_at [of _ 16 "?A @ ?B"] n in_int64_count [of "count n"] by (simp add: buf_def)
  moreover have "read_int64s buf (count n) (24, nkey m) = Some (24 + 8 * c, take c (nkey n) @ drop c (nkey m))"
    using read_int64s_at [of "take c (nkey n)" c "nkey m" 24 "?A @ ?B @ ?C" "?H @ ?N @ ?O @ ?I @ ?P @ rest"]
      sh shm i64 c by (auto simp: buf_def dest: in_set_takeD)
  moreover have "read_strs buf (count n) (24 + 8 * c, nchildhash m) =
      Some (24 + 41 * c, map2 load_str (take c (nchildhash n)) (nchildhash m) @ drop c (nchildhash m))"
    using read_strs_at [of "take c (nchildhash n)" "nchildhash m" c "24 + 8 * c" "?A @ ?B @ ?C @ ?K"
        "?N @ ?O @ ?I @ ?P @ rest"] shm c lens tk sh
    by (simp add: buf_def add.commute del: length_concat)
  moreover have "get_str32 buf (24 + 41 * c) (nnode_hash m) = Some (load_str ?N (nnode_hash m))"
    using get_str32_at [of ?N "nnode_hash m" "24 + 41 * c" "?A @ ?B @ ?C @ ?K @ ?H" "?O @ ?I @ ?P @ rest"]
      sh shm lens by (simp add: buf_def del: length_concat)
  moreover have "read_int64s buf (count n) (57 + 41 * c, chindrenoffset m) =
      Some (57 + 49 * c, take c (chindrenoffset n) @ drop c (chindrenoffset m))"
    using read_int64s_at [of "take c (chindrenoffset n)" c "chindrenoffset m" "57 + 41 * c"
        "?A @ ?B @ ?C @ ?K @ ?H @ ?N" "?I @ ?P @ rest"] sh shm tk c lens
    by (simp add: buf_def add.commute del: length_concat)
  moreover have "get_int64 buf (57 + 49 * c) = Some (nnode_id n)"
    using get_int64_at [of _ "57 + 49 * c" "?A @ ?B @ ?C @ ?K @ ?H @ ?N @ ?O"] i64 lens
    by (simp add: buf_def del: length_concat)
  moreover have "get_int64 buf (65 + 49 * c) = Some (nparent_id n)"
    using get_int64_at [of _ "65 + 49 * c" "?A @ ?B @ ?C @ ?K @ ?H @ ?N @ ?O @ ?I"] i64 lens
    by (simp add: buf_def del: length_concat)
  ultimately show ?thesis
    using that c sh shm
    by (simp add: bplus_non_leaf_deserialize_def non_leaf_content_def Let_def map_str32_load str32_load_str)
qed


text \<open>Item pointers that are read are new objects, in the order of the entries.\<close>

fun alloc_items :: "ItemPointerData list \<Rightarrow> heap \<Rightarrow> heap" where
  "alloc_items [] s = s"
| "alloc_items (v # vs) s =
     alloc_items vs (s\<lparr>items := (items s)(next_ptr s \<mapsto> v), next_ptr := Suc (next_ptr s)\<rparr>)"

lemma alloc_items_other: "q < next_ptr s \<Longrightarrow> items (alloc_items vs s) q = items s q"
  by (induction vs arbitrary: s) simp_all

lemma alloc_items_nth: "i < length vs \<Longrightarrow> items (alloc_items vs s) (next_ptr s + i) = Some (vs ! i)"
proof (induction vs arbitrary: s i)
  case (Cons v vs)
  show ?case
  proof (cases i)
    case 0
    then show ?thesis by (simp add: alloc_items_other)
  next
    case (Suc j)
    then show ?thesis using Cons.prems
      Cons.IH [of j "s\<lparr>items := (items s)(next_ptr s \<mapsto> v), next_ptr := Suc (next_ptr s)\<rparr>"] by simp
  qed
qed simp

lemma alloc_items_core [simp]:
  "tree (alloc_items vs s) = tree s" "nodes (alloc_items vs s) = nodes s"
  "next_ptr (alloc_items vs s) = next_ptr s + length vs"
  by (induction vs arbitrary: s) simp_all

lemma read_tids_from:
  assumes "buf = d @ concat (map tid_bytes vs) @ rest" "length ks = a" "length vs \<le> length ts"
  shows "for_up (int a) (int (a + length vs))
     (\<lambda>i (pos, arr, s). do {
        arr \<leftarrow> aput arr i (Some (next_ptr s));
        hi \<leftarrow> get_u16 buf pos;
        lo \<leftarrow> get_u16 buf (pos + 2);
        ip \<leftarrow> get_u16 buf (pos + 4);
        Some (pos + 6, arr,
          s\<lparr>items := (items s)(next_ptr s \<mapsto> \<lparr>bi_hi = hi, bi_lo = lo, ip_posid = ip\<rparr>),
            next_ptr := Suc (next_ptr s)\<rparr>) })
     (length d, ks @ ts, s) =
     Some (length d + 6 * length vs,
           ks @ map Some [next_ptr s..<next_ptr s + length vs] @ drop (length vs) ts, alloc_items vs s)"
  (is "for_up _ _ ?step _ = _")
  using assms
proof (induction vs arbitrary: d a ks ts s)
  case Nil
  then show ?case by (simp add: for_up.simps)
next
  case (Cons v vs)
  obtain t ts' where ts: "ts = t # ts'" using Cons.prems(3) by (cases ts) auto
  let ?s = "s\<lparr>items := (items s)(next_ptr s \<mapsto> v), next_ptr := Suc (next_ptr s)\<rparr>"
  have vv: "\<lparr>bi_hi = bi_hi v, bi_lo = bi_lo v, ip_posid = ip_posid v\<rparr> = v" by simp
  have buf: "buf = d @ u16_le (unat (bi_hi v)) @ u16_le (unat (bi_lo v)) @ u16_le (unat (ip_posid v)) @
      concat (map tid_bytes vs) @ rest"
    using Cons.prems(1) by (simp add: tid_bytes_def [of v])
  have "get_u16 buf (length d) = Some (bi_hi v)"
    using get_u16_at [of "length d" d] by (simp add: buf)
  moreover have "get_u16 buf (length d + 2) = Some (bi_lo v)"
    using get_u16_at [of "length d + 2" "d @ u16_le (unat (bi_hi v))"] by (simp add: buf)
  moreover have "get_u16 buf (length d + 4) = Some (ip_posid v)"
    using get_u16_at [of "length d + 4" "d @ u16_le (unat (bi_hi v)) @ u16_le (unat (bi_lo v))"]
    by (simp add: buf)
  ultimately have step: "?step (int a) (length d, ks @ ts, s) =
      Some (length (d @ tid_bytes v), (ks @ [Some (next_ptr s)]) @ ts', ?s)"
    using Cons.prems(2) by (simp add: aput_def ts list_update_append vv)
  have "for_up (int (Suc a)) (int (Suc a + length vs)) ?step
      (length (d @ tid_bytes v), (ks @ [Some (next_ptr s)]) @ ts', ?s) =
      Some (length (d @ tid_bytes v) + 6 * length vs,
        (ks @ [Some (next_ptr s)]) @ map Some [next_ptr ?s..<next_ptr ?s + length vs] @ drop (length vs) ts',
        alloc_items vs ?s)"
    using Cons.prems ts by (intro Cons.IH) simp_all
  moreover have "[next_ptr s..<next_ptr s + length (v # vs)] = next_ptr s # [next_ptr ?s..<next_ptr ?s + length vs]"
    using upt_conv_Cons [of "next_ptr s" "next_ptr s + length (v # vs)"] by simp
  ultimately show ?case
    by (subst for_up.simps, subst step) (simp add: ts add.commute del: upt_Suc)
qed

lemma read_tids_at:
  assumes "length vs = n" "n \<le> length ts" "pos = length d"
  shows "read_tids (d @ concat (map tid_bytes vs) @ rest) (int n) (pos, ts, s) =
     Some (pos + 6 * n, map Some [next_ptr s..<next_ptr s + n] @ drop n ts, alloc_items vs s)"
  unfolding read_tids_def
  using read_tids_from [OF refl, of "[]" 0 vs ts d rest s] assms by simp

lemma tid_vals_alloc: "tid_vals (items (alloc_items vs s)) (map Some [next_ptr s..<next_ptr s + length vs]) = Some vs"
  unfolding tid_vals_def by (rule those_map_nth) (simp_all add: alloc_items_nth)

lemma bplus_leaf_deserialize_image:
  assumes l: "leaf_shape l" "leaf_int64 l" "0 \<le> count l" "count l \<le> 50" and m: "leaf_shape m"
    and vs: "tid_vals it (take (nat (count l)) (tids l)) = Some vs"
  obtains m' where "bplus_leaf_deserialize m (leaf_image vs l @ rest) s = Some (m', alloc_items vs s)"
    and "leaf_content (items (alloc_items vs s)) m' = leaf_content it l"
    and "parent m' = parent m" "link m' = link m"
proof -
  define c where "c = nat (count l)"
  have c: "count l = int c" "c \<le> 50" using l by (simp_all add: c_def)
  let ?A = "int64_le (node_type l)" and ?B = "int64_le (parent_key_idx l)" and ?C = "int64_le (count l)"
    and ?K = "concat (map int64_le (take c (lkey l)))" and ?D = "concat (take c (ldata l))"
    and ?H = "concat (take c (lchildhash l))" and ?N = "lnode_hash l"
    and ?I = "int64_le (lnode_id l)" and ?P = "int64_le (lparent_id l)" and ?T = "concat (map tid_bytes vs)"
  define buf where "buf = ?A @ ?B @ ?C @ ?K @ ?D @ ?H @ ?N @ ?I @ ?P @ ?T @ rest"
  note sh = l(1) [unfolded leaf_shape_def] and shm = m [unfolded leaf_shape_def]
    and i64 = l(2) [unfolded leaf_int64_def]
  have lens: "length ?K = 8 * c" "length ?D = 33 * c" "length ?H = 33 * c" "length ?N = 33" "length vs = c"
    using sh c those_nth [OF vs [unfolded tid_vals_def]]
    by (simp_all add: length_blocks [where k = 33] length_int64s del: length_concat)
  have tk: "\<forall>b \<in> set (take c (ldata l)). length b = 33" "\<forall>b \<in> set (take c (lchildhash l)). length b = 33"
    using sh by (auto dest: in_set_takeD)
  have "leaf_image vs l @ rest = buf"
    by (simp add: leaf_image_def Let_def c_def buf_def)
  moreover have "get_int64 buf 0 = Some (node_type l)"
    using get_int64_at [of _ 0 "[]"] i64 by (simp add: buf_def)
  moreover have "get_int64 buf 8 = Some (parent_key_idx l)"
    using get_int64_at [of _ 8 ?A] i64 by (simp add: buf_def)
  moreover have "get_int64 buf 16 = Some (count l)"
    using get_int64_at [of _ 16 "?A @ ?B"] l in_int64_count [of "count l"] by (simp add: buf_def)
  moreover have "read_int64s buf (count l) (24, lkey m) = Some (24 + 8 * c, take c (lkey l) @ drop c (lkey m))"
    using read_int64s_at [of "take c (lkey l)" c "lkey m" 24 "?A @ ?B @ ?C" "?D @ ?H @ ?N @ ?I @ ?P @ ?T @ rest"]
      sh shm i64 c by (auto simp: buf_def dest: in_set_takeD)
  moreover have "read_strs buf (count l) (24 + 8 * c, ldata m) =
      Some (24 + 41 * c, map2 load_str (take c (ldata l)) (ldata m) @ drop c (ldata m))"
    using read_strs_at [of "take c (ldata l)" "ldata m" c "24 + 8 * c" "?A @ ?B @ ?C @ ?K"
        "?H @ ?N @ ?I @ ?P @ ?T @ rest"] sh shm c lens tk
    by (simp add: buf_def add.commute del: length_concat)
  moreover have "read_strs buf (count l) (24 + 41 * c, lchildhash m) =
      Some (24 + 74 * c, map2 load_str (take c (lchildhash l)) (lchildhash m) @ drop c (lchildhash m))"
    using read_strs_at [of "take c (lchildhash l)" "lchildhash m" c "24 + 41 * c" "?A @ ?B @ ?C @ ?K @ ?D"
        "?N @ ?I @ ?P @ ?T @ rest"] sh shm c lens tk
    by (simp add: buf_def add.commute del: length_concat)
  moreover have "get_str32 buf (24 + 74 * c) (lnode_hash m) = Some (load_str ?N (lnode_hash m))"
    using get_str32_at [of ?N "lnode_hash m" "24 + 74 * c" "?A @ ?B @ ?C @ ?K @ ?D @ ?H" "?I @ ?P @ ?T @ rest"]
      sh shm lens by (simp add: buf_def del: length_concat)
  moreover have "get_int64 buf (57 + 74 * c) = Some (lnode_id l)"
    using get_int64_at [of _ "57 + 74 * c" "?A @ ?B @ ?C @ ?K @ ?D @ ?H @ ?N"] i64 lens
    by (simp add: buf_def del: length_concat)
  moreover have "get_int64 buf (65 + 74 * c) = Some (lparent_id l)"
    using get_int64_at [of _ "65 + 74 * c" "?A @ ?B @ ?C @ ?K @ ?D @ ?H @ ?N @ ?I"] i64 lens
    by (simp add: buf_def del: length_concat)
  moreover have "read_tids buf (count l) (73 + 74 * c, tids m, s) =
      Some (73 + 80 * c, map Some [next_ptr s..<next_ptr s + c] @ drop c (tids m), alloc_items vs s)"
    using read_tids_at [of vs c "tids m" "73 + 74 * c" "?A @ ?B @ ?C @ ?K @ ?D @ ?H @ ?N @ ?I @ ?P" rest s]
      shm c lens by (simp add: buf_def add.commute del: length_concat)
  ultimately show ?thesis
    using that c sh shm lens(5) vs tid_vals_alloc [of vs s]
    by (simp add: bplus_leaf_deserialize_def leaf_content_def Let_def map_str32_load str32_load_str)
qed

lemma emit_array_within: "emit_array enc arr n st = Some st' \<Longrightarrow> n \<le> int (length arr)"
proof (rule ccontr)
  let ?step = "\<lambda>i st. do { v \<leftarrow> aget arr i; emit (enc v) st }"
  assume "emit_array enc arr n st = Some st'" and n: "\<not> n \<le> int (length arr)"
  moreover have "for_up i n ?step st = None" if "0 \<le> i" "i \<le> int (length arr)" for i st
    using that
  proof (induction "nat (int (length arr) - i)" arbitrary: i st)
    case 0
    then show ?case using n by (simp add: for_up.simps [of i] aget_def)
  next
    case (Suc k)
    then have "for_up (i + 1) n ?step st2 = None" for st2 by (intro Suc.hyps) auto
    then show ?case using n Suc.prems by (subst for_up.simps) (auto split: bind_splits)
  qed
  ultimately show False by (simp add: emit_array_def)
qed

lemma tid_vals_length: "tid_vals it ts = Some vs \<Longrightarrow> length vs = length ts"
  unfolding tid_vals_def by (auto dest: those_nth)

subsection \<open>The page of a node\<close>

text \<open>A node with two children and a leaf with two entries.\<close>

definition sample_non_leaf :: bplus_non_leaf where
  "sample_non_leaf = garbage_non_leaf\<lparr>node_type := 1, parent_key_idx := -1, count := 2,
     nkey := 10 # replicate 48 0, nchildhash := replicate 50 (ascii ''0123456789abcdef0123456789abcdef'' @ [0]),
     nnode_hash := ascii ''root'' @ replicate 29 0, chindrenoffset := 4096 # 8192 # replicate 48 0,
     nnode_id := 3, nparent_id := 0\<rparr>"

definition sample_leaf :: bplus_leaf where
  "sample_leaf = garbage_leaf\<lparr>node_type := 0, parent_key_idx := 1, count := 2, tids := Some 1 # Some 2 # replicate 48 None,
     lkey := 10 # 20 # replicate 48 0, ldata := replicate 50 (ascii ''row'' @ replicate 30 0),
     lchildhash := replicate 50 (ascii ''0123456789abcdef0123456789abcdef'' @ [0]),
     lnode_hash := ascii ''leaf'' @ replicate 29 0, lnode_id := 1, lparent_id := 3\<rparr>"

definition sample_items :: "ptr \<Rightarrow> ItemPointerData option" where
  "sample_items = [1 \<mapsto> \<lparr>bi_hi = 0, bi_lo = 7, ip_posid = 1\<rparr>, 2 \<mapsto> \<lparr>bi_hi = 0, bi_lo = 7, ip_posid = 2\<rparr>]"

text \<open>C26. A non-leaf node with up to 49 children always fits its page: serialising it into a page
  buffer succeeds, and deserialising that page into any node gives back the type, the indices, the
  keys, the child hashes, the node hash, the offsets and the ids, and leaves the in-memory links of
  the target alone.\<close>

theorem non_leaf_page_roundtrip:
  assumes "non_leaf_shape n" "non_leaf_int64 n" "0 \<le> count n" "count n \<le> 49" "non_leaf_shape m"
    and "length buffer = PAGESIZE"
  shows "\<exists>page m'. bplus_non_leaf_serialize n buffer = Some page \<and> length page = PAGESIZE \<and>
    bplus_non_leaf_deserialize m page = Some m' \<and> non_leaf_content m' = non_leaf_content n \<and>
    parent m' = parent m \<and> link m' = link m \<and> sub_ptr m' = sub_ptr m"
proof -
  have len: "length (non_leaf_image n) \<le> length buffer"
    using length_non_leaf_image [OF assms(1,3,4)] assms(4,6) by (simp add: PAGESIZE_def)
  obtain m' where "bplus_non_leaf_deserialize m
      (non_leaf_image n @ drop (length (non_leaf_image n)) buffer) = Some m'"
    "non_leaf_content m' = non_leaf_content n" "parent m' = parent m" "link m' = link m" "sub_ptr m' = sub_ptr m"
    using bplus_non_leaf_deserialize_image [OF assms(1-5)] by metis
  then show ?thesis
    using bplus_non_leaf_serialize_eq [OF assms(1,3,4), of buffer] len assms(6) by simp
qed

theorem non_leaf_page_roundtrip_witness:
  "\<exists>page m'. bplus_non_leaf_serialize sample_non_leaf (replicate 4096 0) = Some page \<and>
    bplus_non_leaf_deserialize garbage_non_leaf page = Some m' \<and>
    non_leaf_content m' = non_leaf_content sample_non_leaf"
  using non_leaf_page_roundtrip [of sample_non_leaf garbage_non_leaf "replicate 4096 0"]
  by (auto simp: sample_non_leaf_def garbage_non_leaf_def non_leaf_shape_def non_leaf_int64_def in_int64_def
      PAGESIZE_def ascii_def)

text \<open>C27. A leaf always fits its page too, with up to 50 entries, and the round trip through the page
  gives back its keys, data, hashes and ids; its item pointers come back as new objects with the same
  values, and no node and no older item pointer changes.\<close>

theorem leaf_page_roundtrip:
  assumes "leaf_shape l" "leaf_int64 l" "0 \<le> count l" "count l \<le> 50" "leaf_shape m"
    and "length buffer = PAGESIZE"
    and "tid_vals it (take (nat (count l)) (tids l)) = Some vs"
  shows "\<exists>page m' s'. bplus_leaf_serialize it l buffer = Some page \<and> length page = PAGESIZE \<and>
    bplus_leaf_deserialize m page s = Some (m', s') \<and> leaf_content (items s') m' = leaf_content it l \<and>
    parent m' = parent m \<and> link m' = link m \<and> nodes s' = nodes s \<and>
    (\<forall>q < next_ptr s. items s' q = items s q)"
proof -
  have vs: "length vs = nat (count l)"
    using tid_vals_length [OF assms(7)] assms(1,4) by (simp add: leaf_shape_def)
  have len: "length (leaf_image vs l) \<le> length buffer"
    using length_leaf_image [OF assms(1,3,4) vs] assms(4,6) by (simp add: PAGESIZE_def)
  obtain m' where "bplus_leaf_deserialize m (leaf_image vs l @ drop (length (leaf_image vs l)) buffer) s =
      Some (m', alloc_items vs s)"
    "leaf_content (items (alloc_items vs s)) m' = leaf_content it l" "parent m' = parent m" "link m' = link m"
    using bplus_leaf_deserialize_image [OF assms(1-5,7)] by metis
  then show ?thesis
    using bplus_leaf_serialize_eq [OF assms(1,3,4,7), of buffer] len assms(6) by (auto simp: alloc_items_other)
qed

theorem leaf_page_roundtrip_witness:
  "\<exists>page m' s'. bplus_leaf_serialize sample_items sample_leaf (replicate 4096 0) = Some page \<and>
    bplus_leaf_deserialize garbage_leaf page blank_heap = Some (m', s') \<and>
    leaf_content (items s') m' = leaf_content sample_items sample_leaf"
proof -
  have "tid_vals sample_items (take (nat (count sample_leaf)) (tids sample_leaf)) =
      Some [\<lparr>bi_hi = 0, bi_lo = 7, ip_posid = 1\<rparr>, \<lparr>bi_hi = 0, bi_lo = 7, ip_posid = 2\<rparr>]"
    by (simp add: sample_leaf_def sample_items_def tid_vals_def)
  then show ?thesis
    using leaf_page_roundtrip [of sample_leaf garbage_leaf "replicate 4096 0" sample_items _ blank_heap]
    by (auto simp: sample_leaf_def garbage_leaf_def leaf_shape_def leaf_int64_def in_int64_def
        PAGESIZE_def ascii_def)
qed

text \<open>C28. The size function of a non-leaf is short: it counts one key less than the serialiser
  writes, so with one child or more a buffer of exactly the reported size makes the serialiser write
  past its end, and 8 more bytes are what it needs.\<close>

theorem non_leaf_serialize_size_short:
  assumes "non_leaf_shape n" "1 \<le> count n" "count n \<le> 49"
  shows "bplus_non_leaf_serialize n buffer \<noteq> None \<longleftrightarrow>
    bplus_non_leaf_get_serialize_size n + 8 \<le> int (length buffer)"
  using bplus_non_leaf_serialize_eq [OF assms(1) _ assms(3), of buffer]
    length_non_leaf_image [OF assms(1) _ assms(3)] assms(2)
  by (auto simp: bplus_non_leaf_get_serialize_size_def)

theorem non_leaf_serialize_size_short_witness:
  "bplus_non_leaf_get_serialize_size sample_non_leaf = 163 \<and>
   bplus_non_leaf_serialize sample_non_leaf (replicate 163 0) = None \<and>
   bplus_non_leaf_serialize sample_non_leaf (replicate 171 0) \<noteq> None"
  using non_leaf_serialize_size_short [of sample_non_leaf "replicate 163 0"]
    non_leaf_serialize_size_short [of sample_non_leaf "replicate 171 0"]
  by (simp add: sample_non_leaf_def garbage_non_leaf_def non_leaf_shape_def ascii_def
      bplus_non_leaf_get_serialize_size_def)

text \<open>C29. A non-leaf that holds 50 children, as a tree of the maximal order 50 allows, cannot be
  serialised without leaving its key array: the loop over the children reads \<^verbatim>\<open>key[49]\<close> of an array
  of 49 keys, whatever the buffer.\<close>

theorem full_non_leaf_serialize_faults:
  assumes "non_leaf_shape n" "count n = BPLUS_MAX_ORDER"
  shows "bplus_non_leaf_serialize n buffer = None"
proof (rule ccontr)
  assume "\<not> ?thesis"
  then obtain st st' where "emit_array int64_le (nkey n) (count n) st = Some st'"
    unfolding bplus_non_leaf_serialize_def by (auto simp: bind_eq_Some_conv)
  from emit_array_within [OF this] show False
    using assms by (simp add: non_leaf_shape_def BPLUS_MAX_ORDER_def)
qed

theorem full_non_leaf_serialize_faults_witness:
  "bplus_non_leaf_serialize (sample_non_leaf\<lparr>count := 50\<rparr>) (replicate 4096 0) = None"
  by (rule full_non_leaf_serialize_faults)
    (simp_all add: sample_non_leaf_def garbage_non_leaf_def non_leaf_shape_def ascii_def BPLUS_MAX_ORDER_def)

end
