(* ===== verification/Sha256.thy ===== *)
theory Sha256
  imports MBT_Prelude
begin

unbundle bit_operations_syntax

text \<open>
  The SHA-256 implementation of \<^verbatim>\<open>src/backend/mbt/sha256.c\<close> and its header
  \<^verbatim>\<open>src/include/mbt/sha256.h\<close>, on machine words: \<^verbatim>\<open>unsigned int\<close> is a 32-bit word, so
  every sum and the bit length of the message wrap as in C. A context that
  \<^verbatim>\<open>malloc\<close> returned has arbitrary contents, an argument of \<open>init\<close>.

  The second half gives the hash as FIPS 180 defines it (padding, then one
  compression per 64-byte block) and shows that the streaming code computes it.
\<close>

type_synonym uint32 = "32 word"

record SHA256 =
  m_tot_len :: uint32
  m_len :: uint32
  m_block :: "byte list"
  m_h :: "uint32 list"

text \<open>The round constants \<^verbatim>\<open>sha256_k\<close> of the header, which writes them in hexadecimal.\<close>

definition sha256_k :: "uint32 list" where
  "sha256_k =
     [1116352408, 1899447441, 3049323471, 3921009573,
      961987163, 1508970993, 2453635748, 2870763221,
      3624381080, 310598401, 607225278, 1426881987,
      1925078388, 2162078206, 2614888103, 3248222580,
      3835390401, 4022224774, 264347078, 604807628,
      770255983, 1249150122, 1555081692, 1996064986,
      2554220882, 2821834349, 2952996808, 3210313671,
      3336571891, 3584528711, 113926993, 338241895,
      666307205, 773529912, 1294757372, 1396182291,
      1695183700, 1986661051, 2177026350, 2456956037,
      2730485921, 2820302411, 3259730800, 3345764771,
      3516065817, 3600352804, 4094571909, 275423344,
      430227734, 506948616, 659060556, 883997877,
      958139571, 1322822218, 1537002063, 1747873779,
      1955562222, 2024104815, 2227730452, 2361852424,
      2428436474, 2756734187, 3204031479, 3329325298]"

definition SHA224_256_BLOCK_SIZE :: uint32 where
  "SHA224_256_BLOCK_SIZE = 64"

definition DIGEST_SIZE :: nat where
  "DIGEST_SIZE = 32"

subsection \<open>The macros of the header\<close>

definition SHA2_SHFR :: "uint32 \<Rightarrow> nat \<Rightarrow> uint32" where
  "SHA2_SHFR x n = drop_bit n x"

definition SHA2_ROTR :: "uint32 \<Rightarrow> nat \<Rightarrow> uint32" where
  "SHA2_ROTR x n = drop_bit n x OR push_bit (32 - n) x"

definition SHA2_CH :: "uint32 \<Rightarrow> uint32 \<Rightarrow> uint32 \<Rightarrow> uint32" where
  "SHA2_CH x y z = (x AND y) XOR (NOT x AND z)"

definition SHA2_MAJ :: "uint32 \<Rightarrow> uint32 \<Rightarrow> uint32 \<Rightarrow> uint32" where
  "SHA2_MAJ x y z = (x AND y) XOR (x AND z) XOR (y AND z)"

definition SHA256_F1 :: "uint32 \<Rightarrow> uint32" where
  "SHA256_F1 x = SHA2_ROTR x 2 XOR SHA2_ROTR x 13 XOR SHA2_ROTR x 22"

definition SHA256_F2 :: "uint32 \<Rightarrow> uint32" where
  "SHA256_F2 x = SHA2_ROTR x 6 XOR SHA2_ROTR x 11 XOR SHA2_ROTR x 25"

definition SHA256_F3 :: "uint32 \<Rightarrow> uint32" where
  "SHA256_F3 x = SHA2_ROTR x 7 XOR SHA2_ROTR x 18 XOR SHA2_SHFR x 3"

definition SHA256_F4 :: "uint32 \<Rightarrow> uint32" where
  "SHA256_F4 x = SHA2_ROTR x 17 XOR SHA2_ROTR x 19 XOR SHA2_SHFR x 10"

definition SHA2_UNPACK32 :: "uint32 \<Rightarrow> byte list" where
  "SHA2_UNPACK32 x = [ucast (drop_bit 24 x), ucast (drop_bit 16 x), ucast (drop_bit 8 x), ucast x]"

definition SHA2_PACK32 :: "byte list \<Rightarrow> uint32" where
  "SHA2_PACK32 str =
     ucast (str ! 3) OR push_bit 8 (ucast (str ! 2)) OR push_bit 16 (ucast (str ! 1))
       OR push_bit 24 (ucast (str ! 0))"

subsection \<open>The functions of the source\<close>

definition init :: "SHA256 \<Rightarrow> SHA256" where
  "init raw = raw\<lparr>m_h := [0x6a09e667, 0xbb67ae85, 0x3c6ef372, 0xa54ff53a,
                          0x510e527f, 0x9b05688c, 0x1f83d9ab, 0x5be0cd19],
                  m_len := 0, m_tot_len := 0\<rparr>"

text \<open>The message schedule \<^verbatim>\<open>w\<close> of one block: the first two loops of \<^verbatim>\<open>transform\<close>.\<close>

definition sched_pack :: "byte list \<Rightarrow> uint32 list" where
  "sched_pack sub_block = map (\<lambda>j. SHA2_PACK32 (drop (4 * j) sub_block)) [0..<16]"

definition sched_step :: "uint32 list \<Rightarrow> nat \<Rightarrow> uint32 list" where
  "sched_step w j =
     w @ [SHA256_F4 (w ! (j - 2)) + w ! (j - 7) + SHA256_F3 (w ! (j - 15)) + w ! (j - 16)]"

definition sched :: "byte list \<Rightarrow> uint32 list" where
  "sched sub_block = foldl sched_step (sched_pack sub_block) [16..<64]"

text \<open>One of the 64 rounds on the working variables \<^verbatim>\<open>wv\<close>.\<close>

definition sha_round :: "uint32 list \<Rightarrow> uint32 list \<Rightarrow> nat \<Rightarrow> uint32 list" where
  "sha_round w wv j =
     (let t1 = wv ! 7 + SHA256_F2 (wv ! 4) + SHA2_CH (wv ! 4) (wv ! 5) (wv ! 6) + sha256_k ! j + w ! j;
          t2 = SHA256_F1 (wv ! 0) + SHA2_MAJ (wv ! 0) (wv ! 1) (wv ! 2)
      in [t1 + t2, wv ! 0, wv ! 1, wv ! 2, wv ! 3 + t1, wv ! 4, wv ! 5, wv ! 6])"

definition transform_block :: "uint32 list \<Rightarrow> byte list \<Rightarrow> uint32 list" where
  "transform_block h sub_block =
     (let wv = foldl (sha_round (sched sub_block)) h [0..<64]
      in map (\<lambda>j. h ! j + wv ! j) [0..<8])"

definition transform_loop :: "uint32 list \<Rightarrow> byte list \<Rightarrow> nat \<Rightarrow> uint32 list" where
  "transform_loop h message n =
     foldl (\<lambda>h i. transform_block h (take 64 (drop (64 * i) message))) h [0..<n]"

text \<open>The loop bound is the block count cast to \<^verbatim>\<open>int\<close>; it reads 64 bytes per block.\<close>

definition transform :: "SHA256 \<Rightarrow> byte list \<Rightarrow> uint32 \<Rightarrow> SHA256 option" where
  "transform ctx message block_nb =
     (let n = nat (sint block_nb)
      in if 64 * n \<le> length message
         then Some (ctx\<lparr>m_h := transform_loop (m_h ctx) message n\<rparr>) else None)"

definition update :: "SHA256 \<Rightarrow> byte list \<Rightarrow> uint32 \<Rightarrow> SHA256 option" where
  "update ctx message len =
     (let tmp_len = SHA224_256_BLOCK_SIZE - m_len ctx;
          rem_len = (if len < tmp_len then len else tmp_len)
      in do { src \<leftarrow> slice message 0 (unat rem_len);
              blk \<leftarrow> blit (m_block ctx) (unat (m_len ctx)) src;
              let ctx1 = ctx\<lparr>m_block := blk\<rparr>;
              if m_len ctx + len < SHA224_256_BLOCK_SIZE then
                Some (ctx1\<lparr>m_len := m_len ctx + len\<rparr>)
              else do {
                let new_len = len - rem_len;
                let block_nb = new_len div SHA224_256_BLOCK_SIZE;
                let shifted_message = drop (unat rem_len) message;
                ctx2 \<leftarrow> transform ctx1 (m_block ctx1) 1;
                ctx3 \<leftarrow> transform ctx2 shifted_message block_nb;
                let rem_len' = new_len mod SHA224_256_BLOCK_SIZE;
                src' \<leftarrow> slice shifted_message (unat (push_bit 6 block_nb)) (unat rem_len');
                blk' \<leftarrow> blit (m_block ctx3) 0 src';
                Some (ctx3\<lparr>m_block := blk', m_len := rem_len',
                           m_tot_len := m_tot_len ctx3 + push_bit 6 (block_nb + 1)\<rparr>) } })"

definition final :: "SHA256 \<Rightarrow> (byte list \<times> SHA256) option" where
  "final ctx =
     (let block_nb = 1 + (if SHA224_256_BLOCK_SIZE - 9 < m_len ctx mod SHA224_256_BLOCK_SIZE
                          then 1 else 0);
          len_b = push_bit 3 (m_tot_len ctx + m_len ctx);
          pm_len = push_bit 6 block_nb
      in do { b1 \<leftarrow> blit (m_block ctx) (unat (m_len ctx)) (replicate (unat (pm_len - m_len ctx)) 0);
              b2 \<leftarrow> blit b1 (unat (m_len ctx)) [0x80];
              b3 \<leftarrow> blit b2 (unat (pm_len - 4)) (SHA2_UNPACK32 len_b);
              ctx' \<leftarrow> transform (ctx\<lparr>m_block := b3\<rparr>) b3 block_nb;
              Some (concat (map (\<lambda>i. SHA2_UNPACK32 (m_h ctx' ! i)) [0..<8]), ctx') })"

text \<open>\<^verbatim>\<open>sprintf(buf + 2 * i, "%02x", digest[i])\<close>\<close>

definition hex_digit :: "nat \<Rightarrow> byte" where
  "hex_digit n = word_of_nat (if n < 10 then 48 + n else 87 + n)"

definition hex_byte :: "byte \<Rightarrow> byte list" where
  "hex_byte b = [hex_digit (unat b div 16), hex_digit (unat b mod 16)]"

text \<open>
  \<^verbatim>\<open>sha256_pg\<close>: the digest of the C string \<open>input\<close>, of which the first
  \<^verbatim>\<open>DIGEST_SIZE/2\<close> bytes are printed; \<^verbatim>\<open>strlen\<close> is cut to an \<^verbatim>\<open>unsigned int\<close>. \<open>raw\<close>
  is the context as \<^verbatim>\<open>malloc\<close> returned it; the result is the new contents of the
  output buffer.
\<close>

definition sha256_hex :: "SHA256 \<Rightarrow> byte list \<Rightarrow> byte list option" where
  "sha256_hex raw input =
     do { ctx \<leftarrow> update (init raw) (cstr input) (of_nat (strlen input));
          (digest, ctx') \<leftarrow> final ctx;
          Some (concat (map (\<lambda>i. hex_byte (digest ! i)) [0..<DIGEST_SIZE div 2])) }"

definition sha256_pg :: "SHA256 \<Rightarrow> byte list \<Rightarrow> byte list \<Rightarrow> byte list option" where
  "sha256_pg raw input output =
     do { buf \<leftarrow> sha256_hex raw input; strcpy output (buf @ [0]) }"

text \<open>A context of the shape \<^verbatim>\<open>malloc(sizeof(SHA256))\<close> returns.\<close>

definition ctx_shape :: "SHA256 \<Rightarrow> bool" where
  "ctx_shape ctx \<longleftrightarrow> length (m_block ctx) = 128 \<and> length (m_h ctx) = 8"

subsection \<open>The hash of FIPS 180\<close>

definition Sigma0 :: "uint32 \<Rightarrow> uint32" where
  "Sigma0 x = word_rotr 2 x XOR word_rotr 13 x XOR word_rotr 22 x"

definition Sigma1 :: "uint32 \<Rightarrow> uint32" where
  "Sigma1 x = word_rotr 6 x XOR word_rotr 11 x XOR word_rotr 25 x"

definition sigma0 :: "uint32 \<Rightarrow> uint32" where
  "sigma0 x = word_rotr 7 x XOR word_rotr 18 x XOR drop_bit 3 x"

definition sigma1 :: "uint32 \<Rightarrow> uint32" where
  "sigma1 x = word_rotr 17 x XOR word_rotr 19 x XOR drop_bit 10 x"

text \<open>Big-endian words, as numbers.\<close>

definition be_word :: "byte list \<Rightarrow> uint32" where
  "be_word bs = of_nat (foldl (\<lambda>n b. 256 * n + unat b) 0 (take 4 bs))"

fun spec_W :: "byte list \<Rightarrow> nat \<Rightarrow> uint32" where
  "spec_W M t =
     (if t < 16 then be_word (drop (4 * t) M)
      else sigma1 (spec_W M (t - 2)) + spec_W M (t - 7) + sigma0 (spec_W M (t - 15))
        + spec_W M (t - 16))"

declare spec_W.simps [simp del]

type_synonym hstate = "uint32 \<times> uint32 \<times> uint32 \<times> uint32 \<times> uint32 \<times> uint32 \<times> uint32 \<times> uint32"

fun spec_round :: "byte list \<Rightarrow> hstate \<Rightarrow> nat \<Rightarrow> hstate" where
  "spec_round M (a, b, c, d, e, f, g, h) t =
     (let T1 = h + Sigma1 e + ((e AND f) XOR (NOT e AND g)) + sha256_k ! t + spec_W M t;
          T2 = Sigma0 a + ((a AND b) XOR (a AND c) XOR (b AND c))
      in (T1 + T2, a, b, c, d + T1, e, f, g))"

fun hstate_add :: "hstate \<Rightarrow> hstate \<Rightarrow> hstate" where
  "hstate_add (a, b, c, d, e, f, g, h) (a', b', c', d', e', f', g', h') =
     (a + a', b + b', c + c', d + d', e + e', f + f', g + g', h + h')"

definition spec_compress :: "hstate \<Rightarrow> byte list \<Rightarrow> hstate" where
  "spec_compress H M = hstate_add H (foldl (spec_round M) H [0..<64])"

definition spec_init :: hstate where
  "spec_init = (0x6a09e667, 0xbb67ae85, 0x3c6ef372, 0xa54ff53a,
                0x510e527f, 0x9b05688c, 0x1f83d9ab, 0x5be0cd19)"

text \<open>Big-endian image of a 64-bit length, and the padding.\<close>

definition be64 :: "nat \<Rightarrow> byte list" where
  "be64 n = rev (nat_le 8 n)"

definition spec_pad :: "byte list \<Rightarrow> byte list" where
  "spec_pad msg = msg @ [0x80] @ replicate ((119 - length msg mod 64) mod 64) 0 @ be64 (8 * length msg)"

definition spec_blocks :: "byte list \<Rightarrow> byte list list" where
  "spec_blocks p = map (\<lambda>i. take 64 (drop (64 * i) p)) [0..<length p div 64]"

fun hstate_bytes :: "hstate \<Rightarrow> byte list" where
  "hstate_bytes (a, b, c, d, e, f, g, h) =
     concat (map (\<lambda>w. rev (nat_le 4 (unat w))) [a, b, c, d, e, f, g, h])"

definition sha256_spec :: "byte list \<Rightarrow> byte list" where
  "sha256_spec msg = hstate_bytes (foldl spec_compress spec_init (spec_blocks (spec_pad msg)))"

subsection \<open>The compression function\<close>

lemma SHA2_ROTR_rotr:
  assumes "0 < n" "n < 32"
  shows "SHA2_ROTR x n = word_rotr n x"
proof (rule bit_word_eqI)
  fix i
  assume "i < LENGTH(32)"
  moreover from this have "(i + n) mod 32 = (if i + n < 32 then i + n else i + n - 32)"
    using assms by (simp add: mod_if)
  ultimately show "bit (SHA2_ROTR x n) i = bit (word_rotr n x) i"
    using assms
    by (auto simp: SHA2_ROTR_def bit_simps bit_word_rotr_iff add.commute dest: bit_imp_le_length)
qed

lemma sha_functions:
  "SHA256_F1 = Sigma0" "SHA256_F2 = Sigma1" "SHA256_F3 = sigma0" "SHA256_F4 = sigma1"
  by (simp_all add: fun_eq_iff SHA256_F1_def SHA256_F2_def SHA256_F3_def SHA256_F4_def
      Sigma0_def Sigma1_def sigma0_def sigma1_def SHA2_ROTR_rotr SHA2_SHFR_def)

lemma word_or_disjoint_add:
  "x AND y = 0 \<Longrightarrow> x OR y = x + (y :: 'a :: len word)"
  by (simp add: disjunctive_add_eq_or)

lemma bit_ucast_byte: "bit (ucast (b :: byte) :: uint32) i \<longleftrightarrow> i < 8 \<and> bit b i"
  by (auto simp: bit_simps dest: bit_imp_le_length)

lemma pack_bytes:
  "ucast (b3 :: byte) OR push_bit 8 (ucast (b2 :: byte)) OR push_bit 16 (ucast (b1 :: byte))
     OR push_bit 24 (ucast (b0 :: byte)) =
   (of_nat (256 * (256 * (256 * unat b0 + unat b1) + unat b2) + unat b3) :: uint32)"
proof -
  have d: "(ucast b3 :: uint32) AND (push_bit 8 (ucast b2) OR push_bit 16 (ucast b1) OR push_bit 24 (ucast b0)) = 0"
    "(push_bit 8 (ucast b2) :: uint32) AND (push_bit 16 (ucast b1) OR push_bit 24 (ucast b0)) = 0"
    "(push_bit 16 (ucast b1) :: uint32) AND push_bit 24 (ucast b0) = 0"
    by (auto simp: bit_eq_iff bit_simps dest!: bit_imp_le_length)
  have o: "of_nat (unat b) = (ucast b :: uint32)" for b :: byte
    by (simp add: unsigned_ucast_eq of_nat_unat)
  have "ucast b3 OR push_bit 8 (ucast b2) OR push_bit 16 (ucast b1) OR push_bit 24 (ucast b0) =
      (ucast b3 + (push_bit 8 (ucast b2) + (push_bit 16 (ucast b1) + push_bit 24 (ucast b0))) :: uint32)"
    using word_or_disjoint_add [OF d(1)] word_or_disjoint_add [OF d(2)] word_or_disjoint_add [OF d(3)]
    by metis
  then show ?thesis
    by (simp add: o push_bit_eq_mult algebra_simps)
qed

lemma length_4: "4 \<le> length xs \<Longrightarrow> take 4 xs = [xs ! 0, xs ! 1, xs ! 2, xs ! 3]"
  by (auto simp: list_eq_iff_nth_eq less_Suc_eq numeral_eq_Suc)

lemma SHA2_PACK32_be_word:
  assumes "4 \<le> length xs"
  shows "SHA2_PACK32 xs = be_word xs"
  by (simp add: SHA2_PACK32_def be_word_def length_4 [OF assms] pack_bytes)

lemma four: "4 = Suc (Suc (Suc (Suc 0)))"
  by simp

lemma nat_le_4:
  "nat_le 4 n = [word_of_nat (n mod 256), word_of_nat (n div 256 mod 256),
     word_of_nat (n div 256 div 256 mod 256), word_of_nat (n div 256 div 256 div 256 mod 256)]"
  by (simp only: nat_le.simps four)

lemma SHA2_UNPACK32_bytes: "SHA2_UNPACK32 w = rev (nat_le 4 (unat w))"
proof -
  have m: "word_of_nat (n mod 256) = (word_of_nat n :: byte)" for n
    by (rule word_unat_eq_iff [THEN iffD2]) (simp add: unat_of_nat)
  have u: "(word_of_nat (unat w div 2 ^ k) :: byte) = ucast (drop_bit k w)" for k
    by (simp flip: drop_bit_eq_div add: unat_drop_bit_eq [symmetric])
  show ?thesis
    using u [of 0] u [of 8] u [of 16] u [of 24]
    by (simp add: SHA2_UNPACK32_def m nat_le_4 flip: div_mult2_eq)
qed

lemma sched_prefix:
  assumes "length M = 64" "k \<le> 48"
  shows "length (foldl sched_step (sched_pack M) [16..<16 + k]) = 16 + k \<and>
    (\<forall>t < 16 + k. foldl sched_step (sched_pack M) [16..<16 + k] ! t = spec_W M t)"
  using assms(2)
proof (induction k)
  case 0
  show ?case
    using assms(1) by (auto simp: sched_pack_def spec_W.simps [of M] SHA2_PACK32_be_word)
next
  case (Suc k)
  let ?w = "foldl sched_step (sched_pack M) [16..<16 + k]"
  have IH: "length ?w = 16 + k" "\<And>t. t < 16 + k \<Longrightarrow> ?w ! t = spec_W M t"
    using Suc by auto
  have "foldl sched_step (sched_pack M) [16..<16 + Suc k] = sched_step ?w (16 + k)"
    using upt_Suc_append [of 16 "16 + k"] by simp
  moreover have "sched_step ?w (16 + k) = ?w @ [spec_W M (16 + k)]"
    using IH(2) [of "14 + k"] IH(2) [of "9 + k"] IH(2) [of "1 + k"] IH(2) [of k]
    by (simp add: sched_step_def sha_functions spec_W.simps [of M "16 + k"])
  moreover have "t < 17 + k \<longleftrightarrow> t < 16 + k \<or> t = 16 + k" for t
    by auto
  ultimately show ?case
    using IH by (auto simp: nth_append)
qed

lemma sched_spec: "length M = 64 \<Longrightarrow> t < 64 \<Longrightarrow> sched M ! t = spec_W M t"
  using sched_prefix [of M 48] by (simp add: sched_def)

fun hstate_list :: "hstate \<Rightarrow> uint32 list" where
  "hstate_list (a, b, c, d, e, f, g, h) = [a, b, c, d, e, f, g, h]"

lemma sha_round_spec:
  assumes "length M = 64" "t < 64"
  shows "sha_round (sched M) (hstate_list H) t = hstate_list (spec_round M H t)"
  using sched_spec [OF assms]
  by (cases H rule: hstate_list.cases) (simp add: sha_round_def sha_functions SHA2_CH_def SHA2_MAJ_def Let_def)

lemma sha_rounds_spec:
  assumes "length M = 64" "n \<le> 64"
  shows "foldl (sha_round (sched M)) (hstate_list H) [0..<n] =
    hstate_list (foldl (spec_round M) H [0..<n])"
  using assms(2) by (induction n) (simp_all add: sha_round_spec [OF assms(1)])

lemma transform_block_spec:
  assumes "length M = 64"
  shows "transform_block (hstate_list H) M = hstate_list (spec_compress H M)"
proof -
  have "map (\<lambda>j. hstate_list A ! j + hstate_list B ! j) [0..<8] = hstate_list (hstate_add A B)" for A B
    by (cases A rule: hstate_list.cases; cases B rule: hstate_list.cases) (simp add: upt_rec)
  then show ?thesis
    using sha_rounds_spec [OF assms, of 64 H] by (simp add: transform_block_def spec_compress_def Let_def)
qed

lemma transform_loop_spec:
  assumes "64 * n \<le> length M"
  shows "transform_loop (hstate_list H) M n =
    hstate_list (foldl spec_compress H (map (\<lambda>i. take 64 (drop (64 * i) M)) [0..<n]))"
  using assms by (induction n) (simp_all add: transform_loop_def transform_block_spec)

lemma transform_loop_add:
  "transform_loop h M (a + b) = transform_loop (transform_loop h M a) (drop (64 * a) M) b"
  by (induction b) (simp_all add: transform_loop_def algebra_simps)

lemma transform_loop_append:
  "64 * n \<le> length M \<Longrightarrow> transform_loop h (M @ M') n = transform_loop h M n"
  by (induction n) (simp_all add: transform_loop_def)

subsection \<open>The streaming interface\<close>

text \<open>\<open>absorbed ctx m\<close>: the context has consumed the message \<open>m\<close>.\<close>

definition absorbed :: "SHA256 \<Rightarrow> byte list \<Rightarrow> bool" where
  "absorbed ctx m \<longleftrightarrow>
     length (m_block ctx) = 128 \<and> unat (m_len ctx) = length m mod 64 \<and>
     m_tot_len ctx = of_nat (64 * (length m div 64)) \<and>
     take (length m mod 64) (m_block ctx) = drop (64 * (length m div 64)) m \<and>
     m_h ctx = transform_loop (hstate_list spec_init) m (length m div 64)"

lemma absorbed_init: "ctx_shape raw \<Longrightarrow> absorbed (init raw) []"
  by (simp add: absorbed_def ctx_shape_def init_def transform_loop_def spec_init_def)

lemma sint_small:
  assumes "unat (n :: uint32) < 2 ^ 31"
  shows "nat (sint n) = unat n"
proof -
  have "0 \<le> uint n"
    by simp
  moreover have "uint n < 2 ^ 31"
    using assms unfolding uint_nat by (metis of_nat_less_iff of_nat_numeral of_nat_power)
  ultimately have "signed_take_bit 31 (uint n) = uint n"
    by (intro signed_take_bit_int_eq_self) linarith+
  then show ?thesis
    by (simp add: sint_uint)
qed

lemma transform_eq:
  "unat n < 2 ^ 31 \<Longrightarrow> 64 * unat n \<le> length M \<Longrightarrow>
   transform ctx M n = Some (ctx\<lparr>m_h := transform_loop (m_h ctx) M (unat n)\<rparr>)"
  by (simp add: transform_def sint_small Let_def)

lemma unat_mul64: "unat (n :: uint32) * 64 < 2 ^ 32 \<Longrightarrow> unat (push_bit 6 n) = 64 * unat n"
  by (simp add: push_bit_eq_mult unat_word_ariths)

lemma update_small:
  assumes "length (m_block ctx) = 128" "unat (m_len ctx) + unat len < 64" "unat len \<le> length msg"
  shows "update ctx msg len =
    Some (ctx\<lparr>m_block := take (unat (m_len ctx)) (m_block ctx) @ take (unat len) msg @
                          drop (unat (m_len ctx) + unat len) (m_block ctx),
              m_len := m_len ctx + len\<rparr>)"
proof -
  have "unat (64 - m_len ctx) = 64 - unat (m_len ctx)"
    using assms(2) by (simp add: unat_sub word_le_nat_alt)
  moreover have "unat (m_len ctx + len) = unat (m_len ctx) + unat len"
    using assms(2) by (simp add: unat_word_ariths)
  ultimately show ?thesis
    using assms
    by (simp add: update_def SHA224_256_BLOCK_SIZE_def slice_def blit_def Let_def word_less_nat_alt)
qed

lemma update_large:
  assumes "length (m_block ctx) = 128" "unat (m_len ctx) = r" "r < 64"
    "64 \<le> r + unat len" "unat len + 64 < 2 ^ 32" "unat len \<le> length msg"
    and n: "n = unat len - (64 - r)"
    and blk: "blk = take r (m_block ctx) @ take (64 - r) msg @ drop 64 (m_block ctx)"
    and rest: "rest = drop (64 - r) msg"
  shows "update ctx msg len =
    Some (ctx\<lparr>m_block := take (n mod 64) (drop (64 * (n div 64)) rest) @ drop (n mod 64) blk,
              m_h := transform_loop (transform_loop (m_h ctx) blk 1) rest (n div 64),
              m_len := of_nat (n mod 64),
              m_tot_len := m_tot_len ctx + of_nat (64 * (n div 64 + 1))\<rparr>)"
proof -
  have sub: "unat (64 - m_len ctx) = 64 - r"
    using assms(2,3) by (simp add: unat_sub word_le_nat_alt)
  have add: "unat (m_len ctx + len) = r + unat len"
    using assms by (simp add: unat_word_ariths)
  have le: "64 - m_len ctx \<le> len"
    using sub assms(4) by (simp add: word_le_nat_alt)
  have nl: "unat (len - (64 - m_len ctx)) = n"
    using le sub n by (simp add: unat_sub)
  have b: "unat ((len - (64 - m_len ctx)) div 64) = n div 64"
    "unat ((len - (64 - m_len ctx)) mod 64) = n mod 64"
    by (simp_all add: nl unat_div unat_mod)
  have n32: "n < 2 ^ 32" using n assms(5) by simp
  have sh: "unat (push_bit 6 ((len - (64 - m_len ctx)) div 64)) = 64 * (n div 64)"
    using n32 by (subst unat_mul64) (simp_all add: b)
  have words: "(len - (64 - m_len ctx)) mod 64 = of_nat (n mod 64)"
    "push_bit 6 ((len - (64 - m_len ctx)) div 64 + 1) = of_nat (64 * (n div 64 + 1))"
    by (simp_all add: push_bit_eq_mult flip: b)
  have len: "64 * (n div 64) + n mod 64 \<le> length rest" "64 * (n div 64) \<le> length rest"
    using n rest assms(6) by (simp_all add: mult_div_mod_eq)
  have nn: "\<not> unat len < 64 - r" "\<not> r + unat len < 64" "64 - r \<le> length msg"
    using assms(4,6) by auto
  have lb: "length blk = 128"
    using assms(1,3) nn(3) by (simp add: blk)
  have t1: "transform (ctx\<lparr>m_block := blk\<rparr>) blk 1 =
      Some (ctx\<lparr>m_block := blk, m_h := transform_loop (m_h ctx) blk 1\<rparr>)"
    using transform_eq [of 1 blk "ctx\<lparr>m_block := blk\<rparr>"] lb by simp
  have t2: "transform c rest ((len - (64 - m_len ctx)) div 64) =
      Some (c\<lparr>m_h := transform_loop (m_h c) rest (n div 64)\<rparr>)" for c
    using transform_eq [of "(len - (64 - m_len ctx)) div 64" rest c] len(2) n32 by (simp add: b)
  have "n mod 64 \<le> length rest - 64 * (n div 64)"
    using len(1) by linarith
  then have lt: "length (take (n mod 64) (drop (64 * (n div 64)) rest)) = n mod 64"
    by simp
  have lm: "n mod 64 \<le> 128"
    using mod_less_divisor [of 64 n] by linarith
  have s1: "slice msg 0 (64 - r) = Some (take (64 - r) msg)"
    "blit (m_block ctx) r (take (64 - r) msg) = Some blk"
    using nn(3) assms(1,3) by (simp_all add: slice_def blit_def blk)
  have s2: "slice rest (64 * (n div 64)) (n mod 64) = Some (take (n mod 64) (drop (64 * (n div 64)) rest))"
    "blit blk 0 (take (n mod 64) (drop (64 * (n div 64)) rest)) =
       Some (take (n mod 64) (drop (64 * (n div 64)) rest) @ drop (n mod 64) blk)"
    using len(1) lm by (simp_all only: slice_def blit_def if_True take_0 append_Nil add_0 lt lb)
  have r: "(if len < 64 - m_len ctx then len else 64 - m_len ctx) = 64 - m_len ctx"
    "(m_len ctx + len < 64) = False"
    using leD [OF le] by (simp_all only: if_False word_less_nat_alt add) (simp add: nn(2))
  show ?thesis
    unfolding update_def SHA224_256_BLOCK_SIZE_def Let_def r sub assms(2) s1 bind.bind_lunit if_False
      rest [symmetric] SHA256.simps t1 t2 b sh s2 words
    using t1 s2 b(2) by (simp add: words)
qed

lemma absorbedI:
  assumes "length m = 64 * q + r" "r < 64" "length (m_block ctx) = 128" "unat (m_len ctx) = r"
    "m_tot_len ctx = of_nat (64 * q)" "take r (m_block ctx) = drop (64 * q) m"
    "m_h ctx = transform_loop (hstate_list spec_init) m q"
  shows "absorbed ctx m"
  using assms by (simp add: absorbed_def)

lemma absorbedE:
  assumes "absorbed ctx m"
  obtains q r where "length m = 64 * q + r" "r < 64" "length (m_block ctx) = 128"
    "unat (m_len ctx) = r" "m_tot_len ctx = of_nat (64 * q)"
    "take r (m_block ctx) = drop (64 * q) m"
    "m_h ctx = transform_loop (hstate_list spec_init) m q"
  using assms unfolding absorbed_def
  by (intro that [of "length m div 64" "length m mod 64"]) simp_all

lemma absorbed_update_small:
  assumes ctx: "absorbed ctx m" and len: "unat len \<le> length msg" "unat (m_len ctx) + unat len < 64"
  shows "\<exists>ctx'. update ctx msg len = Some ctx' \<and> absorbed ctx' (m @ take (unat len) msg)"
  using ctx
proof (cases rule: absorbedE)
  case (1 q r)
  have "unat (m_len ctx + len) = r + unat len"
    using len(2) 1(4) by (simp add: unat_word_ariths)
  then show ?thesis
    using update_small [OF 1(3) len(2,1)] 1 len
    by (auto intro!: absorbedI [of _ q "r + unat len"] simp: transform_loop_append)
qed

lemma transform_loop_cong:
  assumes "\<And>i. i < n \<Longrightarrow> take 64 (drop (64 * i) M) = take 64 (drop (64 * i) M')"
  shows "transform_loop h M n = transform_loop h M' n"
  using assms by (induction n) (simp_all add: transform_loop_def)

lemma transform_loop_take:
  assumes "64 * n \<le> k"
  shows "transform_loop h (take k M) n = transform_loop h M n"
  using assms by (intro transform_loop_cong) (simp add: drop_take)

lemma absorbed_update_large:
  assumes ctx: "absorbed ctx m"
    and len: "unat len \<le> length msg" "unat len + 64 < 2 ^ 32" "64 \<le> unat (m_len ctx) + unat len"
  shows "\<exists>ctx'. update ctx msg len = Some ctx' \<and> absorbed ctx' (m @ take (unat len) msg)"
  using ctx
proof (cases rule: absorbedE)
  case (1 q r)
  define n where "n = unat len - (64 - r)"
  define rest where "rest = drop (64 - r) msg"
  define blk where "blk = take r (m_block ctx) @ take (64 - r) msg @ drop 64 (m_block ctx)"
  let ?M = "m @ take (unat len) msg"
  have nlen: "unat len = 64 - r + n" and lmsg: "length rest = length msg - (64 - r)"
    using len(3) 1(2,4) by (auto simp: n_def rest_def)
  have M: "length ?M = 64 * (q + (1 + n div 64)) + n mod 64"
    using 1(1,2) nlen len(1) by simp
  have d1: "drop (64 * q) ?M = drop (64 * q) m @ take (64 - r) msg @ take n rest"
    using 1(1) by (simp add: nlen rest_def take_add)
  have lp: "length (drop (64 * q) m) = r"
    using 1(1) by simp
  have d2: "drop (64 * (q + 1)) ?M = take n rest"
    using 1(1,2) by (simp add: nlen rest_def drop_take)
  have t2: "transform_loop h (drop (64 * q) ?M) 1 = transform_loop h blk 1" for h
    by (rule transform_loop_cong)
      (use 1(1,2,6) len(1) nlen in \<open>simp add: d1 blk_def\<close>)
  have h: "transform_loop (hstate_list spec_init) ?M (q + (1 + n div 64)) =
      transform_loop (transform_loop (m_h ctx) blk 1) rest (n div 64)"
  proof -
    have "transform_loop (hstate_list spec_init) ?M q = m_h ctx"
      using 1(1,7) by (simp add: transform_loop_append)
    moreover have "drop (64 * 1) (drop (64 * q) ?M) = take n rest"
      using d2 by (simp only: drop_drop) (simp add: algebra_simps)
    ultimately show ?thesis
      by (simp only: transform_loop_add t2 transform_loop_take times_div_less_eq_dividend)
  qed
  define part where "part = take (n mod 64) (drop (64 * (n div 64)) rest)"
  have lrest: "n mod 64 \<le> length (drop (64 * (n div 64)) rest)"
    using lmsg len(1) nlen mult_div_mod_eq [of 64 n] unfolding length_drop by linarith
  have lblk: "length blk = 128"
    using 1(2,3) len(1) nlen by (simp add: blk_def)
  have lpart: "length part = n mod 64" "length (part @ drop (n mod 64) blk) = 128"
    using lrest lblk mod_less_divisor [of 64 n] by (simp_all add: part_def)
  have "drop (64 * (q + (1 + n div 64))) ?M = drop (64 * (n div 64)) (take n rest)"
    using arg_cong [OF d2, of "drop (64 * (n div 64))"]
    by (simp only: drop_drop) (simp only: algebra_simps)
  then have part: "part = drop (64 * (q + (1 + n div 64))) ?M"
    by (simp add: part_def drop_take minus_mult_div_eq_mod)
  have up: "update ctx msg len = Some (ctx\<lparr>m_block := part @ drop (n mod 64) blk,
              m_h := transform_loop (transform_loop (m_h ctx) blk 1) rest (n div 64),
              m_len := of_nat (n mod 64),
              m_tot_len := m_tot_len ctx + of_nat (64 * (n div 64 + 1))\<rparr>)" (is "_ = Some ?ctx'")
    using update_large [OF 1(3,4,2) _ len(2,1) n_def blk_def rest_def] len(3) 1(4)
    by (simp add: part_def)
  have tk: "take (n mod 64) (part @ drop (n mod 64) blk) = drop (64 * (q + (1 + n div 64))) ?M"
    using lpart(1) unfolding part [symmetric] by simp
  have "absorbed ?ctx' ?M"
    apply (rule absorbedI [OF M])
    subgoal by simp
    subgoal using lpart(2) by simp
    subgoal by (simp add: unat_of_nat)
    subgoal using 1(5) by simp
    subgoal using tk by (simp del: drop_append take_append add_mult_distrib2)
    subgoal using h by simp
    done
  then show ?thesis using up by blast
qed

lemma absorbed_update:
  assumes "absorbed ctx m" "unat len \<le> length msg" "unat len + 64 < 2 ^ 32"
  shows "\<exists>ctx'. update ctx msg len = Some ctx' \<and> absorbed ctx' (m @ take (unat len) msg)"
  using absorbed_update_small [OF assms(1,2)] absorbed_update_large [OF assms]
  by (cases "unat (m_len ctx) + unat len < 64") simp_all

lemma nat_le_add: "nat_le (a + b) n = nat_le a n @ nat_le b (n div 256 ^ a)"
  by (induction a arbitrary: n) (simp_all add: div_mult2_eq)

lemma nat_le_0: "nat_le k 0 = replicate k 0"
  by (induction k) simp_all

lemma be64_small:
  assumes "n < 2 ^ 32"
  shows "be64 n = replicate 4 0 @ SHA2_UNPACK32 (of_nat n)"
proof -
  have "nat_le (4 + 4) n = nat_le 4 n @ replicate 4 0"
    unfolding nat_le_add using assms by (simp add: nat_le_0)
  then show ?thesis
    using assms by (simp add: be64_def SHA2_UNPACK32_bytes unat_of_nat)
qed

lemma length_SHA2_UNPACK32 [simp]: "length (SHA2_UNPACK32 w) = 4"
  by (simp add: SHA2_UNPACK32_def)

lemma final_image:
  fixes blk :: "byte list"
  assumes "length blk = 128" "r < 64" "pm = (if r < 56 then 64 else 128)" "length x = 4"
    and b1: "b1 = take r blk @ replicate (pm - r) 0 @ drop pm blk"
  shows "blit blk r (replicate (pm - r) 0) = Some b1"
    and "blit b1 r [0x80] = Some (take r blk @ [0x80] @ replicate (pm - r - 1) 0 @ drop pm blk)"
    and "blit (take r blk @ [0x80] @ replicate (pm - r - 1) 0 @ drop pm blk) (pm - 4) x =
      Some (take r blk @ [0x80] @ replicate (pm - r - 5) 0 @ x @ drop pm blk)"
proof -
  have pm: "r < pm" "pm \<le> 128" "pm - 5 \<ge> r"
    using assms(2,3) by (auto split: if_splits)
  then show "blit blk r (replicate (pm - r) 0) = Some b1"
    using assms(1) by (simp add: blit_def b1)
  have "replicate (pm - r) (0 :: byte) = 0 # replicate (pm - r - 1) 0"
    using pm by (cases "pm - r") simp_all
  then show "blit b1 r [0x80] = Some (take r blk @ [0x80] @ replicate (pm - r - 1) 0 @ drop pm blk)"
    using assms(1) pm by (simp add: blit_def b1)
  define z where "z = pm - r - 5"
  have z: "pm = r + 5 + z"
    using assms(2,3) by (auto simp: z_def)
  have "replicate (pm - r - 1) 0 = replicate z 0 @ replicate 4 (0 :: byte)"
    by (simp add: z flip: replicate_add)
  then show "blit (take r blk @ [0x80] @ replicate (pm - r - 1) 0 @ drop pm blk) (pm - 4) x =
      Some (take r blk @ [0x80] @ replicate (pm - r - 5) 0 @ x @ drop pm blk)"
    using assms(1,2,4) pm(2) by (simp add: blit_def z drop_Cons')
qed

lemma spec_pad_tail:
  assumes "length m = 64 * q + r" "r < 64" "pm = (if r < 56 then 64 else 128)" "length m < 2 ^ 29"
  shows "drop (64 * q) (spec_pad m) =
      drop (64 * q) m @ [0x80] @ replicate (pm - r - 5) 0 @ SHA2_UNPACK32 (of_nat (8 * length m))"
    and "length (spec_pad m) = 64 * q + pm"
proof -
  have k: "(119 - r) mod 64 + 4 = pm - r - 5"
    using assms(2,3) by (auto simp: mod_if)
  have "spec_pad m = m @ [0x80] @ replicate ((119 - r) mod 64) 0 @ replicate 4 0 @
      SHA2_UNPACK32 (of_nat (8 * length m))"
    using assms(1,2,4) be64_small [of "8 * length m"] by (simp add: spec_pad_def)
  then have p: "spec_pad m = m @ [0x80] @ replicate (pm - r - 5) 0 @ SHA2_UNPACK32 (of_nat (8 * length m))"
    unfolding k [symmetric] replicate_add by simp
  show "drop (64 * q) (spec_pad m) =
      drop (64 * q) m @ [0x80] @ replicate (pm - r - 5) 0 @ SHA2_UNPACK32 (of_nat (8 * length m))"
    using assms(1) by (simp add: p)
  show "length (spec_pad m) = 64 * q + pm"
    using assms(1-3) by (simp add: p)
qed

lemma transform_loop_pad:
  assumes m: "length m = 64 * q + r" "r < 64" "pm = (if r < 56 then 64 else 128)" "pm = 64 * nb"
    "length m < 2 ^ 29"
  shows "transform_loop (transform_loop (hstate_list spec_init) m q)
      (drop (64 * q) m @ [0x80] @ replicate (pm - r - 5) 0 @ SHA2_UNPACK32 (of_nat (8 * length m)) @ rest) nb =
    hstate_list (foldl spec_compress spec_init (spec_blocks (spec_pad m)))"
    (is "transform_loop ?h ?b nb = _")
proof -
  let ?P = "spec_pad m"
  note pad = spec_pad_tail [OF m(1-3,5)]
  have "drop (64 * q) ?P @ rest = ?b"
    by (simp add: pad(1))
  moreover have "64 * nb \<le> length (drop (64 * q) ?P)"
    using pad(2) m(4) by simp
  ultimately have "transform_loop ?h ?b nb = transform_loop ?h (drop (64 * q) ?P) nb"
    by (metis transform_loop_append)
  moreover have "?h = transform_loop (hstate_list spec_init) ?P q"
    using m(1) by (simp add: spec_pad_def transform_loop_append)
  ultimately have "transform_loop ?h ?b nb = transform_loop (hstate_list spec_init) ?P (q + nb)"
    by (simp add: transform_loop_add)
  also have "q + nb = length ?P div 64"
    using pad(2) m(4) by simp
  finally show ?thesis
    by (simp add: transform_loop_spec spec_blocks_def)
qed

lemma final_digest:
  assumes ctx: "absorbed ctx m" and len: "length m < 2 ^ 29"
  shows "\<exists>ctx'. final ctx = Some (sha256_spec m, ctx')"
  using ctx
proof (cases rule: absorbedE)
  case (1 q r)
  define nb where "nb = (if r < 56 then 1 else 2 :: nat)"
  define pm where "pm = (if r < 56 then 64 else 128 :: nat)"
  let ?bits = "SHA2_UNPACK32 (of_nat (8 * length m))"
  have pm: "pm = 64 * nb" "r \<le> pm" using 1(2) by (auto simp: pm_def nb_def)
  have block_nb: "(1 + (if 64 - 9 < m_len ctx mod 64 then 1 else 0) :: uint32) = of_nat nb"
    using 1(2,4) by (simp add: nb_def word_less_nat_alt unat_mod)
  have nbw: "unat (of_nat nb :: uint32) = nb" "push_bit 6 (of_nat nb :: uint32) = of_nat pm"
    by (simp_all add: nb_def pm_def)
  have sub: "unat (of_nat pm - m_len ctx) = pm - r" "unat (of_nat pm - 4 :: uint32) = pm - 4"
    using 1(2,4) by (auto simp: pm_def unat_sub word_le_nat_alt)
  have ml: "m_len ctx = of_nat r"
    unfolding 1(4) [symmetric] by simp
  have bits: "push_bit 3 (m_tot_len ctx + m_len ctx) = of_nat (8 * length m)"
    unfolding ml 1(1,5) by (simp add: push_bit_eq_mult)
  note im = final_image [OF 1(3,2) pm_def _ refl, of ?bits, simplified]
  define b3 where "b3 = take r (m_block ctx) @ [0x80] @ replicate (pm - r - 5) 0 @ ?bits @ drop pm (m_block ctx)"
  have lb3: "64 * nb \<le> length b3"
    using 1(2,3) by (auto simp: b3_def pm_def nb_def)
  have "unat (of_nat nb :: uint32) < 2 ^ 31"
    unfolding nbw by (simp add: nb_def)
  then have tr: "transform c b3 (of_nat nb) = Some (c\<lparr>m_h := transform_loop (m_h c) b3 nb\<rparr>)" for c
    using transform_eq [of "of_nat nb" b3 c] lb3 by (simp only: nbw)
  have tl: "transform_loop (m_h ctx) b3 nb =
      hstate_list (foldl spec_compress spec_init (spec_blocks (spec_pad m)))"
    unfolding 1(7) using transform_loop_pad [OF 1(1,2) pm_def pm(1) len] by (simp add: b3_def 1(6))
  have im: "blit (m_block ctx) r (replicate (pm - r) 0) \<bind> (\<lambda>b1. blit b1 r [0x80] \<bind>
      (\<lambda>b2. blit b2 (pm - 4) ?bits \<bind> f)) = f b3" for f :: "byte list \<Rightarrow> (byte list \<times> SHA256) option"
    using final_image [OF 1(3,2) pm_def length_SHA2_UNPACK32 refl] by (simp add: b3_def)
  have fin: "final ctx = Some (concat (map (\<lambda>i. SHA2_UNPACK32 (transform_loop (m_h ctx) b3 nb ! i)) [0..<8]),
      ctx\<lparr>m_block := b3, m_h := transform_loop (m_h ctx) b3 nb\<rparr>)"
    unfolding final_def SHA224_256_BLOCK_SIZE_def Let_def block_nb nbw bits 1(4) sub im tr
    by simp
  have "concat (map (\<lambda>i. SHA2_UNPACK32 (hstate_list H ! i)) [0..<8]) = hstate_bytes H" for H
    by (cases H rule: hstate_list.cases) (simp add: upt_rec SHA2_UNPACK32_bytes)
  then show ?thesis
    unfolding fin tl sha256_spec_def by simp
qed

subsection \<open>The interface of the hash\<close>

text \<open>\<open>node_hash s\<close>: the text \<^verbatim>\<open>sha256_pg\<close> produces for the string \<open>s\<close>.\<close>

definition node_hash :: "byte list \<Rightarrow> byte list" where
  "node_hash s = concat (map hex_byte (take (DIGEST_SIZE div 2) (sha256_spec s)))"

lemma length_hstate_bytes: "length (hstate_bytes H) = 32"
  by (cases H rule: hstate_bytes.cases) simp

lemma length_sha256_spec: "length (sha256_spec m) = 32"
  by (simp add: sha256_spec_def length_hstate_bytes)

lemma hex_digit_nonzero: "n < 16 \<Longrightarrow> hex_digit n \<noteq> 0"
  by (auto simp: hex_digit_def word_unat_eq_iff unat_of_nat)

lemma hex_byte_nonzero: "c \<in> set (hex_byte b) \<Longrightarrow> c \<noteq> 0"
proof -
  have "unat b < 256"
    by (rule order_less_le_trans [OF unsigned_less]) simp
  then show "c \<in> set (hex_byte b) \<Longrightarrow> c \<noteq> 0"
    using hex_digit_nonzero [of "unat b div 16"] hex_digit_nonzero [of "unat b mod 16"]
    by (auto simp: hex_byte_def less_mult_imp_div_less)
qed

lemma length_node_hash [simp]: "length (node_hash s) = 32"
proof -
  have "length (concat (map hex_byte bs)) = 2 * length bs" for bs
    by (induction bs) (simp_all add: hex_byte_def)
  then show ?thesis
    by (simp add: node_hash_def DIGEST_SIZE_def length_sha256_spec)
qed

lemma node_hash_nonzero: "c \<in> set (node_hash s) \<Longrightarrow> c \<noteq> 0"
  using hex_byte_nonzero by (auto simp: node_hash_def)

lemma map_nth_take: "k \<le> length xs \<Longrightarrow> map (\<lambda>i. f (xs ! i)) [0..<k] = map f (take k xs)"
  by (auto simp: list_eq_iff_nth_eq)

lemma sha256_hex_node_hash:
  assumes "ctx_shape raw" "strlen input < 2 ^ 29"
  shows "sha256_hex raw input = Some (node_hash (cstr input))"
proof -
  have u: "unat (of_nat (strlen input) :: uint32) = length (cstr input)"
    using assms(2) by (simp add: unat_of_nat strlen_def)
  obtain ctx where ctx: "update (init raw) (cstr input) (of_nat (strlen input)) = Some ctx"
    and abs: "absorbed ctx (cstr input)"
    using absorbed_update [OF absorbed_init [OF assms(1)], of "of_nat (strlen input)" "cstr input"] u assms(2)
    by (auto simp: strlen_def)
  obtain ctx' where "final ctx = Some (sha256_spec (cstr input), ctx')"
    using final_digest [OF abs] assms(2) by (auto simp: strlen_def)
  then show ?thesis
    by (simp add: sha256_hex_def ctx node_hash_def DIGEST_SIZE_def length_sha256_spec
        map_nth_take)
qed

subsection \<open>Properties\<close>

text \<open>
  C22. For every string shorter than 2^29 bytes and every output buffer of at
  least 33 bytes, \<^verbatim>\<open>sha256_pg\<close> returns without a fault and writes, whatever the
  context held before, the first 16 bytes of the FIPS 180 SHA-256 digest of the
  string as 32 lower-case hexadecimal digits and a NUL; the rest of the buffer is
  unchanged.
\<close>

theorem sha256_pg_correct:
  assumes "ctx_shape raw" and "strlen input < 2 ^ 29" and "33 \<le> length output"
  shows "sha256_pg raw input output =
    Some (concat (map hex_byte (take 16 (sha256_spec (cstr input)))) @ [0] @ drop 33 output)"
proof -
  have "cstr (node_hash s @ [0]) = node_hash s" for s
    unfolding cstr_def using node_hash_nonzero by (subst takeWhile_append2) auto
  then have "sha256_pg raw input output = Some (node_hash (cstr input) @ [0] @ drop 33 output)"
    using assms by (simp add: sha256_pg_def sha256_hex_node_hash strcpy_def blit_def)
  then show ?thesis
    by (simp add: node_hash_def DIGEST_SIZE_def)
qed

text \<open>The pieces of a message handed to \<^verbatim>\<open>update\<close> one after the other.\<close>

fun update_all :: "SHA256 \<Rightarrow> byte list list \<Rightarrow> SHA256 option" where
  "update_all ctx [] = Some ctx"
| "update_all ctx (p # ps) = do { ctx' \<leftarrow> update ctx p (of_nat (length p)); update_all ctx' ps }"

lemma absorbed_update_all:
  assumes "absorbed ctx m" "length (concat ps) < 2 ^ 29"
  shows "\<exists>ctx'. update_all ctx ps = Some ctx' \<and> absorbed ctx' (m @ concat ps)"
  using assms
proof (induction ps arbitrary: ctx m)
  case (Cons p ps)
  have u: "unat (of_nat (length p) :: uint32) = length p"
    using Cons.prems(2) by (simp add: unat_of_nat)
  obtain c where "update ctx p (of_nat (length p)) = Some c" "absorbed c (m @ p)"
    using absorbed_update [OF Cons.prems(1), of "of_nat (length p)" p] u Cons.prems(2) by auto
  with Cons.IH [of c "m @ p"] Cons.prems(2) show ?case by simp
qed simp

text \<open>
  C23. The digest does not depend on how the message is cut: absorbing the pieces
  one call of \<^verbatim>\<open>update\<close> at a time and finishing with \<^verbatim>\<open>final\<close> returns the SHA-256
  digest of their concatenation, for any pieces of less than 2^29 bytes in all.
\<close>

theorem sha256_streaming:
  assumes "ctx_shape raw" and "length (concat ps) < 2 ^ 29"
  shows "\<exists>ctx ctx'. update_all (init raw) ps = Some ctx \<and> final ctx = Some (sha256_spec (concat ps), ctx')"
  using absorbed_update_all [OF absorbed_init [OF assms(1)] assms(2)] final_digest assms(2) by fastforce

text \<open>A context as \<^verbatim>\<open>malloc\<close> may return it.\<close>

definition raw_ctx :: SHA256 where
  "raw_ctx = \<lparr>m_tot_len = 17, m_len = 3, m_block = replicate 128 255, m_h = replicate 8 1\<rparr>"

theorem sha256_pg_correct_witness:
  "ctx_shape raw_ctx \<and> strlen [97, 98, 99, 0] < 2 ^ 29 \<and> 33 \<le> length (replicate 40 (1 :: byte)) \<and>
   sha256_pg raw_ctx [97, 98, 99, 0] (replicate 40 1) =
     Some (concat (map hex_byte (take 16 (sha256_spec [97, 98, 99]))) @ [0] @ replicate 7 1)"
proof -
  have "cstr [97, 98, 99, 0] = [97, 98, 99 :: byte]"
    by (simp add: cstr_def)
  then show ?thesis
    using sha256_pg_correct [of raw_ctx "[97, 98, 99, 0]" "replicate 40 1"]
    by (simp add: ctx_shape_def raw_ctx_def strlen_def)
qed

theorem sha256_streaming_witness:
  "ctx_shape raw_ctx \<and>
   (\<exists>ctx ctx'. update_all (init raw_ctx) [[97], [], [98, 99]] = Some ctx \<and>
      final ctx = Some (sha256_spec [97, 98, 99], ctx'))"
  using sha256_streaming [of raw_ctx "[[97], [], [98, 99]]"]
  by (simp add: ctx_shape_def raw_ctx_def)

end
