(* ===== verification/MBT_Hash.thy ===== *)
theory MBT_Hash
  imports MBT_Shape MBT_Codec Sha256
begin

text \<open>
  The Merkle hashes of the tree: \<^verbatim>\<open>hashcompute\<close> of \<^verbatim>\<open>src/backend/mbt/vibuilder.c\<close>,
  the hash it is meant to compute, and how that hash binds the data of the tree.
  \<open>raw\<close> is the unspecified contents of the context that \<^verbatim>\<open>sha256_pg\<close> allocates.
\<close>

subsection \<open>The code\<close>

text \<open>The leaf branch: \<open>leafstring\<close> has 4096 bytes, \<open>tmp\<close> 33.\<close>

definition hash_leaf :: "SHA256 \<Rightarrow> bplus_leaf \<Rightarrow> bplus_leaf option" where
  "hash_leaf raw ln =
     do { (leafstring, hs) \<leftarrow> for_up 0 (count ln)
            (\<lambda>i (str, hs). do {
               d \<leftarrow> aget (ldata ln) i;
               tmp \<leftarrow> strcpy (replicate 33 0) d;
               h \<leftarrow> aget hs i;
               h \<leftarrow> sha256_pg raw tmp h;
               hs \<leftarrow> aput hs i h;
               str \<leftarrow> strcat str h;
               Some (str, hs) })
            (replicate 4096 0, lchildhash ln);
          h \<leftarrow> sha256_pg raw leafstring (lnode_hash ln);
          Some (ln\<lparr>lchildhash := hs, lnode_hash := h\<rparr>) }"

text \<open>
  The recursion carries fuel for the depth; the result is the hash string, \<open>None\<close> the
  null pointer returned for a null node.
\<close>

primrec hashcompute :: "nat \<Rightarrow> SHA256 \<Rightarrow> ptr option \<Rightarrow> heap \<Rightarrow> (byte list option \<times> heap) option" where
  "hashcompute 0 raw node s = None"
| "hashcompute (Suc fuel) raw node s =
     (case node of
        None \<Rightarrow> Some (None, s)
      | Some p \<Rightarrow>
          do { nd \<leftarrow> get_node s p;
               if is_leaf nd then
                 do { ln \<leftarrow> get_leaf s p;
                      ln \<leftarrow> hash_leaf raw ln;
                      Some (Some (lnode_hash ln), put_leaf p ln s) }
               else
                 do { nln \<leftarrow> get_non_leaf s p;
                      (nonleafstring, sub_hash, s) \<leftarrow> for_up 0 (count nln)
                        (\<lambda>i (str, sub_hash, s). do {
                           nln \<leftarrow> get_non_leaf s p;
                           c \<leftarrow> aget (sub_ptr nln) i;
                           (r, s) \<leftarrow> hashcompute fuel raw c s;
                           h \<leftarrow> r;
                           sub_hash \<leftarrow> strcpy sub_hash h;
                           nln \<leftarrow> get_non_leaf s p;
                           hs \<leftarrow> put_str (nchildhash nln) i sub_hash;
                           str \<leftarrow> strcat str sub_hash;
                           Some (str, sub_hash, put_non_leaf p (nln\<lparr>nchildhash := hs\<rparr>) s) })
                        (replicate 4096 0, replicate 1024 0, s);
                      nln \<leftarrow> get_non_leaf s p;
                      h \<leftarrow> sha256_pg raw nonleafstring (nnode_hash nln);
                      Some (Some h, put_non_leaf p (nln\<lparr>nnode_hash := h\<rparr>) s) } })"

subsection \<open>String buffers that are filled from the left\<close>

definition zbuf :: "nat \<Rightarrow> byte list \<Rightarrow> byte list" where
  "zbuf n str = str @ replicate (n - length str) 0"

lemma zbuf_Nil [simp]: "zbuf n [] = replicate n 0"
  by (simp add: zbuf_def)

lemma cstr_append: "0 \<notin> set str \<Longrightarrow> cstr (str @ b) = str @ cstr b"
  unfolding cstr_def by (subst takeWhile_append2) auto

lemma cstr_zeros [simp]: "cstr (replicate n 0) = []"
  by (cases n) (simp_all add: cstr_def)

lemma cstr_zbuf [simp]: "0 \<notin> set str \<Longrightarrow> cstr (zbuf n str) = str"
  by (simp add: zbuf_def cstr_append)

lemma cstr_terminated [simp]: "0 \<notin> set str \<Longrightarrow> cstr (str @ 0 # b) = str"
  by (simp add: cstr_append) (simp add: cstr_def)

lemma zero_notin_cstr: "0 \<notin> set (cstr b)"
  by (auto simp: cstr_def dest: set_takeWhileD)

lemma strcat_zbuf:
  assumes "0 \<notin> set str" "length str + strlen h < n"
  shows "strcat (zbuf n str) h = Some (zbuf n (str @ cstr h))"
proof -
  have "strlen (zbuf n str) = length str" using assms(1) by (simp add: strlen_def)
  moreover have "drop (strlen h + 1) (replicate (n - length str) (0 :: byte)) = replicate (n - length str - strlen h - 1) 0"
    by simp
  moreover have "0 # replicate (n - length str - strlen h - 1) 0 = replicate (n - length str - strlen h) (0 :: byte)"
    using assms(2) by (cases "n - length str - strlen h") simp_all
  ultimately show ?thesis
    using assms by (simp add: strcat_def blit_def zbuf_def strlen_def)
qed

lemma zero_notin_node_hash [simp]: "0 \<notin> set (node_hash x)"
  using node_hash_nonzero by blast

lemma cstr_node_hash [simp]: "cstr (node_hash x @ 0 # b) = node_hash x"
  by simp

text \<open>What \<^verbatim>\<open>sha256_pg\<close> writes into a block of 33 bytes.\<close>

lemma sha256_pg_33:
  assumes "ctx_shape raw" "strlen b < 2 ^ 29" "length dst = 33"
  shows "sha256_pg raw b dst = Some (node_hash (cstr b) @ [0])"
  using assms by (simp add: sha256_pg_def sha256_hex_node_hash strcpy_def blit_def cstr_append)


subsection \<open>The hash of a tree\<close>

text \<open>The data of a tree without keys and addresses, and its Merkle hash for a hash function \<open>H\<close>.\<close>

datatype mtree = MLeaf "byte list list" | MNode "mtree list"

fun merkle :: "(byte list \<Rightarrow> byte list) \<Rightarrow> mtree \<Rightarrow> byte list" where
  "merkle H (MLeaf ds) = H (concat (map H ds))"
| "merkle H (MNode ts) = H (concat (map (merkle H) ts))"

fun leaf_data :: "node option \<Rightarrow> nat \<Rightarrow> byte list list" where
  "leaf_data (Some (Leaf l)) n = map cstr (take n (ldata l))"
| "leaf_data _ n = []"

fun mtree_of :: "(ptr \<Rightarrow> node option) \<Rightarrow> atree \<Rightarrow> mtree" where
  "mtree_of N (ALeaf p ks) = MLeaf (leaf_data (N p) (length ks))"
| "mtree_of N (ANode p ts ks) = MNode (map (mtree_of N) ts)"

text \<open>The nodes of a tree with the hashes filled in.\<close>

fun put_hashes :: "byte list list \<Rightarrow> node \<Rightarrow> node" where
  "put_hashes hs (Leaf l) = Leaf (l\<lparr>lchildhash := map (\<lambda>h. h @ [0]) hs @ drop (length hs) (lchildhash l),
     lnode_hash := node_hash (concat hs) @ [0]\<rparr>)"
| "put_hashes hs (NonLeaf n) = NonLeaf (n\<lparr>nchildhash := map (\<lambda>h. h @ [0]) hs @ drop (length hs) (nchildhash n),
     nnode_hash := node_hash (concat hs) @ [0]\<rparr>)"

fun rehash :: "(ptr \<Rightarrow> node option) \<Rightarrow> atree \<Rightarrow> ptr \<Rightarrow> node option"
and rehashes :: "(ptr \<Rightarrow> node option) \<Rightarrow> atree list \<Rightarrow> ptr \<Rightarrow> node option" where
  "rehash N (ALeaf p ks) =
     N(p := map_option (put_hashes (map node_hash (leaf_data (N p) (length ks)))) (N p))"
| "rehash N (ANode p ts ks) =
     (rehashes N ts)(p := map_option (put_hashes (map (\<lambda>t. merkle node_hash (mtree_of N t)) ts)) (N p))"
| "rehashes N [] = N"
| "rehashes N (t # ts) = rehashes (rehash N t) ts"

lemma mtree_of_cong: "(\<And>q. q \<in> set (ptrs t) \<Longrightarrow> N' q = N q) \<Longrightarrow> mtree_of N' t = mtree_of N t"
  by (induction t) auto

lemma rehash_other:
  "q \<notin> set (ptrs t) \<Longrightarrow> rehash N t q = N q"
  "q \<notin> set (concat (map ptrs ts)) \<Longrightarrow> rehashes N ts q = N q"
  by (induction N t and N ts rule: rehash_rehashes.induct) auto

lemma rehash_upd_other:
  "q \<notin> set (ptrs t) \<Longrightarrow> rehash (N(q := x)) t = (rehash N t)(q := x)"
  "q \<notin> set (concat (map ptrs ts)) \<Longrightarrow> rehashes (N(q := x)) ts = (rehashes N ts)(q := x)"
proof (induction N t and N ts rule: rehash_rehashes.induct)
  case (1 N p ks)
  then show ?case by (auto simp: fun_upd_twist)
next
  case (2 N p ts ks)
  have "mtree_of (N(q := x)) t = mtree_of N t" if "t \<in> set ts" for t
    using 2(2) that by (intro mtree_of_cong) auto
  then have m: "map (\<lambda>t. merkle node_hash (mtree_of (N(q := x)) t)) ts = map (\<lambda>t. merkle node_hash (mtree_of N t)) ts"
    by simp
  have ne: "q \<noteq> p" and notin: "q \<notin> set (concat (map ptrs ts))" using 2(2) by auto
  have "(N(q := x)) p = N p" using ne by simp
  then show ?case
    unfolding rehash.simps 2(1) [OF notin] m using ne by (simp only: fun_upd_twist)
next
  case (4 N t ts)
  then show ?case by simp
qed simp

lemma rehashes_append: "rehashes N (ts @ us) = rehashes (rehashes N ts) us"
  by (induction ts arbitrary: N) simp_all

lemma strcpy_zeros: "strlen d < n \<Longrightarrow> strcpy (replicate n 0) d = Some (zbuf n (cstr d))"
  by (simp add: strcpy_def blit_def zbuf_def strlen_def)
    (cases "n - strlen d"; simp add: strlen_def)

lemma strlen_terminated: "0 \<in> set d \<Longrightarrow> strlen d < length d"
proof (induction d)
  case (Cons c d)
  then show ?case by (cases "c = 0") (auto simp: strlen_def cstr_def)
qed simp

lemma length_concat_hashes [simp]: "length (concat (map node_hash xs)) = 32 * length xs"
  by (induction xs) simp_all

lemma zero_notin_concat_hashes [simp]: "0 \<notin> set (concat (map node_hash xs))"
  by (induction xs) auto

definition leaf_hash_step :: "SHA256 \<Rightarrow> bplus_leaf \<Rightarrow> int \<Rightarrow> byte list \<times> byte list list \<Rightarrow> (byte list \<times> byte list list) option" where
  "leaf_hash_step raw ln = (\<lambda>i (str, hs). do {
               d \<leftarrow> aget (ldata ln) i;
               tmp \<leftarrow> strcpy (replicate 33 0) d;
               h \<leftarrow> aget hs i;
               h \<leftarrow> sha256_pg raw tmp h;
               hs \<leftarrow> aput hs i h;
               str \<leftarrow> strcat str h;
               Some (str, hs) })"

lemma leaf_hash_step_eq:
  assumes "ctx_shape raw" and "a < length (ldata ln)" "0 \<in> set (ldata ln ! a)" "length (ldata ln ! a) = 33"
    and "length ds = a" "a < 50" "length hs0 = 50" "length (hs0 ! a) = 33"
  shows "leaf_hash_step raw ln (int a)
      (zbuf 4096 (concat (map node_hash ds)), map (\<lambda>d. node_hash d @ [0]) ds @ drop a hs0) =
    Some (zbuf 4096 (concat (map node_hash (ds @ [cstr (ldata ln ! a)]))),
          map (\<lambda>d. node_hash d @ [0]) (ds @ [cstr (ldata ln ! a)]) @ drop (Suc a) hs0)"
proof -
  let ?d = "ldata ln ! a"
  have sl: "strlen ?d < 33" using strlen_terminated [OF assms(3)] assms(4) by simp
  have dr: "drop a hs0 = hs0 ! a # drop (Suc a) hs0" using assms(6,7) by (simp add: Cons_nth_drop_Suc)
  have "sha256_pg raw (zbuf 33 (cstr ?d)) (hs0 ! a) = Some (node_hash (cstr ?d) @ [0])"
    using assms(1,8) sl by (subst sha256_pg_33) (simp_all add: strlen_def zero_notin_cstr)
  moreover have "strcat (zbuf 4096 (concat (map node_hash ds))) (node_hash (cstr ?d) @ [0]) =
      Some (zbuf 4096 (concat (map node_hash ds) @ node_hash (cstr ?d)))"
    using assms(5,6) by (subst strcat_zbuf) (simp_all add: strlen_def)
  ultimately show ?thesis
    using assms(2,5,6,7) sl
    by (simp add: leaf_hash_step_def aget_def aput_def strcpy_zeros nth_append dr list_update_append)
qed

lemma leaf_hash_loop:
  assumes "ctx_shape raw" "leaf_shape ln" "n \<le> 50" "\<And>i. i < n \<Longrightarrow> 0 \<in> set (ldata ln ! i)" "a \<le> n"
  shows "for_up (int a) (int n) (leaf_hash_step raw ln)
      (zbuf 4096 (concat (map node_hash (map cstr (take a (ldata ln))))),
       map (\<lambda>d. node_hash d @ [0]) (map cstr (take a (ldata ln))) @ drop a (lchildhash ln)) =
    Some (zbuf 4096 (concat (map node_hash (map cstr (take n (ldata ln))))),
       map (\<lambda>d. node_hash d @ [0]) (map cstr (take n (ldata ln))) @ drop n (lchildhash ln))"
  using assms(5)
proof (induction "n - a" arbitrary: a)
  case 0
  then show ?case by (simp add: for_up.simps)
next
  case (Suc k)
  then have less: "a < n" by simp
  have sh: "length (ldata ln) = 50" "length (lchildhash ln) = 50" "length (ldata ln ! a) = 33" "length (lchildhash ln ! a) = 33"
    using assms(2,3) less by (simp_all add: leaf_shape_def)
  note step = leaf_hash_step_eq [of raw a ln "map cstr (take a (ldata ln))" "lchildhash ln", OF assms(1)]
  have tk: "map cstr (take a (ldata ln)) @ [cstr (ldata ln ! a)] = map cstr (take (Suc a) (ldata ln))"
    using less assms(3) sh by (simp add: take_Suc_conv_app_nth)
  have "for_up (int (Suc a)) (int n) (leaf_hash_step raw ln)
      (zbuf 4096 (concat (map node_hash (map cstr (take (Suc a) (ldata ln))))),
       map (\<lambda>d. node_hash d @ [0]) (map cstr (take (Suc a) (ldata ln))) @ drop (Suc a) (lchildhash ln)) =
    Some (zbuf 4096 (concat (map node_hash (map cstr (take n (ldata ln))))),
       map (\<lambda>d. node_hash d @ [0]) (map cstr (take n (ldata ln))) @ drop n (lchildhash ln))"
    using Suc less by (intro Suc.hyps) simp_all
  then show ?case
    using step less assms(3,4) sh unfolding tk
    by (subst for_up.simps) (simp add: add.commute)
qed

lemma hash_leaf_eq:
  assumes "ctx_shape raw" "leaf_shape ln" "count ln = int n" "n \<le> 50" "\<And>i. i < n \<Longrightarrow> 0 \<in> set (ldata ln ! i)"
  shows "hash_leaf raw ln = Some (ln\<lparr>
     lchildhash := map (\<lambda>h. h @ [0]) (map node_hash (map cstr (take n (ldata ln)))) @ drop n (lchildhash ln),
     lnode_hash := node_hash (concat (map node_hash (map cstr (take n (ldata ln))))) @ [0]\<rparr>)"
proof -
  have sh: "length (ldata ln) = 50" "length (lnode_hash ln) = 33" using assms(2) by (simp_all add: leaf_shape_def)
  have "sha256_pg raw (zbuf 4096 (concat (map node_hash (map cstr (take n (ldata ln)))))) (lnode_hash ln) =
      Some (node_hash (concat (map node_hash (map cstr (take n (ldata ln))))) @ [0])"
    using assms(1,4) sh
    by (subst sha256_pg_33)
       (simp_all del: map_map add: strlen_def)
  then show ?thesis
    using leaf_hash_loop [OF assms(1,2,4,5), of 0]
    unfolding hash_leaf_def leaf_hash_step_def by (simp add: assms(3) comp_def)
qed

definition hash_child_step ::
    "nat \<Rightarrow> SHA256 \<Rightarrow> ptr \<Rightarrow> int \<Rightarrow> byte list \<times> byte list \<times> heap \<Rightarrow> (byte list \<times> byte list \<times> heap) option" where
  "hash_child_step fuel raw p = (\<lambda>i (str, sub_hash, s). do {
                           nln \<leftarrow> get_non_leaf s p;
                           c \<leftarrow> aget (sub_ptr nln) i;
                           (r, s) \<leftarrow> hashcompute fuel raw c s;
                           h \<leftarrow> r;
                           sub_hash \<leftarrow> strcpy sub_hash h;
                           nln \<leftarrow> get_non_leaf s p;
                           hs \<leftarrow> put_str (nchildhash nln) i sub_hash;
                           str \<leftarrow> strcat str sub_hash;
                           Some (str, sub_hash, put_non_leaf p (nln\<lparr>nchildhash := hs\<rparr>) s) })"

text \<open>The heap after the hashes of the children \<open>us\<close> of \<open>n\<close> at \<open>p\<close> have been entered.\<close>

definition hashed_upto :: "heap \<Rightarrow> ptr \<Rightarrow> bplus_non_leaf \<Rightarrow> atree list \<Rightarrow> heap" where
  "hashed_upto s p n us = s\<lparr>nodes := (rehashes (nodes s) us)(p \<mapsto> NonLeaf (n\<lparr>nchildhash :=
     map (\<lambda>t. merkle node_hash (mtree_of (nodes s) t) @ [0]) us @ drop (length us) (nchildhash n)\<rparr>))\<rparr>"

lemma strcpy_block: "length b = n \<Longrightarrow> strlen h < n \<Longrightarrow> \<exists>b'. strcpy b h = Some (cstr h @ 0 # b') \<and> length (cstr h @ 0 # b') = n"
  by (auto simp: strcpy_def blit_def strlen_def)

lemma length_merkle [simp]: "length (merkle node_hash t) = 32"
  by (cases t) simp_all

lemma zero_notin_merkle [simp]: "0 \<notin> set (merkle node_hash t)"
  by (cases t) simp_all

lemma length_concat_merkle [simp]: "length (concat (map (\<lambda>t. merkle node_hash (f t)) ts)) = 32 * length ts"
  by (induction ts) simp_all

lemma zero_notin_concat_merkle [simp]: "0 \<notin> set (concat (map (\<lambda>t. merkle node_hash (f t)) ts))"
  by (induction ts) auto

lemma hash_child_step_eq:
  assumes p: "p \<notin> set (concat (map ptrs (us @ [v])))" and len: "length us < 50" "length b = 1024"
    and n: "length (sub_ptr n) = 50" "sub_ptr n ! length us = Some (root_ptr v)"
      "length (nchildhash n) = 50" "length (nchildhash n ! length us) = 33"
    and disj: "set (ptrs v) \<inter> set (concat (map ptrs us)) = {}"
    and IH: "hashcompute fuel raw (Some (root_ptr v)) (hashed_upto s p n us) =
      Some (Some (merkle node_hash (mtree_of (nodes (hashed_upto s p n us)) v) @ [0]),
        (hashed_upto s p n us)\<lparr>nodes := rehash (nodes (hashed_upto s p n us)) v\<rparr>)"
  shows "\<exists>b'. length b' = 1024 \<and>
    hash_child_step fuel raw p (int (length us))
      (zbuf 4096 (concat (map (\<lambda>t. merkle node_hash (mtree_of (nodes s) t)) us)), b, hashed_upto s p n us) =
    Some (zbuf 4096 (concat (map (\<lambda>t. merkle node_hash (mtree_of (nodes s) t)) (us @ [v]))), b', hashed_upto s p n (us @ [v]))"
proof -
  let ?N = "nodes s" and ?s = "hashed_upto s p n us" and ?i = "length us"
  let ?M = "\<lambda>t. merkle node_hash (mtree_of ?N t)"
  let ?hs = "map (\<lambda>t. ?M t @ [0]) us @ drop ?i (nchildhash n)"
  have pv: "p \<notin> set (ptrs v)" and pu: "p \<notin> set (concat (map ptrs us))" using p by auto
  have same: "nodes ?s q = ?N q" if "q \<in> set (ptrs v)" for q
    using that pv disj rehash_other(2) [of q us ?N] by (auto simp: hashed_upto_def)
  have m: "mtree_of (nodes ?s) v = mtree_of ?N v" using same by (rule mtree_of_cong)
  have nodes': "rehash (nodes ?s) v = (rehashes ?N (us @ [v]))(p \<mapsto> NonLeaf (n\<lparr>nchildhash := ?hs\<rparr>))"
    using pv by (simp add: hashed_upto_def rehash_upd_other rehashes_append)
  obtain b' where b': "strcpy b (?M v @ [0]) = Some (?M v @ 0 # b')" "length (?M v @ 0 # b') = 1024"
    using strcpy_block [OF len(2), of "?M v @ [0]"] by (auto simp: strlen_def)
  have dr: "drop ?i (nchildhash n) = nchildhash n ! ?i # drop (Suc ?i) (nchildhash n)"
    using len(1) n(3) by (simp add: Cons_nth_drop_Suc)
  have put: "put_str ?hs (int ?i) (?M v @ 0 # b') =
      Some (map (\<lambda>t. ?M t @ [0]) (us @ [v]) @ drop (Suc ?i) (nchildhash n))"
    using len(1) n(3,4)
    by (simp add: put_str_def aget_def aput_def nth_append strcpy_def blit_def dr list_update_append)
  have cat: "strcat (zbuf 4096 (concat (map ?M us))) (?M v @ 0 # b') = Some (zbuf 4096 (concat (map ?M us) @ ?M v))"
    using len(1) by (subst strcat_zbuf) (simp_all add: strlen_def)
  let ?n = "n\<lparr>nchildhash := ?hs\<rparr>" and ?s2 = "?s\<lparr>nodes := rehash (nodes ?s) v\<rparr>"
  have g: "get_non_leaf ?s p = Some ?n" "get_non_leaf ?s2 p = Some ?n"
    by (simp_all add: get_non_leaf_def nodes') (simp add: hashed_upto_def)
  have fin: "put_non_leaf p (?n\<lparr>nchildhash := map (\<lambda>t. ?M t @ [0]) (us @ [v]) @ drop (Suc ?i) (nchildhash n)\<rparr>) ?s2 =
      hashed_upto s p n (us @ [v])"
    by (simp add: put_non_leaf_def nodes') (simp add: hashed_upto_def)
  have sub: "aget (sub_ptr n) (int ?i) = Some (Some (root_ptr v))"
    using n(1,2) len(1) by (simp add: aget_def)
  have "hash_child_step fuel raw p (int ?i) (zbuf 4096 (concat (map ?M us)), b, ?s) =
      Some (zbuf 4096 (concat (map ?M us) @ ?M v), ?M v @ 0 # b', hashed_upto s p n (us @ [v]))"
    unfolding hash_child_step_def using b'(1) put cat fin
    by (simp add: g sub IH m)
  then show ?thesis
    using b'(2) by (intro exI [of _ "?M v @ 0 # b'"]) simp
qed


lemma hash_children_loop:
  assumes p: "p \<notin> set (concat (map ptrs (us @ vs)))" "distinct (concat (map ptrs (us @ vs)))"
    and n: "non_leaf_shape n" "length (us @ vs) \<le> 50" "take (length (us @ vs)) (sub_ptr n) = map Some (map root_ptr (us @ vs))"
    and r: "reprs (nodes s) (items s) p (int (length us)) vs"
    and IH: "\<And>t s par idx. t \<in> set vs \<Longrightarrow> repr (nodes s) (items s) par idx t \<Longrightarrow>
      hashcompute fuel raw (Some (root_ptr t)) s =
        Some (Some (merkle node_hash (mtree_of (nodes s) t) @ [0]), s\<lparr>nodes := rehash (nodes s) t\<rparr>)"
    and b: "length b = 1024"
  shows "\<exists>b'. for_up (int (length us)) (int (length us + length vs)) (hash_child_step fuel raw p)
      (zbuf 4096 (concat (map (\<lambda>t. merkle node_hash (mtree_of (nodes s) t)) us)), b, hashed_upto s p n us) =
    Some (zbuf 4096 (concat (map (\<lambda>t. merkle node_hash (mtree_of (nodes s) t)) (us @ vs))), b', hashed_upto s p n (us @ vs))"
  using p n(2,3) r IH b
proof (induction vs arbitrary: us b)
  case Nil
  then show ?case by (simp add: for_up.simps)
next
  case (Cons v vs)
  let ?s = "hashed_upto s p n us"
  have len: "length us < 50" using Cons.prems(3) by simp
  have sub: "sub_ptr n ! length us = Some (root_ptr v)"
    using arg_cong [OF Cons.prems(4), of "\<lambda>l. l ! length us"] by (simp add: nth_append)
  have sh: "length (sub_ptr n) = 50" "length (nchildhash n) = 50" "length (nchildhash n ! length us) = 33"
    using n(1) len by (simp_all add: non_leaf_shape_def)
  have disj: "set (ptrs v) \<inter> set (concat (map ptrs us)) = {}" "p \<notin> set (concat (map ptrs (us @ [v])))"
    using Cons.prems(1,2) by auto
  have "repr (nodes ?s) (items ?s) (Some p) (int (length us) - 1) v = repr (nodes s) (items s) (Some p) (int (length us) - 1) v"
  proof -
    have same: "nodes ?s q = nodes s q" if "q \<in> set (ptrs v)" for q
      using that disj rehash_other(2) [of q us "nodes s"] by (auto simp: hashed_upto_def)
    have it: "items ?s = items s" by (simp add: hashed_upto_def)
    show ?thesis unfolding it by (rule repr_cong(1)) (rule same)
  qed
  then have "hashcompute fuel raw (Some (root_ptr v)) ?s =
        Some (Some (merkle node_hash (mtree_of (nodes ?s) v) @ [0]), ?s\<lparr>nodes := rehash (nodes ?s) v\<rparr>)"
    using Cons.prems(5) by (intro Cons.prems(6) [of v]) simp_all
  from hash_child_step_eq [OF disj(2) len Cons.prems(7) sh(1) sub sh(2,3) disj(1) this]
  obtain b' where b': "length b' = 1024" "hash_child_step fuel raw p (int (length us))
      (zbuf 4096 (concat (map (\<lambda>t. merkle node_hash (mtree_of (nodes s) t)) us)), b, ?s) =
    Some (zbuf 4096 (concat (map (\<lambda>t. merkle node_hash (mtree_of (nodes s) t)) (us @ [v]))), b', hashed_upto s p n (us @ [v]))"
    by blast
  have "\<exists>b''. for_up (int (length (us @ [v]))) (int (length (us @ [v]) + length vs)) (hash_child_step fuel raw p)
      (zbuf 4096 (concat (map (\<lambda>t. merkle node_hash (mtree_of (nodes s) t)) (us @ [v]))), b', hashed_upto s p n (us @ [v])) =
    Some (zbuf 4096 (concat (map (\<lambda>t. merkle node_hash (mtree_of (nodes s) t)) ((us @ [v]) @ vs))), b'', hashed_upto s p n ((us @ [v]) @ vs))"
    using Cons.prems b'(1) by (intro Cons.IH) (simp_all add: add.commute)
  then show ?case
    by (subst for_up.simps, subst b'(2)) (simp add: add.commute)
qed

lemma hashed_upto_Nil: "nodes s p = Some (NonLeaf n) \<Longrightarrow> hashed_upto s p n [] = s"
  by (simp add: hashed_upto_def fun_upd_idem)

lemma hashcompute_eq:
  assumes "ctx_shape raw"
  shows "repr (nodes s) (items s) par idx t \<Longrightarrow> distinct (ptrs t) \<Longrightarrow> balanced h t \<Longrightarrow> h < f \<Longrightarrow>
    hashcompute f raw (Some (root_ptr t)) s =
      Some (Some (merkle node_hash (mtree_of (nodes s) t) @ [0]), s\<lparr>nodes := rehash (nodes s) t\<rparr>)"
proof (induction t arbitrary: s par idx h f)
  case (ALeaf p ks)
  then obtain g where f: "f = Suc g" by (cases f) auto
  obtain l where l: "nodes s p = Some (Leaf l)" "leaf_wf (items s) l" "node_type l = BPLUS_TREE_LEAF"
    "count l = int (length ks)" "length ks \<le> 50"
    using ALeaf.prems(1) by (auto simp: leaf_at_def)
  have "hash_leaf raw l = Some (l\<lparr>
     lchildhash := map (\<lambda>h. h @ [0]) (map node_hash (map cstr (take (length ks) (ldata l)))) @ drop (length ks) (lchildhash l),
     lnode_hash := node_hash (concat (map node_hash (map cstr (take (length ks) (ldata l))))) @ [0]\<rparr>)"
    using l by (intro hash_leaf_eq [OF assms]) (simp_all add: leaf_wf_def)
  moreover have "length (take (length ks) (ldata l)) = length ks"
    using l by (simp add: leaf_wf_def leaf_shape_def)
  ultimately show ?case
    using l by (simp add: f get_node_def is_leaf_def get_leaf_def put_leaf_def bplus_node.defs fun_upd_def)
next
  case (ANode p ts ks)
  then obtain g where f: "f = Suc g" by (cases f) auto
  obtain n where n: "nodes s p = Some (NonLeaf n)" "non_leaf_shape n" "node_type n = BPLUS_TREE_NON_LEAF"
    "count n = int (length ts)" "length ts \<le> 50" "take (length ts) (sub_ptr n) = map Some (map root_ptr ts)"
    using ANode.prems(1) by (auto simp: non_leaf_at_def)
  have dist: "p \<notin> set (concat (map ptrs ts))" "distinct (concat (map ptrs ts))"
    using ANode.prems(2) by auto
  have IH: "hashcompute g raw (Some (root_ptr t)) s' =
        Some (Some (merkle node_hash (mtree_of (nodes s') t) @ [0]), s'\<lparr>nodes := rehash (nodes s') t\<rparr>)"
    if "t \<in> set ts" "repr (nodes s') (items s') par' idx' t" for t s' par' idx'
  proof (rule ANode.IH [OF that(1,2), of "h - 1"])
    show "distinct (ptrs t)" using dist(2) that(1) by (auto simp: distinct_concat_iff)
    show "balanced (h - 1) t" "h - 1 < g" using ANode.prems(3,4) that(1) f by auto
  qed
  have "reprs (nodes s) (items s) p (int (length ([] :: atree list))) ts" using ANode.prems(1) by simp
  note loop = hash_children_loop [where us = "[]" and vs = ts and p = p and n = n and s = s and fuel = g and raw = raw
    and b = "replicate 1024 0", OF _ _ n(2) _ _ this]
  obtain b' where b': "for_up 0 (int (length ts)) (hash_child_step g raw p) (replicate 4096 0, replicate 1024 0, s) =
    Some (zbuf 4096 (concat (map (\<lambda>t. merkle node_hash (mtree_of (nodes s) t)) ts)), b', hashed_upto s p n ts)"
    using loop IH dist n by (auto simp: hashed_upto_Nil)
  have sha: "sha256_pg raw (zbuf 4096 (concat (map (\<lambda>t. merkle node_hash (mtree_of (nodes s) t)) ts))) (nnode_hash n) =
      Some (node_hash (concat (map (\<lambda>t. merkle node_hash (mtree_of (nodes s) t)) ts)) @ [0])"
    using n by (subst sha256_pg_33 [OF assms]) (simp_all add: strlen_def non_leaf_shape_def)
  let ?n = "n\<lparr>nchildhash := map (\<lambda>t. merkle node_hash (mtree_of (nodes s) t) @ [0]) ts @ drop (length ts) (nchildhash n)\<rparr>"
  have g: "get_non_leaf s p = Some n" "get_non_leaf (hashed_upto s p n ts) p = Some ?n"
    using n(1) by (simp_all add: get_non_leaf_def hashed_upto_def)
  have e: "rehash (nodes s) (ANode p ts ks) = (rehashes (nodes s) ts)(p \<mapsto> NonLeaf (?n\<lparr>nnode_hash :=
      node_hash (concat (map (\<lambda>t. merkle node_hash (mtree_of (nodes s) t)) ts)) @ [0]\<rparr>))"
    using n(1) by (auto simp: fun_eq_iff comp_def)
  have fin: "put_non_leaf p (?n\<lparr>nnode_hash :=
      node_hash (concat (map (\<lambda>t. merkle node_hash (mtree_of (nodes s) t)) ts)) @ [0]\<rparr>) (hashed_upto s p n ts) =
      s\<lparr>nodes := rehash (nodes s) (ANode p ts ks)\<rparr>"
    unfolding e by (simp add: put_non_leaf_def hashed_upto_def)
  have hd: "get_node s p \<noteq> None" "\<And>nd. get_node s p = Some nd \<Longrightarrow> \<not> is_leaf nd"
    using n(1,3) by (auto simp: get_node_def is_leaf_def BPLUS_TREE_LEAF_def BPLUS_TREE_NON_LEAF_def bplus_node.defs)
  then obtain nd where nd: "get_node s p = Some nd" "\<not> is_leaf nd" by auto
  show ?case
    unfolding f root_ptr.simps hashcompute.simps option.case
    using b' sha fin n(4) unfolding hash_child_step_def
    by (simp add: nd g comp_def del: rehash.simps)
qed


subsection \<open>Trees with hashes\<close>

text \<open>The node at \<open>p\<close> stores the hashes of its children and its own.\<close>

definition stored_hashes :: "node option \<Rightarrow> byte list list \<Rightarrow> bool" where
  "stored_hashes nd hs \<longleftrightarrow>
     (case nd of
        Some (Leaf l) \<Rightarrow> take (length hs) (lchildhash l) = map (\<lambda>h. h @ [0]) hs \<and> lnode_hash l = node_hash (concat hs) @ [0]
      | Some (NonLeaf n) \<Rightarrow> take (length hs) (nchildhash n) = map (\<lambda>h. h @ [0]) hs \<and> nnode_hash n = node_hash (concat hs) @ [0]
      | None \<Rightarrow> False)"

fun hashes_ok :: "(ptr \<Rightarrow> node option) \<Rightarrow> atree \<Rightarrow> bool" where
  "hashes_ok N (ALeaf p ks) \<longleftrightarrow> stored_hashes (N p) (map node_hash (leaf_data (N p) (length ks)))"
| "hashes_ok N (ANode p ts ks) \<longleftrightarrow>
     stored_hashes (N p) (map (\<lambda>t. merkle node_hash (mtree_of N t)) ts) \<and> (\<forall>t \<in> set ts. hashes_ok N t)"

lemma hashes_ok_cong: "(\<And>q. q \<in> set (ptrs t) \<Longrightarrow> N' q = N q) \<Longrightarrow> hashes_ok N' t = hashes_ok N t"
proof (induction t)
  case (ANode p ts ks)
  have "mtree_of N' t = mtree_of N t" if "t \<in> set ts" for t
    using ANode.prems that by (intro mtree_of_cong) auto
  then have m: "map (\<lambda>t. merkle node_hash (mtree_of N' t)) ts = map (\<lambda>t. merkle node_hash (mtree_of N t)) ts" by simp
  have "hashes_ok N' t = hashes_ok N t" if "t \<in> set ts" for t
    using ANode.IH [OF that] ANode.prems that by auto
  then show ?case using ANode.prems unfolding hashes_ok.simps m by simp
qed simp

text \<open>Two nodes that differ in their hashes only.\<close>

fun unhash :: "node \<Rightarrow> node" where
  "unhash (Leaf l) = Leaf (l\<lparr>lchildhash := [], lnode_hash := []\<rparr>)"
| "unhash (NonLeaf n) = NonLeaf (n\<lparr>nchildhash := [], nnode_hash := []\<rparr>)"

fun node_shape :: "node option \<Rightarrow> bool" where
  "node_shape (Some (Leaf l)) = leaf_shape l"
| "node_shape (Some (NonLeaf n)) = non_leaf_shape n"
| "node_shape None = True"

definition hash_rel :: "node option \<Rightarrow> node option \<Rightarrow> bool" where
  "hash_rel nd nd' \<longleftrightarrow> map_option unhash nd' = map_option unhash nd \<and> (node_shape nd \<longrightarrow> node_shape nd')"

lemma hash_rel_refl: "hash_rel nd nd"
  by (simp add: hash_rel_def)

lemma hash_rel_trans: "hash_rel a b \<Longrightarrow> hash_rel b c \<Longrightarrow> hash_rel a c"
  by (simp add: hash_rel_def)

lemma unhash_leaf:
  assumes "unhash (Leaf l') = unhash (Leaf l)"
  shows "node_type l' = node_type l" "parent l' = parent l" "parent_key_idx l' = parent_key_idx l"
    "count l' = count l" "tids l' = tids l" "lkey l' = lkey l" "ldata l' = ldata l" "link l' = link l"
    "lnode_id l' = lnode_id l" "lparent_id l' = lparent_id l"
  using arg_cong [OF assms, of "\<lambda>x. case x of Leaf l \<Rightarrow> l | NonLeaf n \<Rightarrow> l"]
  by (cases l; cases l'; simp)+

lemma unhash_non_leaf:
  assumes "unhash (NonLeaf n') = unhash (NonLeaf n)"
  shows "node_type n' = node_type n" "parent n' = parent n" "parent_key_idx n' = parent_key_idx n"
    "count n' = count n" "tids n' = tids n" "nkey n' = nkey n" "sub_ptr n' = sub_ptr n" "link n' = link n"
    "chindrenoffset n' = chindrenoffset n" "nnode_id n' = nnode_id n" "nparent_id n' = nparent_id n"
  using arg_cong [OF assms, of "\<lambda>x. case x of NonLeaf n \<Rightarrow> n | Leaf l \<Rightarrow> n"]
  by (cases n; cases n'; simp)+

lemma hash_rel_leaf:
  assumes "hash_rel (Some (Leaf l)) nd"
  obtains l' where "nd = Some (Leaf l')" "unhash (Leaf l') = unhash (Leaf l)" "leaf_shape l \<Longrightarrow> leaf_shape l'"
proof -
  from assms obtain x where x: "nd = Some x" "unhash x = unhash (Leaf l)" by (auto simp: hash_rel_def)
  show ?thesis
  proof (cases x)
    case (Leaf l')
    then show ?thesis using that x assms by (simp add: hash_rel_def)
  qed (use x in simp)
qed

lemma hash_rel_non_leaf:
  assumes "hash_rel (Some (NonLeaf n)) nd"
  obtains n' where "nd = Some (NonLeaf n')" "unhash (NonLeaf n') = unhash (NonLeaf n)" "non_leaf_shape n \<Longrightarrow> non_leaf_shape n'"
proof -
  from assms obtain x where x: "nd = Some x" "unhash x = unhash (NonLeaf n)" by (auto simp: hash_rel_def)
  show ?thesis
  proof (cases x)
    case (NonLeaf l')
    then show ?thesis using that x assms by (simp add: hash_rel_def)
  qed (use x in simp)
qed

lemma leaf_at_hash_rel:
  assumes "leaf_at nd it par idx ks" "hash_rel nd nd'"
  shows "leaf_at nd' it par idx ks"
proof -
  obtain l where l: "nd = Some (Leaf l)" "leaf_wf it l" "node_type l = BPLUS_TREE_LEAF" "parent l = par"
    "parent_key_idx l = idx" "count l = int (length ks)" "length ks \<le> 50" "take (length ks) (lkey l) = ks"
    using assms(1) by (auto simp: leaf_at_def)
  obtain l' where l': "nd' = Some (Leaf l')" "unhash (Leaf l') = unhash (Leaf l)" "leaf_shape l \<Longrightarrow> leaf_shape l'"
    using hash_rel_leaf assms(2) l(1) by blast
  show ?thesis
    using l l'(1,3) unhash_leaf [OF l'(2)] by (simp add: leaf_at_def leaf_wf_def)
qed

lemma non_leaf_at_hash_rel:
  assumes "non_leaf_at nd par idx cs ks" "hash_rel nd nd'"
  shows "non_leaf_at nd' par idx cs ks"
proof -
  obtain n where n: "nd = Some (NonLeaf n)" "non_leaf_shape n" "node_type n = BPLUS_TREE_NON_LEAF" "parent n = par"
    "parent_key_idx n = idx" "count n = int (length cs)" "length cs = Suc (length ks)" "length cs \<le> 50"
    "take (length ks) (nkey n) = ks" "take (length cs) (sub_ptr n) = map Some cs"
    using assms(1) by (auto simp: non_leaf_at_def)
  obtain n' where n': "nd' = Some (NonLeaf n')" "unhash (NonLeaf n') = unhash (NonLeaf n)"
    "non_leaf_shape n \<Longrightarrow> non_leaf_shape n'"
    using hash_rel_non_leaf assms(2) n(1) by blast
  show ?thesis
    using n n'(1,3) unhash_non_leaf [OF n'(2)] by (simp add: non_leaf_at_def)
qed

lemma repr_hash_rel:
  "repr N it par idx t \<Longrightarrow> (\<And>q. hash_rel (N q) (N' q)) \<Longrightarrow> repr N' it par idx t"
  "reprs N it p i ts \<Longrightarrow> (\<And>q. hash_rel (N q) (N' q)) \<Longrightarrow> reprs N' it p i ts"
  by (induction N it par idx t and N it p i ts rule: repr_reprs.induct)
    (auto intro: leaf_at_hash_rel non_leaf_at_hash_rel)

lemma leaf_data_hash_rel:
  assumes "hash_rel nd nd'"
  shows "leaf_data nd' n = leaf_data nd n"
proof (cases nd)
  case None
  then show ?thesis using assms by (simp add: hash_rel_def)
next
  case (Some x)
  show ?thesis
  proof (cases x)
    case (Leaf l)
    then obtain l' where l': "nd' = Some (Leaf l')" "unhash (Leaf l') = unhash (Leaf l)"
      using assms Some hash_rel_leaf by metis
    then show ?thesis using Some Leaf unhash_leaf(7) [OF l'(2)] by simp
  next
    case (NonLeaf m)
    then obtain m' where "nd' = Some (NonLeaf m')"
      using assms Some hash_rel_non_leaf by metis
    then show ?thesis using Some NonLeaf by simp
  qed
qed

lemma mtree_of_hash_rel: "(\<And>q. hash_rel (N q) (N' q)) \<Longrightarrow> mtree_of N' t = mtree_of N t"
  by (induction t) (simp_all add: leaf_data_hash_rel)

lemma put_hashes_rel:
  assumes "node_shape (Some nd) \<Longrightarrow> length hs \<le> 50" "\<forall>h \<in> set hs. length h = 32"
  shows "hash_rel (Some nd) (Some (put_hashes hs nd))"
  using assms
  by (cases nd) (auto simp: hash_rel_def leaf_shape_def non_leaf_shape_def dest: in_set_dropD)

lemma length_leaf_data: "leaf_at nd it par idx ks \<Longrightarrow> length (leaf_data nd (length ks)) = length ks"
  by (auto simp: leaf_at_def leaf_wf_def leaf_shape_def)

lemma rehash_rel:
  "repr N it par idx t \<Longrightarrow> distinct (ptrs t) \<Longrightarrow> hash_rel (N q) (rehash N t q)"
  "reprs N it p i ts \<Longrightarrow> distinct (concat (map ptrs ts)) \<Longrightarrow> hash_rel (N q) (rehashes N ts q)"
proof (induction N t and N ts arbitrary: par idx and p i rule: rehash_rehashes.induct)
  case (1 N p ks)
  then have len: "length (leaf_data (N p) (length ks)) = length ks" "length ks \<le> 50"
    using length_leaf_data [of "N p" it par idx ks] by (auto simp: leaf_at_def)
  obtain nd where "N p = Some nd" using 1 by (auto simp: leaf_at_def)
  then show ?case
    using len put_hashes_rel [of nd "map node_hash (leaf_data (N p) (length ks))"] by (auto simp: hash_rel_refl)
next
  case (2 N p ts ks)
  then have len: "length ts \<le> 50" by (auto simp: non_leaf_at_def)
  obtain nd where "N p = Some nd" using 2(2) by (auto simp: non_leaf_at_def)
  then show ?case
    using len put_hashes_rel [of nd "map (\<lambda>t. merkle node_hash (mtree_of N t)) ts"] 2 by auto
next
  case (4 N t ts)
  have "reprs (rehash N t) it p (i + 1) ts = reprs N it p (i + 1) ts"
    using 4(4) by (intro repr_cong(2) rehash_other(1)) auto
  then have "hash_rel (rehash N t q) (rehashes (rehash N t) ts q)"
    using 4(3,4) by (intro 4(2)) auto
  then show ?case using 4(1) [of "Some p" "i - 1"] 4(3,4) hash_rel_trans by auto
qed (simp add: hash_rel_refl)

lemma stored_put_hashes: "node_shape (Some nd) \<Longrightarrow> length hs \<le> 50 \<Longrightarrow> stored_hashes (Some (put_hashes hs nd)) hs"
  by (cases nd) (auto simp: stored_hashes_def)

lemma hashes_ok_rehash:
  "repr N it par idx t \<Longrightarrow> distinct (ptrs t) \<Longrightarrow> hashes_ok (rehash N t) t"
  "reprs N it p i ts \<Longrightarrow> distinct (concat (map ptrs ts)) \<Longrightarrow> \<forall>t \<in> set ts. hashes_ok (rehashes N ts) t"
proof (induction N t and N ts arbitrary: par idx and p i rule: rehash_rehashes.induct)
  case (1 N p ks)
  then have len: "length (leaf_data (N p) (length ks)) = length ks" "length ks \<le> 50"
    using length_leaf_data [of "N p" it par idx ks] by (auto simp: leaf_at_def)
  obtain l where l: "N p = Some (Leaf l)" "leaf_shape l" using 1 by (auto simp: leaf_at_def leaf_wf_def)
  have "leaf_data (rehash N (ALeaf p ks) p) (length ks) = leaf_data (N p) (length ks)"
    using rehash_rel(1) [OF 1, of p] by (rule leaf_data_hash_rel)
  then show ?case
    using l len stored_put_hashes [of "Leaf l" "map node_hash (leaf_data (N p) (length ks))"]
    by (simp del: put_hashes.simps leaf_data.simps)
next
  case (2 N p ts ks)
  let ?N = "rehash N (ANode p ts ks)"
  have len: "length ts \<le> 50" using 2(2) by (auto simp: non_leaf_at_def)
  obtain n where n: "N p = Some (NonLeaf n)" "non_leaf_shape n" using 2(2) by (auto simp: non_leaf_at_def)
  have m: "mtree_of ?N t = mtree_of N t" for t
    using rehash_rel(1) [OF 2(2,3)] by (rule mtree_of_hash_rel)
  have "\<forall>t \<in> set ts. hashes_ok (rehashes N ts) t" using 2 by auto
  moreover have "hashes_ok ?N t = hashes_ok (rehashes N ts) t" if "t \<in> set ts" for t
    using 2(3) that by (intro hashes_ok_cong) auto
  ultimately have "\<forall>t \<in> set ts. hashes_ok ?N t" by blast
  moreover have p: "?N p = Some (put_hashes (map (\<lambda>t. merkle node_hash (mtree_of N t)) ts) (NonLeaf n))"
    using n by simp
  moreover have "stored_hashes (?N p) (map (\<lambda>t. merkle node_hash (mtree_of N t)) ts)"
    unfolding p using n len by (intro stored_put_hashes) simp_all
  ultimately show ?case
    unfolding hashes_ok.simps m by blast
next
  case (4 N t ts)
  let ?N = "rehashes (rehash N t) ts"
  have "reprs (rehash N t) it p (i + 1) ts = reprs N it p (i + 1) ts"
    using 4(4) by (intro repr_cong(2) rehash_other(1)) auto
  then have "\<forall>t \<in> set ts. hashes_ok ?N t" using 4(3,4) by (intro 4(2)) auto
  moreover have "hashes_ok ?N t = hashes_ok (rehash N t) t"
    using 4(4) by (intro hashes_ok_cong rehash_other(2)) auto
  ultimately show ?case using 4(1) [of "Some p" "i - 1"] 4(3,4) by simp
qed simp

lemma get_link_hash_rel:
  assumes "\<And>q. hash_rel (nodes s q) (N q)"
  shows "get_link (s\<lparr>nodes := N\<rparr>) = get_link s"
proof (rule ext)
  fix r
  show "get_link (s\<lparr>nodes := N\<rparr>) r = get_link s r"
  proof (cases r)
    case (Link p)
    have "map_option link (map_option node_hd (N p)) = map_option link (map_option node_hd (nodes s p))"
    proof (cases "nodes s p")
      case (Some x)
      then show ?thesis
      proof (cases x)
        case (Leaf l)
        then obtain l' where "N p = Some (Leaf l')" and u: "unhash (Leaf l') = unhash (Leaf l)"
          using assms [of p] Some hash_rel_leaf by metis
        then show ?thesis using Some Leaf unhash_leaf(8) [OF u] by (simp add: bplus_node.defs)
      next
        case (NonLeaf n)
        then obtain n' where "N p = Some (NonLeaf n')" and u: "unhash (NonLeaf n') = unhash (NonLeaf n)"
          using assms [of p] Some hash_rel_non_leaf by metis
        then show ?thesis using Some NonLeaf unhash_non_leaf(8) [OF u] by (simp add: bplus_node.defs)
      qed
    qed (use assms [of p] in \<open>simp add: hash_rel_def\<close>)
    then show ?thesis using Link by (simp add: get_link_def get_node_def)
  qed (simp add: get_link_def)
qed

lemma tree_rep_hash_rel:
  assumes "tree_rep s t" "\<And>q. hash_rel (nodes s q) (N q)"
  shows "tree_rep (s\<lparr>nodes := N\<rparr>) t"
proof -
  have "N p = None" if "nodes s p = None" for p using assms(2) [of p] that by (simp add: hash_rel_def)
  moreover have "rings (s\<lparr>nodes := N\<rparr>) P = rings s P" for P
    by (rule rings_cong) (rule get_link_hash_rel [OF assms(2)])
  ultimately show ?thesis
    using assms(1) repr_hash_rel(1) [OF _ assms(2)] by (auto simp: tree_rep_def heap_ok_def)
qed


subsection \<open>Binding\<close>

text \<open>
  A hash function with results of a fixed length. Two trees of the same height with the same Merkle hash hold the
  same data in the same shape, or the strings hashed for them contain two different ones with the same hash.
  Equal height is needed: the hash of an inner node and of a leaf have the same form.
\<close>

fun mbalanced :: "nat \<Rightarrow> mtree \<Rightarrow> bool" where
  "mbalanced h (MLeaf ds) \<longleftrightarrow> h = 0"
| "mbalanced h (MNode ts) \<longleftrightarrow> 0 < h \<and> (\<forall>t \<in> set ts. mbalanced (h - 1) t)"

fun hashed_strings :: "(byte list \<Rightarrow> byte list) \<Rightarrow> mtree \<Rightarrow> byte list set" where
  "hashed_strings H (MLeaf ds) = insert (concat (map H ds)) (set ds)"
| "hashed_strings H (MNode ts) = insert (concat (map (merkle H) ts)) (\<Union>t \<in> set ts. hashed_strings H t)"

definition collision :: "(byte list \<Rightarrow> byte list) \<Rightarrow> byte list set \<Rightarrow> byte list set \<Rightarrow> bool" where
  "collision H X Y \<longleftrightarrow> (\<exists>x \<in> X. \<exists>y \<in> Y. x \<noteq> y \<and> H x = H y)"

lemma concat_blocks_inj:
  assumes "concat xs = concat ys" "\<forall>x \<in> set xs \<union> set ys. length x = k" "0 < k"
  shows "xs = ys"
  using assms
proof (induction xs arbitrary: ys)
  case Nil
  then show ?case by (cases ys) auto
next
  case (Cons x xs)
  then show ?case by (cases ys) auto
qed

lemma map_eq_or_differ:
  assumes "map f xs = map f ys"
  shows "xs = ys \<or> (\<exists>x \<in> set xs. \<exists>y \<in> set ys. x \<noteq> y \<and> f x = f y)"
  using assms
proof (induction xs arbitrary: ys)
  case (Cons x xs)
  then show ?case by (cases ys) auto
qed simp

locale digest =
  fixes H :: "byte list \<Rightarrow> byte list" and len :: nat
  assumes length_H: "length (H x) = len" and len_pos: "0 < len"
begin

lemma length_merkle_H: "length (merkle H t) = len"
  by (cases t) (simp_all add: length_H)

lemma collision_mono: "collision H X Y \<Longrightarrow> X \<subseteq> X' \<Longrightarrow> Y \<subseteq> Y' \<Longrightarrow> collision H X' Y'"
  unfolding collision_def by blast

lemma merkle_binding:
  "mbalanced h t \<Longrightarrow> mbalanced h t' \<Longrightarrow> merkle H t = merkle H t' \<Longrightarrow>
     t = t' \<or> collision H (hashed_strings H t) (hashed_strings H t')"
proof (induction t arbitrary: t' h)
  case (MLeaf ds)
  then obtain ds' where t': "t' = MLeaf ds'" by (cases t') auto
  show ?case
  proof (cases "concat (map H ds) = concat (map H ds')")
    case True
    then have "map H ds = map H ds'"
      by (rule concat_blocks_inj [where k = len]) (auto simp: length_H len_pos)
    then show ?thesis
      using map_eq_or_differ [of H ds ds'] by (auto simp: t' collision_def)
  next
    case False
    then show ?thesis using MLeaf.prems(3) by (auto simp: t' collision_def)
  qed
next
  case (MNode ts)
  then obtain ts' where t': "t' = MNode ts'" by (cases t') auto
  show ?case
  proof (cases "concat (map (merkle H) ts) = concat (map (merkle H) ts')")
    case True
    then have "map (merkle H) ts = map (merkle H) ts'"
      by (rule concat_blocks_inj [where k = len]) (auto simp: length_merkle_H len_pos)
    from map_eq_or_differ [OF this] consider "ts = ts'" |
      u u' where "u \<in> set ts" "u' \<in> set ts'" "u \<noteq> u'" "merkle H u = merkle H u'" by blast
    then show ?thesis
    proof cases
      case 2
      then have "collision H (hashed_strings H u) (hashed_strings H u')"
        using MNode.IH [of u "h - 1" u'] MNode.prems t' by auto
      then have "collision H (hashed_strings H (MNode ts)) (hashed_strings H (MNode ts'))"
        by (rule collision_mono) (use 2 in auto)
      then show ?thesis by (simp add: t')
    qed (simp add: t')
  next
    case False
    then show ?thesis using MNode.prems(3) by (auto simp: t' collision_def)
  qed
qed

end

interpretation mbh: digest node_hash 32
  by unfold_locales simp_all

lemma mbalanced_mtree_of: "balanced h t \<Longrightarrow> mbalanced h (mtree_of N t)"
  by (induction t arbitrary: h) auto

subsection \<open>A concrete tree\<close>

text \<open>A root with two leaves of two entries each.\<close>

definition sample_row :: "string \<Rightarrow> byte list" where
  "sample_row z = ascii z @ replicate (33 - length z) 0"

definition sample_leaf1 :: bplus_leaf where
  "sample_leaf1 = garbage_leaf\<lparr>node_type := 0, parent_key_idx := -1, parent := Some 3,
     link := \<lparr>prev = Head 0, next = Link 2\<rparr>, count := 2, tids := replicate 50 (Some 5),
     lkey := 10 # 20 # replicate 48 0, ldata := sample_row ''a'' # sample_row ''b'' # replicate 48 (replicate 33 0)\<rparr>"

definition sample_leaf2 :: bplus_leaf where
  "sample_leaf2 = garbage_leaf\<lparr>node_type := 0, parent_key_idx := 0, parent := Some 3,
     link := \<lparr>prev = Link 1, next = Head 0\<rparr>, count := 2, tids := replicate 50 (Some 5),
     lkey := 30 # 40 # replicate 48 0, ldata := sample_row ''c'' # sample_row ''d'' # replicate 48 (replicate 33 0)\<rparr>"

definition sample_root :: bplus_non_leaf where
  "sample_root = garbage_non_leaf\<lparr>node_type := 1, parent_key_idx := -1, parent := None,
     link := \<lparr>prev = Head 1, next = Head 1\<rparr>, count := 2, nkey := 30 # replicate 48 0,
     sub_ptr := Some 1 # Some 2 # replicate 48 None\<rparr>"

definition sample_heap :: heap where
  "sample_heap = blank_heap\<lparr>
     tree := \<lparr>order = 3, entries = 3, level = 1, root = Some 3,
       levels = \<lparr>prev = Link 2, next = Link 1\<rparr> # \<lparr>prev = Link 3, next = Link 3\<rparr> #
         map (\<lambda>i. \<lparr>prev = Head i, next = Head i\<rparr>) [2..<10], offset = 0\<rparr>,
     nodes := [1 \<mapsto> Leaf sample_leaf1, 2 \<mapsto> Leaf sample_leaf2, 3 \<mapsto> NonLeaf sample_root],
     items := [5 \<mapsto> \<lparr>bi_hi = 0, bi_lo = 7, ip_posid = 1\<rparr>], next_ptr := 6\<rparr>"

definition sample_tree :: atree where
  "sample_tree = ANode 3 [ALeaf 1 [10, 20], ALeaf 2 [30, 40]] [30]"

lemmas sample_defs = sample_heap_def sample_tree_def sample_leaf1_def sample_leaf2_def sample_root_def
  blank_heap_def garbage_leaf_def garbage_non_leaf_def sample_row_def ascii_def

lemma sample_heap_ok: "heap_ok sample_heap"
  by (auto simp: heap_ok_def sample_defs leaf_shape_def non_leaf_shape_def BPLUS_MAX_LEVEL_def
      BPLUS_MAX_ORDER_def BPLUS_MAX_ENTRIES_def)

lemma sample_leaf_wf:
  "leaf_wf (items sample_heap) sample_leaf1" "leaf_wf (items sample_heap) sample_leaf2"
  by (auto simp: leaf_wf_def sample_defs leaf_shape_def less_Suc_eq numeral_2_eq_2)

lemma sample_repr: "repr (nodes sample_heap) (items sample_heap) None (-1) sample_tree"
  using sample_leaf_wf
  by (simp add: sample_defs leaf_at_def non_leaf_at_def non_leaf_shape_def BPLUS_TREE_LEAF_def BPLUS_TREE_NON_LEAF_def)

lemma sample_rings: "rings sample_heap (\<lambda>i. level_ptrs 1 i sample_tree)"
proof -
  have "dl (get_link sample_heap) (Head i) (map Link (level_ptrs 1 i sample_tree)) (Head i)" if "i < 10" for i
  proof (cases "i < 2")
    case True
    then have "i = 0 \<or> i = 1" by auto
    then show ?thesis
      by (auto simp: sample_defs get_link_def get_node_def bplus_node.defs)
  next
    case False
    then have "levels (tree sample_heap) ! i = \<lparr>prev = Head i, next = Head i\<rparr>"
      using that by (simp add: sample_heap_def nth_Cons')
    then show ?thesis
      using False that by (auto simp: get_link_def sample_tree_def) (simp_all add: sample_heap_def)
  qed
  then show ?thesis by (simp add: rings_def BPLUS_MAX_LEVEL_def)
qed

lemma sample_fields:
  "order (tree sample_heap) = 3" "entries (tree sample_heap) = 3" "level (tree sample_heap) = 1"
  "root (tree sample_heap) = Some 3"
  by (simp_all add: sample_heap_def)

lemma sample_tree_rep: "tree_rep sample_heap sample_tree"
proof -
  have "ordered None None sample_tree" "distinct (ptrs sample_tree)" "balanced 1 sample_tree" "sized 3 3 True sample_tree"
    "root_ptr sample_tree = 3"
    by (simp_all add: sample_tree_def in_range_def min_children_def)
  then show ?thesis
    using sample_heap_ok sample_repr sample_rings by (simp add: tree_rep_def sample_fields BPLUS_MAX_LEVEL_def)
qed

subsection \<open>Properties\<close>

text \<open>C1. \<^verbatim>\<open>hashcompute\<close> ends without a fault on the root of every tree the heap holds and returns the Merkle hash of
  its rows. Afterwards the heap holds the same tree with the same rows, and every node stores the hashes of
  its children and its own. The recursion is never deeper than the number of levels.\<close>

theorem hashcompute_correct:
  assumes "tree_rep s t" and "ctx_shape raw"
  shows "\<exists>h s'. hashcompute BPLUS_MAX_LEVEL raw (root (tree s)) s = Some (Some h, s') \<and>
    cstr h = merkle node_hash (mtree_of (nodes s) t) \<and> tree_rep s' t \<and> hashes_ok (nodes s') t \<and>
    mtree_of (nodes s') t = mtree_of (nodes s) t"
proof -
  note r = assms(1) [unfolded tree_rep_def]
  have rep: "repr (nodes s) (items s) None (-1) t" "distinct (ptrs t)" "balanced (nat (level (tree s))) t"
    "nat (level (tree s)) < BPLUS_MAX_LEVEL" "root (tree s) = Some (root_ptr t)"
    using r by auto
  note rel = rehash_rel(1) [OF rep(1,2)]
  show ?thesis
    using hashcompute_eq [OF assms(2) rep(1-4)] tree_rep_hash_rel [OF assms(1) rel] hashes_ok_rehash(1) [OF rep(1,2)]
      mtree_of_hash_rel [OF rel] rep(5)
    by simp
qed

theorem hashcompute_correct_witness:
  "tree_rep sample_heap sample_tree \<and> (\<exists>h s'. hashcompute 10 raw_ctx (Some 3) sample_heap = Some (Some h, s') \<and>
    cstr h = merkle node_hash (MNode [MLeaf [ascii ''a'', ascii ''b''], MLeaf [ascii ''c'', ascii ''d'']]))"
proof -
  have "mtree_of (nodes sample_heap) sample_tree = MNode [MLeaf [ascii ''a'', ascii ''b''], MLeaf [ascii ''c'', ascii ''d'']]"
    by (simp add: sample_defs cstr_def)
  then show ?thesis
    using hashcompute_correct [OF sample_tree_rep, of raw_ctx] sample_tree_rep
    by (auto simp: ctx_shape_def raw_ctx_def sample_fields BPLUS_MAX_LEVEL_def)
qed

text \<open>C2. The root hash binds the rows: when \<^verbatim>\<open>hashcompute\<close> returns the same string for two trees of the same level,
  the trees hold the same rows in the same leaves, or the strings hashed for the two trees contain a
  collision of the truncated SHA-256.\<close>

theorem root_hash_binds_rows:
  assumes "tree_rep s t" "tree_rep s' t'" "level (tree s) = level (tree s')" "ctx_shape raw"
    and "hashcompute BPLUS_MAX_LEVEL raw (root (tree s)) s = Some (Some h, s1)"
    and "hashcompute BPLUS_MAX_LEVEL raw (root (tree s')) s' = Some (Some h', s1')"
    and "cstr h = cstr h'"
  shows "mtree_of (nodes s) t = mtree_of (nodes s') t' \<or>
    collision node_hash (hashed_strings node_hash (mtree_of (nodes s) t)) (hashed_strings node_hash (mtree_of (nodes s') t'))"
proof -
  let ?m = "mtree_of (nodes s) t" and ?m' = "mtree_of (nodes s') t'"
  have r: "repr (nodes s) (items s) None (-1) t" "distinct (ptrs t)" "balanced (nat (level (tree s))) t"
    "nat (level (tree s)) < BPLUS_MAX_LEVEL" "root (tree s) = Some (root_ptr t)"
    using assms(1) by (auto simp: tree_rep_def)
  have r': "repr (nodes s') (items s') None (-1) t'" "distinct (ptrs t')" "balanced (nat (level (tree s'))) t'"
    "nat (level (tree s')) < BPLUS_MAX_LEVEL" "root (tree s') = Some (root_ptr t')"
    using assms(2) by (auto simp: tree_rep_def)
  have "merkle node_hash ?m = merkle node_hash ?m'"
    using assms(5-7) hashcompute_eq [OF assms(4) r(1-4)] hashcompute_eq [OF assms(4) r'(1-4)] r(5) r'(5) by auto
  then show ?thesis
    using mbh.merkle_binding mbalanced_mtree_of r(3) r'(3) assms(3) by metis
qed

theorem root_hash_binds_rows_witness:
  "\<exists>h s1 h' s1'. hashcompute BPLUS_MAX_LEVEL raw_ctx (root (tree sample_heap)) sample_heap = Some (Some h, s1) \<and>
    hashcompute BPLUS_MAX_LEVEL raw_ctx (root (tree s1)) s1 = Some (Some h', s1') \<and> cstr h = cstr h' \<and>
    (mtree_of (nodes sample_heap) sample_tree = mtree_of (nodes s1) sample_tree \<or>
     collision node_hash (hashed_strings node_hash (mtree_of (nodes sample_heap) sample_tree))
       (hashed_strings node_hash (mtree_of (nodes s1) sample_tree)))"
proof -
  have raw: "ctx_shape raw_ctx" by (simp add: ctx_shape_def raw_ctx_def)
  define s1 where "s1 = sample_heap\<lparr>nodes := rehash (nodes sample_heap) sample_tree\<rparr>"
  have r: "repr (nodes sample_heap) (items sample_heap) None (-1) sample_tree" "distinct (ptrs sample_tree)"
    "balanced 1 sample_tree" "root (tree sample_heap) = Some (root_ptr sample_tree)"
    using sample_tree_rep by (auto simp: tree_rep_def sample_fields)
  note rel = rehash_rel(1) [OF r(1,2)]
  have rep1: "tree_rep s1 sample_tree" and m: "mtree_of (nodes s1) sample_tree = mtree_of (nodes sample_heap) sample_tree"
    using tree_rep_hash_rel [OF sample_tree_rep rel] mtree_of_hash_rel [OF rel] by (simp_all add: s1_def)
  have run: "hashcompute BPLUS_MAX_LEVEL raw_ctx (root (tree sample_heap)) sample_heap =
      Some (Some (merkle node_hash (mtree_of (nodes sample_heap) sample_tree) @ [0]), s1)"
    using hashcompute_eq [OF raw r(1-3), of BPLUS_MAX_LEVEL] r(4) by (simp add: BPLUS_MAX_LEVEL_def s1_def)
  have "repr (nodes s1) (items s1) None (-1) sample_tree" "root (tree s1) = Some (root_ptr sample_tree)"
    using rep1 by (simp_all add: tree_rep_def)
  then have run1: "hashcompute BPLUS_MAX_LEVEL raw_ctx (root (tree s1)) s1 =
      Some (Some (merkle node_hash (mtree_of (nodes s1) sample_tree) @ [0]), s1\<lparr>nodes := rehash (nodes s1) sample_tree\<rparr>)"
    using hashcompute_eq [OF raw _ r(2,3), of s1 None "-1" BPLUS_MAX_LEVEL] by (simp add: BPLUS_MAX_LEVEL_def)
  have lev: "level (tree sample_heap) = level (tree s1)" by (simp add: s1_def)
  show ?thesis
    using root_hash_binds_rows [OF sample_tree_rep rep1 lev raw run run1] run run1 m by auto
qed

end
