(* ===== verification/MBT_Keys.thy ===== *)
theory MBT_Keys
  imports MBT_Insertion MBT_Hash
begin

text \<open>
  The tree as a set of keys: the first insertion into a tree that \<^verbatim>\<open>bplus_tree_init\<close> has set up, the
  height of a tree in terms of the number of its keys, runs of insertions, and the heaps they lead to.
\<close>

subsection \<open>The first key\<close>

lemma insert_into_empty:
  assumes "empty_rep s" "length (cstr data) \<le> 32"
  shows "\<exists>s' p. bplus_tree_insert key data tid s = Some (0, s') \<and> tree_rep s' (ALeaf p [key]) \<and> same_sizes s s'"
proof -
  have E: "heap_ok s" "root (tree s) = None" "level (tree s) = 0" "rings s (\<lambda>i. [])"
    using assms(1) by (simp_all add: empty_rep_def)
  define q where "q = next_ptr s"
  obtain l it where l: "leaf_new s = Some (q, s\<lparr>items := it, nodes := (nodes s)(q \<mapsto> Leaf l), next_ptr := q + 51\<rparr>)"
      "leaf_cells it l" "node_type l = BPLUS_TREE_LEAF" "parent_key_idx l = -1" "parent l = None"
    using leaf_new_spec [OF E(1)] unfolding q_def by blast
  have qn: "nodes s q = None" using E(1) by (simp add: heap_ok_def q_def)
  obtain l1 it1 where l1: "leaf_put_entry key data tid l 0 it = Some (l1, it1)" "filled it l 0 [key] it1 l1"
    using leaf_put_entry_spec [OF l(2), of 0 data key tid] assms(2) by auto
  let ?l = "l1\<lparr>count := int (length [key])\<rparr>"
  have rf: "leaf_refilled it l it1 ?l [key]"
  proof (rule leaf_refilledI)
    show "refits it l it1 l1" by (rule filled_refits [OF l1(2)])
    have "length (lkey l) = 50" using l(2) by (simp add: leaf_cells_def leaf_shape_def)
    then show "take (length [key]) (lkey l1) = [key]" using l1(2) by (simp add: filled_def overwrite_def)
    show "\<forall>i < length [key]. has_str l1 i" using l1(2) by (simp add: filled_def)
  qed simp
  define s1 where "s1 = s\<lparr>next_ptr := q + 51, items := it1, nodes := (nodes s)(q \<mapsto> Leaf ?l), tree := (tree s)\<lparr>root := Some q\<rparr>\<rparr>"
  have r1: "rings s1 (\<lambda>i. [])" by (rule rings_fresh [OF E(4) qn]) (simp_all add: s1_def)
  obtain s2 where s2: "list_add (Link q) (Head 0) s1 = Some s2" "same_core s1 s2" "rings s2 ((\<lambda>i. [])(0 := [q]))"
    using rings_add_head [OF r1, of 0 q "link l1"] by (auto simp: lists_ok_def BPLUS_MAX_LEVEL_def s1_def get_link_def get_node_def bplus_node.defs)
  have run: "bplus_tree_insert key data tid s = Some (0, s2)"
    using l(1) l1(1) s2(1) E(2,3)
    by (simp add: bplus_tree_insert_def descent_fuel_def insert_new_root_def get_leaf_def put_leaf_def s1_def)
  have "leaf_at (Some (Leaf ?l)) it1 None (-1) [key]" using leaf_at_refilled [OF rf l(3)] l(4,5) by simp
  then have "leaf_at (nodes s1 q) (items s1) None (-1) [key]" by (simp add: s1_def)
  then have "leaf_at (nodes s2 q) (items s2) None (-1) [key]"
    using s2(2) leaf_at_unlink [of "nodes s1 q"] leaf_at_unlink [of "nodes s2 q"] by (simp add: same_core_def)
  moreover have "heap_ok s2"
  proof -
    have "nodes s2 x = None" if "q + 51 \<le> x" for x
    proof -
      have "nodes s1 x = None" using E(1) that by (simp add: heap_ok_def s1_def q_def)
      moreover have "map_option unlink (nodes s2 x) = map_option unlink (nodes s1 x)" using s2(2) by (simp add: same_core_def)
      ultimately show ?thesis by simp
    qed
    then show ?thesis using E(1) s2(2) by (simp add: heap_ok_def same_core_def s1_def)
  qed
  moreover have "(\<lambda>i. [])(0 := [q]) = (\<lambda>i. level_ptrs 0 i (ALeaf q [key]))" by auto
  moreover have "level (tree s2) = 0" "root (tree s2) = Some q" "1 \<le> ent_of s2"
    using s2(2) E(1,3) by (auto simp: same_core_def s1_def heap_ok_def)
  ultimately have "tree_rep s2 (ALeaf q [key])"
    using s2(3) by (simp add: tree_rep_def BPLUS_MAX_LEVEL_def in_range_def)
  moreover have "same_sizes s s2" using s2(2) by (simp add: same_sizes_def same_core_def s1_def)
  ultimately show ?thesis using run by blast
qed

text \<open>What \<^verbatim>\<open>bplus_tree_init\<close> gives, in memory whose blocks have the sizes of the structures.\<close>

lemma init_empty_rep:
  assumes "bplus_tree_init ord ent mem = Some s" "3 \<le> ord" "1 \<le> ent"
    "\<forall>p. next_ptr mem \<le> p \<longrightarrow> nodes mem p = None" "\<forall>p. leaf_shape (raw_leaf mem p)" "\<forall>p. non_leaf_shape (raw_non_leaf mem p)"
  shows "empty_rep s"
proof -
  have s: "s = mem\<lparr>tree := (tree mem)\<lparr>root := None, order := ord, entries := ent, level := 0,
       levels := map (\<lambda>i. \<lparr>prev = Head i, next = Head i\<rparr>) [0..<BPLUS_MAX_LEVEL]\<rparr>\<rparr>"
    and b: "ord \<le> BPLUS_MAX_ORDER" "ent \<le> BPLUS_MAX_ENTRIES"
    using assms(1) by (auto simp: bplus_tree_init_def split: if_splits)
  have "dl (get_link s) (Head i) [] (Head i)" if "i < BPLUS_MAX_LEVEL" for i
    using that by (simp add: s get_link_def)
  then show ?thesis using assms(2-6) b by (simp add: empty_rep_def heap_ok_def rings_def s)
qed

subsection \<open>How high a tree can be\<close>

lemma sum_list_lower: "(\<And>x. x \<in> set xs \<Longrightarrow> c \<le> f x) \<Longrightarrow> length xs * c \<le> sum_list (map f xs)" for f :: "'a \<Rightarrow> nat"
  by (induction xs) (simp_all add: add_mono)

lemma keys_lower:
  "balanced h t \<Longrightarrow> sized ord ent False t \<Longrightarrow> min_children ord ^ h * ((ent + 1) div 2) \<le> length (keys t)"
proof (induction h t rule: balanced.induct)
  case (2 h p ts ks)
  let ?c = "min_children ord ^ (h - 1) * ((ent + 1) div 2)"
  have h: "0 < h" "\<forall>t \<in> set ts. balanced (h - 1) t" "min_children ord \<le> length ts" "\<forall>t \<in> set ts. sized ord ent False t"
    using 2(2,3) by auto
  have "min_children ord * ?c \<le> length ts * ?c" using h(3) by simp
  also have "\<dots> \<le> sum_list (map (\<lambda>t. length (keys t)) ts)" by (rule sum_list_lower) (use 2(1) h in auto)
  finally show ?case using h(1) by (cases h) (simp_all add: length_concat o_def ac_simps)
qed simp

text \<open>The least number of keys of a tree of a given level.\<close>

definition least_keys :: "nat \<Rightarrow> nat \<Rightarrow> nat \<Rightarrow> nat" where
  "least_keys ord ent h = (if h = 0 then 1 else 2 * min_children ord ^ (h - 1) * ((ent + 1) div 2))"

lemma tree_rep_least_keys:
  assumes "tree_rep s t"
  shows "least_keys (ord_of s) (ent_of s) (nat (level (tree s))) \<le> length (keys t)"
proof -
  have T: "balanced (nat (level (tree s))) t" "sized (ord_of s) (ent_of s) True t"
    using assms by (simp_all add: tree_rep_def)
  show ?thesis
  proof (cases t)
    case (ALeaf p ks)
    then show ?thesis using T by (simp add: least_keys_def)
  next
    case (ANode p ts ks)
    then obtain h where h: "nat (level (tree s)) = Suc h" "\<forall>t \<in> set ts. balanced h t" using T(1) by (cases "nat (level (tree s))") auto
    let ?c = "min_children (ord_of s) ^ h * ((ent_of s + 1) div 2)"
    have "2 * ?c \<le> length ts * ?c" using T(2) ANode by simp
    also have "\<dots> \<le> sum_list (map (\<lambda>t. length (keys t)) ts)"
      by (rule sum_list_lower) (use keys_lower h T(2) ANode in auto)
    finally show ?thesis by (simp add: h(1) ANode least_keys_def length_concat o_def mult.assoc)
  qed
qed

subsection \<open>The tree as a set of keys\<close>

text \<open>The set a heap stands for, and the insertion the tree promises.\<close>

definition holds :: "heap \<Rightarrow> int set \<Rightarrow> bool" where
  "holds s K \<longleftrightarrow> empty_rep s \<and> K = {} \<or> (\<exists>t. tree_rep s t \<and> set (keys t) = K)"

definition set_insert :: "int \<Rightarrow> int set \<Rightarrow> int \<times> int set" where
  "set_insert key K = (if key \<in> K then (-1, K) else (0, insert key K))"

lemma tree_rep_level:
  assumes "tree_rep s t" "card (set (keys t)) < least_keys (ord_of s) (ent_of s) (BPLUS_MAX_LEVEL - 1)"
  shows "level (tree s) + 1 < int BPLUS_MAX_LEVEL"
proof (rule ccontr)
  assume "\<not> level (tree s) + 1 < int BPLUS_MAX_LEVEL"
  then have "nat (level (tree s)) = BPLUS_MAX_LEVEL - 1" using assms(1) by (auto simp: tree_rep_def)
  moreover have "distinct (keys t)"
    using assms(1) keys_sorted_range(1) [of None None t] by (simp add: tree_rep_def strict_sorted_iff)
  ultimately show False
    using assms tree_rep_least_keys [OF assms(1)] by (simp add: distinct_card)
qed

lemma insert_refines:
  assumes "holds s K" "length (cstr data) \<le> 32" "card K < least_keys (ord_of s) (ent_of s) (BPLUS_MAX_LEVEL - 1)"
  shows "\<exists>s'. bplus_tree_insert key data tid s = Some (fst (set_insert key K), s') \<and> holds s' (snd (set_insert key K)) \<and>
    same_sizes s s' \<and> (key \<in> K \<longrightarrow> s' = s)"
proof -
  consider "empty_rep s" "K = {}" | t where "tree_rep s t" "set (keys t) = K" using assms(1) by (auto simp: holds_def)
  then show ?thesis
  proof cases
    case 1
    then obtain s' p where "bplus_tree_insert key data tid s = Some (0, s')" "tree_rep s' (ALeaf p [key])" "same_sizes s s'"
      using insert_into_empty [OF _ assms(2)] by blast
    moreover from this(2) have "holds s' {key}" unfolding holds_def by (intro disjI2 exI [of _ "ALeaf p [key]"]) simp
    ultimately show ?thesis using 1(2) by (auto simp: set_insert_def)
  next
    case 2
    have lv: "level (tree s) + 1 < int BPLUS_MAX_LEVEL" using tree_rep_level [OF 2(1)] 2(2) assms(3) by simp
    show ?thesis
    proof (cases "key \<in> K")
      case True
      then show ?thesis using insert_into_tree [OF 2(1) assms(2) lv, of key tid] 2(2) assms(1) by (simp add: set_insert_def)
    next
      case False
      then obtain s' t' where "bplus_tree_insert key data tid s = Some (0, s')" "tree_rep s' t'"
          "set (keys t') = insert key K" "same_sizes s s'"
        using insert_into_tree [OF 2(1) assms(2) lv, of key tid] 2(2) by auto
      moreover from this have "holds s' (insert key K)" unfolding holds_def by blast
      ultimately show ?thesis using False by (auto simp: set_insert_def)
    qed
  qed
qed

text \<open>A run of insertions, with the codes they return.\<close>

type_synonym entry = "int \<times> byte list \<times> ItemPointerData"

primrec insert_all :: "entry list \<Rightarrow> heap \<Rightarrow> (int list \<times> heap) option" where
  "insert_all [] s = Some ([], s)"
| "insert_all (e # es) s =
     (case e of (key, data, tid) \<Rightarrow>
        do { (r, s) \<leftarrow> bplus_tree_insert key data tid s; (rs, s) \<leftarrow> insert_all es s; Some (r # rs, s) })"

primrec set_insert_all :: "entry list \<Rightarrow> int set \<Rightarrow> int list \<times> int set" where
  "set_insert_all [] K = ([], K)"
| "set_insert_all (e # es) K =
     (let K' = snd (set_insert (fst e) K)
      in (fst (set_insert (fst e) K) # fst (set_insert_all es K'), snd (set_insert_all es K')))"

lemma set_insert_all_set: "snd (set_insert_all es K) = K \<union> fst ` set es"
  by (induction es arbitrary: K) (auto simp: set_insert_def Let_def)

lemma insert_all_refines:
  assumes "holds s K" "finite K" "\<forall>e \<in> set es. length (cstr (fst (snd e))) \<le> 32"
    "card K + length es \<le> least_keys (ord_of s) (ent_of s) (BPLUS_MAX_LEVEL - 1)"
  shows "\<exists>s'. insert_all es s = Some (fst (set_insert_all es K), s') \<and> holds s' (snd (set_insert_all es K)) \<and> same_sizes s s'"
  using assms
proof (induction es arbitrary: s K)
  case (Cons e es)
  obtain key data tid where e: "e = (key, data, tid)" by (cases e)
  obtain s1 where s1: "bplus_tree_insert key data tid s = Some (fst (set_insert key K), s1)"
      "holds s1 (snd (set_insert key K))" "same_sizes s s1"
    using insert_refines [OF Cons.prems(1), of data key tid] Cons.prems(3,4) e by auto
  have "card (snd (set_insert key K)) \<le> Suc (card K)" "finite (snd (set_insert key K))"
    using Cons.prems(2) card_insert_le_m1 [of "Suc (card K)" K key] by (auto simp: set_insert_def card_insert_if)
  moreover have "ord_of s1 = ord_of s" "ent_of s1 = ent_of s" using s1(3) by (simp_all add: same_sizes_def)
  ultimately obtain s2 where "insert_all es s1 = Some (fst (set_insert_all es (snd (set_insert key K))), s2)"
      "holds s2 (snd (set_insert_all es (snd (set_insert key K))))" "same_sizes s1 s2"
    using Cons.IH [OF s1(2)] Cons.prems(3,4) by fastforce
  then show ?case using s1 same_sizes_trans [OF s1(3)] by (simp add: e Let_def)
qed simp

lemma holds_init:
  assumes "bplus_tree_init ord ent mem = Some s" "3 \<le> ord" "1 \<le> ent"
    "\<forall>p. next_ptr mem \<le> p \<longrightarrow> nodes mem p = None" "\<forall>p. leaf_shape (raw_leaf mem p)" "\<forall>p. non_leaf_shape (raw_non_leaf mem p)"
  shows "holds s {}" "ord_of s = nat ord" "ent_of s = nat ent"
  using init_empty_rep [OF assms] assms(1) by (auto simp: holds_def bplus_tree_init_def split: if_splits)

subsection \<open>The heaps that insertions lead to\<close>

text \<open>The heap after \<open>n\<close> insertions into a new tree.\<close>

inductive reached :: "int \<Rightarrow> int \<Rightarrow> heap \<Rightarrow> nat \<Rightarrow> heap \<Rightarrow> bool" where
  reached_init: "bplus_tree_init ord ent mem = Some s \<Longrightarrow> reached ord ent mem 0 s"
| reached_insert:
    "reached ord ent mem n s \<Longrightarrow> length (cstr data) \<le> 32 \<Longrightarrow>
     bplus_tree_insert key data tid s = Some (r, s') \<Longrightarrow> reached ord ent mem (Suc n) s'"

lemma reached_holds:
  assumes "reached ord ent mem n s" "3 \<le> ord" "1 \<le> ent" "n \<le> least_keys (nat ord) (nat ent) (BPLUS_MAX_LEVEL - 1)"
    "\<forall>p. next_ptr mem \<le> p \<longrightarrow> nodes mem p = None" "\<forall>p. leaf_shape (raw_leaf mem p)" "\<forall>p. non_leaf_shape (raw_non_leaf mem p)"
  shows "\<exists>K. holds s K \<and> finite K \<and> card K \<le> n \<and> ord_of s = nat ord \<and> ent_of s = nat ent"
  using assms
proof (induction rule: reached.induct)
  case (reached_init ord ent mem s)
  then show ?case using holds_init [of ord ent mem s] by auto
next
  case (reached_insert ord ent mem n s data key tid r s')
  then obtain K where K: "holds s K" "finite K" "card K \<le> n" "ord_of s = nat ord" "ent_of s = nat ent" by auto
  have "card K < least_keys (ord_of s) (ent_of s) (BPLUS_MAX_LEVEL - 1)" using K reached_insert.prems(3) by simp
  from insert_refines [OF K(1) reached_insert.hyps(2) this, of key tid] reached_insert.hyps(3)
  have "holds s' (snd (set_insert key K))" "same_sizes s s'" by auto
  moreover have "finite (snd (set_insert key K))" "card (snd (set_insert key K)) \<le> Suc n"
    using K(2,3) by (auto simp: set_insert_def card_insert_if)
  ultimately show ?case using K(4,5) by (auto simp: same_sizes_def)
qed

text \<open>A node of level \<open>i\<close> has the kind, the tag, the array lengths and the occupancy of that level.\<close>

definition typed_node :: "heap \<Rightarrow> nat \<Rightarrow> ptr \<Rightarrow> bool" where
  "typed_node s i p \<longleftrightarrow>
     (case nodes s p of
        None \<Rightarrow> False
      | Some (Leaf l) \<Rightarrow>
          i = 0 \<and> node_type l = BPLUS_TREE_LEAF \<and> leaf_shape l \<and> 1 \<le> count l \<and> count l \<le> entries (tree s)
      | Some (NonLeaf n) \<Rightarrow>
          0 < i \<and> node_type n = BPLUS_TREE_NON_LEAF \<and> non_leaf_shape n \<and> 2 \<le> count n \<and> count n \<le> order (tree s))"

lemma repr_typed:
  assumes "repr (nodes s) it par idx t" "balanced h t" "sized (ord_of s) (ent_of s) rt t" "p \<in> set (level_ptrs h i t)"
    "1 \<le> ent_of s"
  shows "typed_node s i p"
  using assms
proof (induction t arbitrary: h par idx rt)
  case (ALeaf q ks)
  have "1 \<le> (ent_of s + 1) div 2" using ALeaf.prems(5) by simp
  then show ?case using ALeaf by (auto simp: typed_node_def leaf_at_def leaf_wf_def split: if_splits)
next
  case (ANode q ts ks)
  have "2 \<le> min_children (ord_of s)" by (simp add: min_children_def)
  then have c: "2 \<le> length ts" "length ts \<le> ord_of s" using ANode.prems(3) by (auto split: if_splits)
  show ?case
  proof (cases "i = h")
    case True
    then show ?thesis using ANode.prems(1,2,4) c by (auto simp: typed_node_def non_leaf_at_def)
  next
    case False
    then obtain t where t: "t \<in> set ts" "p \<in> set (level_ptrs (h - 1) i t)" using ANode.prems(4) by auto
    have rs: "\<exists>par idx. repr (nodes s) it par idx t" if "reprs (nodes s) it q j us" "t \<in> set us" for j us
      using that by (induction us arbitrary: j) auto
    obtain par' idx' where "repr (nodes s) it par' idx' t" using rs [of 0 ts] ANode.prems(1) t(1) by auto
    moreover have "balanced (h - 1) t" "sized (ord_of s) (ent_of s) False t" using ANode.prems(2,3) t(1) by auto
    ultimately show ?thesis using ANode.IH [OF t(1)] t(2) ANode.prems(5) by blast
  qed
qed

lemma holds_typed:
  assumes "holds s K"
  shows "\<exists>P. rings s P \<and> (\<forall>i. \<forall>p \<in> set (P i). typed_node s i p)"
proof -
  consider "empty_rep s" | t where "tree_rep s t" using assms by (auto simp: holds_def)
  then show ?thesis
  proof cases
    case 1
    then show ?thesis by (intro exI [of _ "\<lambda>i. []"]) (simp add: empty_rep_def)
  next
    case 2
    have "1 \<le> ent_of s" using 2 by (auto simp: tree_rep_def heap_ok_def)
    then show ?thesis
      using 2 repr_typed by (intro exI [of _ "\<lambda>i. level_ptrs (nat (level (tree s))) i t"]) (auto simp: tree_rep_def)
  qed
qed

lemma reached_insert_all:
  "reached ord ent mem n s \<Longrightarrow> \<forall>e \<in> set es. length (cstr (fst (snd e))) \<le> 32 \<Longrightarrow> insert_all es s = Some (rs, s') \<Longrightarrow>
     reached ord ent mem (n + length es) s'"
proof (induction es arbitrary: n s rs)
  case (Cons e es)
  obtain key data tid where e: "e = (key, data, tid)" by (cases e)
  obtain r s1 rs' where s1: "bplus_tree_insert key data tid s = Some (r, s1)" "insert_all es s1 = Some (rs', s')"
    using Cons.prems(3) e by (auto split: bind_splits)
  have "reached ord ent mem (Suc n) s1" by (rule reached_insert [OF Cons.prems(1) _ s1(1)]) (use Cons.prems(2) e in simp)
  from Cons.IH [OF this _ s1(2)] Cons.prems(2) show ?case by simp
qed simp

definition sample_tid :: ItemPointerData where
  "sample_tid = \<lparr>bi_hi = 0, bi_lo = 7, ip_posid = 1\<rparr>"

lemma least_keys_small: "least_keys 3 1 9 = 512"
  by code_simp

text \<open>Three insertions into a tree whose leaves have one entry.\<close>

lemma three_keys_reached: "\<exists>s. reached 3 1 blank_heap 3 s \<and> holds s {10, 20, 30} \<and> ent_of s = 1"
proof -
  let ?es = "[(10, sample_row ''a'', sample_tid), (20, sample_row ''b'', sample_tid), (30, sample_row ''c'', sample_tid)] :: entry list"
  obtain s0 where s0: "bplus_tree_init 3 1 blank_heap = Some s0"
    by (simp add: bplus_tree_init_def BPLUS_MIN_ORDER_def BPLUS_MAX_ORDER_def BPLUS_MAX_ENTRIES_def)
  have d: "\<forall>e \<in> set ?es. length (cstr (fst (snd e))) \<le> 32" by (simp add: sample_row_def ascii_def cstr_def)
  have h: "holds s0 {}" "ord_of s0 = nat 3" "ent_of s0 = nat 1"
    by (rule holds_init [OF s0];
      simp add: blank_heap_def garbage_leaf_def garbage_non_leaf_def leaf_shape_def non_leaf_shape_def)+
  have "card {} + length ?es \<le> least_keys (ord_of s0) (ent_of s0) (BPLUS_MAX_LEVEL - 1)"
    using h(2,3) least_keys_small by (simp add: BPLUS_MAX_LEVEL_def)
  from insert_all_refines [OF h(1) _ d this]
  obtain s where s: "insert_all ?es s0 = Some (fst (set_insert_all ?es {}), s)" "holds s (snd (set_insert_all ?es {}))"
      "same_sizes s0 s" by auto
  have "snd (set_insert_all ?es {}) = {10, 20, 30}" unfolding set_insert_all_set by auto
  moreover have "reached 3 1 blank_heap 3 s" using reached_insert_all [OF reached_init [OF s0] d s(1)] by (simp add: eval_nat_numeral)
  ultimately show ?thesis using s(2,3) h(3) by (auto simp: same_sizes_def)
qed

subsection \<open>Properties\<close>

text \<open>C4. \<^verbatim>\<open>bplus_tree_insert\<close> on every tree the heap holds below the last level: a key that is present makes it
  return -1 and leaves the heap as it is; any other key is added, with however many splits up to a new root,
  the result is 0, and the heap holds a tree with exactly one more key, in order, of the same order and
  number of entries. The text of the row may have up to 32 bytes.\<close>

theorem bplus_tree_insert_correct:
  assumes "tree_rep s t" "length (cstr data) \<le> 32" "level (tree s) + 1 < int BPLUS_MAX_LEVEL"
  shows "if key \<in> set (keys t) then bplus_tree_insert key data tid s = Some (-1, s)
    else \<exists>s' t'. bplus_tree_insert key data tid s = Some (0, s') \<and> tree_rep s' t' \<and>
      sorted_wrt (<) (keys t') \<and> set (keys t') = insert key (set (keys t)) \<and> same_sizes s s'"
  by (rule insert_into_tree [OF assms])

theorem bplus_tree_insert_correct_witness:
  "tree_rep sample_heap sample_tree \<and>
   bplus_tree_insert 20 (sample_row ''x'') sample_tid sample_heap = Some (-1, sample_heap) \<and>
   (\<exists>s' t'. bplus_tree_insert 25 (sample_row ''x'') sample_tid sample_heap = Some (0, s') \<and> tree_rep s' t' \<and>
     set (keys t') = {10, 20, 25, 30, 40})"
proof -
  have d: "length (cstr (sample_row ''x'')) \<le> 32" by (simp add: sample_row_def ascii_def cstr_def)
  have lv: "level (tree sample_heap) + 1 < int BPLUS_MAX_LEVEL" by (simp add: sample_fields BPLUS_MAX_LEVEL_def)
  note ins = bplus_tree_insert_correct [OF sample_tree_rep d lv]
  have "insert 25 {10, 20, 30, 40} = {10, 20, 25, 30, 40 :: int}" by auto
  then show ?thesis
    using ins [of 20 sample_tid] ins [of 25 sample_tid] sample_tree_rep by (auto simp: sample_tree_def)
qed



text \<open>C6. Every run of insertions into a new tree comes to its end: with rows of up to 32 bytes and at most
  \<open>least_keys\<close> of them, every call returns, with 0 for a new key and -1 for a repeated one, and the final
  tree holds exactly the keys inserted. For the order 10 and the 10 entries the access method uses this is
  3906250 insertions.\<close>

theorem insertions_complete:
  assumes "bplus_tree_init ord ent mem = Some s" "3 \<le> ord" "1 \<le> ent"
    and "\<forall>p. next_ptr mem \<le> p \<longrightarrow> nodes mem p = None" "\<forall>p. leaf_shape (raw_leaf mem p)" "\<forall>p. non_leaf_shape (raw_non_leaf mem p)"
    and "\<forall>e \<in> set es. length (cstr (fst (snd e))) \<le> 32" "length es \<le> least_keys (nat ord) (nat ent) (BPLUS_MAX_LEVEL - 1)"
  shows "\<exists>s'. insert_all es s = Some (fst (set_insert_all es {}), s') \<and> holds s' (fst ` set es)"
  using insert_all_refines [OF holds_init(1) [OF assms(1-6)] _ assms(7)] holds_init(2,3) [OF assms(1-6)] assms(8)
    set_insert_all_set [of es "{}"] by auto

theorem insertions_complete_witness:
  "least_keys 10 10 9 = 3906250 \<and>
   (\<exists>s s'. bplus_tree_init 10 10 blank_heap = Some s \<and>
      insert_all [(7, sample_row ''a'', sample_tid), (3, sample_row ''b'', sample_tid), (7, sample_row ''c'', sample_tid)] s = Some ([0, 0, -1], s') \<and>
      holds s' {3, 7})"
proof -
  let ?es = "[(7, sample_row ''a'', sample_tid), (3, sample_row ''b'', sample_tid), (7, sample_row ''c'', sample_tid)] :: entry list"
  obtain s where s: "bplus_tree_init 10 10 blank_heap = Some s"
    by (simp add: bplus_tree_init_def BPLUS_MIN_ORDER_def BPLUS_MAX_ORDER_def BPLUS_MAX_ENTRIES_def)
  have "\<exists>s'. insert_all ?es s = Some (fst (set_insert_all ?es {}), s') \<and> holds s' (fst ` set ?es)"
    by (rule insertions_complete [OF s])
      (simp_all add: blank_heap_def garbage_leaf_def garbage_non_leaf_def leaf_shape_def non_leaf_shape_def sample_row_def
        ascii_def cstr_def least_keys_def min_children_def BPLUS_MAX_LEVEL_def)
  moreover have "fst (set_insert_all ?es {}) = [0, 0, -1]" "fst ` set ?es = {3, 7}" by (auto simp: set_insert_def Let_def)
  moreover have "least_keys 10 10 9 = 3906250" by (simp add: least_keys_def min_children_def)
  ultimately show ?thesis using s by auto
qed

text \<open>C7. Heights: after \<open>n\<close> insertions of rows of up to 32 bytes into a new tree of order \<open>ord\<close>, at least 3, with \<open>ent\<close>
  entries per leaf, where \<open>n\<close> is at most the number of keys a tree of the last level has at least, a tree of
  level \<open>h > 0\<close> means \<open>2 * m ^ (h - 1) * e \<le> n\<close>, where \<open>m\<close> is the least number of children and \<open>e\<close> the least number
  of entries of a node that is not the root: the height is logarithmic in the number of insertions.\<close>

theorem tree_height_bound:
  assumes "reached ord ent mem n s" "3 \<le> ord" "1 \<le> ent" "n \<le> least_keys (nat ord) (nat ent) (BPLUS_MAX_LEVEL - 1)"
    and "\<forall>p. next_ptr mem \<le> p \<longrightarrow> nodes mem p = None" "\<forall>p. leaf_shape (raw_leaf mem p)" "\<forall>p. non_leaf_shape (raw_non_leaf mem p)"
  shows "0 \<le> level (tree s) \<and> (level (tree s) = 0 \<or> least_keys (nat ord) (nat ent) (nat (level (tree s))) \<le> n)"
proof -
  obtain K where K: "holds s K" "finite K" "card K \<le> n" "ord_of s = nat ord" "ent_of s = nat ent"
    using reached_holds [OF assms] by blast
  consider "empty_rep s" | t where "tree_rep s t" "set (keys t) = K" using K(1) by (auto simp: holds_def)
  then show ?thesis
  proof cases
    case 2
    have "distinct (keys t)" using 2(1) keys_sorted_range(1) [of None None t] by (simp add: tree_rep_def strict_sorted_iff)
    then have "length (keys t) \<le> n" using distinct_card [of "keys t"] 2(2) K(3) by simp
    then show ?thesis using tree_rep_least_keys [OF 2(1)] K(4,5) 2(1) by (auto simp: tree_rep_def)
  qed (simp add: empty_rep_def)
qed

theorem tree_height_bound_witness:
  "\<exists>s. reached 3 1 blank_heap 3 s \<and> holds s {10, 20, 30} \<and> level (tree s) = 1 \<and> least_keys 3 1 (nat (level (tree s))) \<le> 3"
proof -
  obtain s where s: "reached 3 1 blank_heap 3 s" "holds s {10, 20, 30}" "ent_of s = 1" using three_keys_reached by blast
  obtain t where t: "tree_rep s t" "set (keys t) = {10, 20, 30}"
    using s(2) unfolding holds_def by auto
  have "level (tree s) \<noteq> 0"
  proof
    assume "level (tree s) = 0"
    then have "balanced 0 t" "sized (ord_of s) 1 True t" using t(1) s(3) by (simp_all add: tree_rep_def)
    then have "length (keys t) \<le> 1" by (cases t) auto
    moreover have "card {10, 20, 30 :: int} \<le> length (keys t)" using card_length [of "keys t"] t(2) by simp
    ultimately show False by simp
  qed
  moreover have b: "0 \<le> level (tree s) \<and> (level (tree s) = 0 \<or> least_keys (nat 3) (nat 1) (nat (level (tree s))) \<le> 3)"
    by (rule tree_height_bound [OF s(1)])
      (simp_all add: blank_heap_def garbage_leaf_def garbage_non_leaf_def leaf_shape_def non_leaf_shape_def
        least_keys_small [simplified] BPLUS_MAX_LEVEL_def)
  ultimately have k: "least_keys 3 1 (nat (level (tree s))) \<le> 3" "0 < level (tree s)" by auto
  have "level (tree s) = 1"
  proof (rule ccontr)
    assume "level (tree s) \<noteq> 1"
    then obtain j where "nat (level (tree s)) = Suc (Suc j)" using k(2) by (auto dest: gr0_implies_Suc simp: nat_eq_iff intro: that [of "nat (level (tree s) - 2)"])
    moreover have "min_children 3 = 2" by (simp add: min_children_def)
    ultimately have "2 * 2 ^ Suc j \<le> (3 :: nat)" using k(1) by (simp add: least_keys_def)
    moreover have "(1 :: nat) \<le> 2 ^ j" by simp
    ultimately show False by simp
  qed
  then show ?thesis using s k(1) by auto
qed

text \<open>C8. Insertions keep the heap well typed: after \<open>n\<close> insertions of rows of up to 32 bytes into a new tree of order at
  least 3, where \<open>n\<close> is at most the number of keys a tree of the last level has at least, the list of level \<open>i\<close> is a proper circular list whose members are leaves exactly on level 0, each with
  the tag of its kind, the array lengths of the C structure, and a number of entries or children within the
  limits of the tree.\<close>

theorem insertions_well_typed:
  assumes "reached ord ent mem n s" "3 \<le> ord" "1 \<le> ent" "n \<le> least_keys (nat ord) (nat ent) (BPLUS_MAX_LEVEL - 1)"
    and "\<forall>p. next_ptr mem \<le> p \<longrightarrow> nodes mem p = None" "\<forall>p. leaf_shape (raw_leaf mem p)" "\<forall>p. non_leaf_shape (raw_non_leaf mem p)"
  shows "\<exists>P. rings s P \<and> (\<forall>i. \<forall>p \<in> set (P i). typed_node s i p)"
  using reached_holds [OF assms] holds_typed by blast

theorem insertions_well_typed_witness:
  "\<exists>s. reached 3 1 blank_heap 3 s \<and> holds s {10, 20, 30} \<and> (\<exists>P. rings s P \<and> (\<forall>i. \<forall>p \<in> set (P i). typed_node s i p))"
proof -
  obtain s where s: "reached 3 1 blank_heap 3 s" "holds s {10, 20, 30}" using three_keys_reached by blast
  have "\<exists>P. rings s P \<and> (\<forall>i. \<forall>p \<in> set (P i). typed_node s i p)"
    by (rule insertions_well_typed [OF s(1)])
      (simp_all add: blank_heap_def garbage_leaf_def garbage_non_leaf_def leaf_shape_def non_leaf_shape_def
        least_keys_small [simplified] BPLUS_MAX_LEVEL_def)
  then show ?thesis using s by blast
qed

end
