(* ===== verification/MBT_Lookup.thy ===== *)
theory MBT_Lookup
  imports MBT_Hash
begin

text \<open>
  The lookup \<^verbatim>\<open>bplus_tree_search\<close> (MBT_Search) on the trees of MBT_Shape: which leaf it reaches, what it returns,
  and what it leaves of the tree. The loop calls \<^verbatim>\<open>bplus_non_leaf_init\<close> on every non-leaf node before it looks at
  the keys, so it searches an empty array and always follows the second child.
\<close>

text \<open>\<open>wiped s p\<close>: \<open>p\<close> is a non-leaf node without keys and without children.\<close>

definition wiped :: "heap \<Rightarrow> ptr \<Rightarrow> bool" where
  "wiped s p \<longleftrightarrow> (\<exists>n. nodes s p = Some (NonLeaf n) \<and> count n = 0 \<and> nkey n = replicate 49 0)"

text \<open>The leaf that second children lead to.\<close>

fun second_leaf :: "atree \<Rightarrow> atree" where
  "second_leaf (ANode p (t # u # ts) ks) = second_leaf u"
| "second_leaf t = t"

text \<open>Every row of a leaf fits the 32 bytes of the result.\<close>

definition short_rows :: "heap \<Rightarrow> bool" where
  "short_rows s \<longleftrightarrow> (\<forall>p l i. nodes s p = Some (Leaf l) \<longrightarrow> i < nat (count l) \<longrightarrow> strlen (ldata l ! i) < 32)"

lemma descend_init:
  assumes "non_leaf_shape n"
  shows "descend (bplus_non_leaf_init n) key = Some (sub_ptr n ! 1)"
proof -
  have "key_binary_search (replicate 49 0) (- 1) key = Some 0"
    by (simp add: key_binary_search_def kbs_loop.simps)
  then show ?thesis
    using assms by (simp add: descend_def bplus_non_leaf_init_def aget_def non_leaf_shape_def)
qed

lemma strcpy_fits:
  assumes "strlen b < length a"
  shows "\<exists>r. strcpy a b = Some r \<and> cstr r = cstr b"
proof -
  have "0 \<notin> set (cstr b)" by (auto simp: cstr_def dest: set_takeWhileD)
  then have "cstr (cstr b @ 0 # w) = cstr b" for w unfolding cstr_def [of "_ @ _"] by (subst takeWhile_append2) auto
  then show ?thesis using assms by (simp add: strcpy_def blit_def strlen_def)
qed

text \<open>What the search of a leaf returns.\<close>

definition leaf_answer :: "heap \<Rightarrow> atree \<Rightarrow> int \<Rightarrow> byte list \<Rightarrow> bool" where
  "leaf_answer s t key r \<longleftrightarrow>
     (if key \<in> set (keys t)
      then \<exists>l i. nodes s (root_ptr t) = Some (Leaf l) \<and> i < nat (count l) \<and> lkey l ! i = key \<and> cstr r = cstr (ldata l ! i)
      else cstr r = ascii ''0'')"

lemma search_leaf:
  assumes "leaf_at (nodes s p) it par idx ks" "sorted ks" "short_rows s" "length ret = 32"
  shows "\<exists>r. search_loop (Suc f) (Some p) key ret s = Some (r, s) \<and> leaf_answer s (ALeaf p ks) key r"
proof -
  obtain l where l: "nodes s p = Some (Leaf l)" "leaf_shape l" "node_type l = BPLUS_TREE_LEAF" "count l = int (length ks)"
    "length ks \<le> 50" "take (length ks) (lkey l) = ks"
    using assms(1) by (auto simp: leaf_at_def leaf_wf_def)
  have len: "length (lkey l) = 50" "length (ldata l) = 50" using l(2) by (simp_all add: leaf_shape_def)
  obtain i where i: "key_binary_search (lkey l) (count l) key = Some i"
    "if key \<in> set ks then 0 \<le> i \<and> nat i < length ks \<and> ks ! nat i = key else i < 0"
  proof -
    have "lkey l = ks @ drop (length ks) (lkey l)" using l(6) append_take_drop_id [of "length ks" "lkey l"] by simp
    then show thesis
      using key_binary_search_eq [of ks "lkey l" key] key_pos_mem [OF assms(2), of key] l(4-6) len(1) assms(2) that
      by (auto split: if_splits)
  qed
  have run: "search_loop (Suc f) (Some p) key ret s =
      do { ret \<leftarrow> (if i \<ge> 0 then do { d \<leftarrow> aget (ldata l) i; strcpy ret d } else strcpy ret (ascii ''0'' @ [0])); Some (ret, s) }"
    using l(1,3) i(1) by (simp add: get_node_def get_leaf_def is_leaf_def bplus_node.defs)
  show ?thesis
  proof (cases "key \<in> set ks")
    case True
    then have i0: "0 \<le> i" "nat i < length ks" "ks ! nat i = key" using i(2) by simp_all
    then have "strlen (ldata l ! nat i) < 32" using assms(3) l(1,4) by (auto simp: short_rows_def)
    then obtain r where r: "strcpy ret (ldata l ! nat i) = Some r" "cstr r = cstr (ldata l ! nat i)"
      using strcpy_fits [of "ldata l ! nat i" ret] assms(4) by auto
    moreover have "aget (ldata l) i = Some (ldata l ! nat i)" using i0 len(2) l(5) by (simp add: aget_def)
    moreover have "lkey l ! nat i = key" using l(6) i0(2,3) by (metis nth_take)
    ultimately show ?thesis
      using run i0 True l(1,4) by (auto simp: leaf_answer_def intro!: exI [of _ "nat i"])
  next
    case False
    have z: "strlen (ascii ''0'' @ [0]) = 1" "cstr (ascii ''0'' @ [0]) = ascii ''0''"
      by (simp_all add: strlen_def cstr_def ascii_def)
    obtain r where "strcpy ret (ascii ''0'' @ [0]) = Some r" "cstr r = ascii ''0''"
      using strcpy_fits [of "ascii ''0'' @ [0]" ret] assms(4) z by auto
    then show ?thesis using run i(2) False by (simp add: leaf_answer_def)
  qed
qed

subsection \<open>The descent\<close>

lemma second_leaf_ptr: "root_ptr (second_leaf t) \<in> set (ptrs t)"
  by (induction t rule: second_leaf.induct) (auto intro: root_ptr_in_ptrs)

lemma search_second:
  assumes "repr (nodes s) it par idx t" "distinct (ptrs t)" "balanced h t" "sized ord ent rt t" "sorted_wrt (<) (keys t)"
    and "short_rows s" "length ret = 32" "h < fuel"
  shows "\<exists>r s'. search_loop fuel (Some (root_ptr t)) key ret s = Some (r, s') \<and> leaf_answer s (second_leaf t) key r \<and>
    tree s' = tree s \<and> (\<forall>q. q \<notin> set (ptrs t) \<longrightarrow> nodes s' q = nodes s q) \<and> (0 < h \<longrightarrow> wiped s' (root_ptr t))"
  using assms
proof (induction h arbitrary: t s par idx rt fuel)
  case 0
  then obtain p ks where t: "t = ALeaf p ks" by (cases t) auto
  obtain f where f: "fuel = Suc f" using "0.prems"(8) by (cases fuel) auto
  have "sorted ks" using "0.prems"(5) t by (simp add: strict_sorted_imp_sorted)
  then show ?case
    using search_leaf [of s p it par idx ks ret f key] "0.prems"(1,6,7) t f by auto
next
  case (Suc h)
  then obtain p ts ks where t: "t = ANode p ts ks" by (cases t) auto
  obtain f where f: "fuel = Suc f" "h < f" using Suc.prems(8) by (cases fuel) auto
  have "2 \<le> length ts" using Suc.prems(4) t by (auto simp: min_children_def split: if_splits)
  then obtain v u us where ts: "ts = v # u # us" by (cases ts; cases "tl ts") auto
  obtain n where n: "nodes s p = Some (NonLeaf n)" "non_leaf_shape n" "node_type n = BPLUS_TREE_NON_LEAF"
      "take (length ts) (sub_ptr n) = map (Some \<circ> root_ptr) ts" and rs: "reprs (nodes s) it p 0 ts"
    using Suc.prems(1) t by (auto simp: non_leaf_at_def)
  let ?n = "bplus_non_leaf_init n"
  define s1 where "s1 = put_non_leaf p ?n s"
  have N: "nodes s1 = (nodes s)(p \<mapsto> NonLeaf ?n)" "tree s1 = tree s" by (simp_all add: s1_def put_non_leaf_def)
  have "sub_ptr n ! 1 = Some (root_ptr u)" using arg_cong [OF n(4), of "\<lambda>xs. xs ! 1"] ts by simp
  then have d: "descend ?n key = Some (Some (root_ptr u))" using descend_init [OF n(2)] by simp
  have step: "search_loop fuel (Some (root_ptr t)) key ret s = search_loop f (Some (root_ptr u)) key ret s1"
    using t n(1,3) d by (simp add: f(1) get_node_def get_non_leaf_def is_leaf_def bplus_node.defs BPLUS_TREE_LEAF_def
        BPLUS_TREE_NON_LEAF_def s1_def)
  have p: "p \<notin> set (ptrs u)" "distinct (ptrs u)" "set (ptrs u) \<subseteq> set (ptrs t)" using Suc.prems(2) t ts by auto
  have "repr (nodes s1) it (Some p) 0 u = repr (nodes s) it (Some p) 0 u"
    by (rule repr_cong(1)) (use N p(1) in auto)
  then have r1: "repr (nodes s1) it (Some p) 0 u" using rs ts by simp
  have b: "balanced h u" "sized ord ent False u" "sorted_wrt (<) (keys u)"
    using Suc.prems(3-5) t ts by (auto simp: sorted_wrt_append)
  have sh: "short_rows s1" using Suc.prems(6) N(1) by (auto simp: short_rows_def)
  obtain r s' where r: "search_loop f (Some (root_ptr u)) key ret s1 = Some (r, s')" "leaf_answer s1 (second_leaf u) key r"
      "tree s' = tree s1" "\<forall>q. q \<notin> set (ptrs u) \<longrightarrow> nodes s' q = nodes s1 q"
    using Suc.IH [OF r1 p(2) b sh Suc.prems(7) f(2)] by blast
  have same: "nodes s1 (root_ptr (second_leaf u)) = nodes s (root_ptr (second_leaf u))" "second_leaf t = second_leaf u"
    using second_leaf_ptr [of u] p(1) N(1) t ts by auto
  have "leaf_answer s (second_leaf t) key r" using r(2) unfolding leaf_answer_def same .
  moreover have "nodes s' p = Some (NonLeaf ?n)" using r(4) p(1) N(1) by simp
  then have "wiped s' (root_ptr t)" using t by (simp add: wiped_def bplus_non_leaf_init_def)
  moreover have "nodes s' q = nodes s q" if "q \<notin> set (ptrs t)" for q
  proof -
    have "q \<notin> set (ptrs u)" "q \<noteq> p" using that p(3) t by auto
    then show ?thesis using r(4) N(1) by simp
  qed
  ultimately show ?case using step r(1,3) N(2) by auto
qed

text \<open>A heap whose root is wiped holds no tree.\<close>

lemma wiped_no_tree:
  assumes "root (tree s) = Some p" "wiped s p" shows "\<not> tree_rep s t"
proof
  assume rep: "tree_rep s t"
  then have "root_ptr t = p" "repr (nodes s) (items s) None (-1) t" using assms(1) by (auto simp: tree_rep_def)
  then show False using assms(2) by (cases t) (auto simp: wiped_def leaf_at_def non_leaf_at_def)
qed

subsection \<open>Properties\<close>

text \<open>C25. \<^verbatim>\<open>bplus_tree_search\<close> on every tree above level 0 whose rows have fewer than 32 bytes: the call returns, but it
  has searched one leaf only, the one that second children lead to, so every key of another leaf is reported
  as absent (the string 0); and the tree is lost: the root has no keys and no children any more, and the heap
  holds no tree of any shape.\<close>

theorem bplus_tree_search_destroys_tree:
  assumes "tree_rep s t" "0 < level (tree s)" "short_rows s" "length raw = 32"
  shows "\<exists>r s'. bplus_tree_search raw key s = Some (r, s') \<and> leaf_answer s (second_leaf t) key r \<and>
    wiped s' (root_ptr t) \<and> (\<forall>t'. \<not> tree_rep s' t')"
proof -
  have T: "repr (nodes s) (items s) None (-1) t" "distinct (ptrs t)" "balanced (nat (level (tree s))) t"
    "sized (nat (order (tree s))) (nat (entries (tree s))) True t" "root (tree s) = Some (root_ptr t)" "ordered None None t"
    "nat (level (tree s)) < descent_fuel"
    using assms(1) by (auto simp: tree_rep_def descent_fuel_def)
  have srt: "sorted_wrt (<) (keys t)" using keys_sorted_range(1) [OF T(6)] by simp
  have "strlen (ascii ''-1'' @ [0]) < length raw" using assms(4) by (simp add: strlen_def cstr_def ascii_def)
  then obtain ret where ret: "strcpy raw (ascii ''-1'' @ [0]) = Some ret" "length ret = 32"
    using assms(4) strcpy_fits [of "ascii ''-1'' @ [0]" raw] by (auto simp: strcpy_def blit_def split: if_splits)
  obtain r s' where r: "search_loop descent_fuel (Some (root_ptr t)) key ret s = Some (r, s')" "leaf_answer s (second_leaf t) key r"
      "tree s' = tree s" "wiped s' (root_ptr t)"
    using search_second [OF T(1-4) srt assms(3) ret(2) T(7), of key] assms(2) by auto
  have "\<not> tree_rep s' t'" for t' by (rule wiped_no_tree [OF _ r(4)]) (use r(3) T(5) in simp)
  then show ?thesis using r ret(1) T(5) by (auto simp: bplus_tree_search_def)
qed

theorem bplus_tree_search_destroys_tree_witness:
  "tree_rep sample_heap sample_tree \<and> 10 \<in> set (keys sample_tree) \<and>
   (\<exists>r s'. bplus_tree_search (replicate 32 0) 10 sample_heap = Some (r, s') \<and> cstr r = ascii ''0'' \<and>
      wiped s' 3 \<and> (\<forall>t'. \<not> tree_rep s' t')) \<and>
   (\<exists>r s'. bplus_tree_search (replicate 32 0) 30 sample_heap = Some (r, s') \<and> cstr r = ascii ''c'' \<and> wiped s' 3)"
proof -
  have row: "cstr (sample_row [c]) = ascii [c]" if "c \<in> {CHR ''a'', CHR ''b'', CHR ''c'', CHR ''d''}" for c
    using that by (auto simp: sample_row_def ascii_def cstr_def)
  have l1: "count sample_leaf1 = 2" "ldata sample_leaf1 ! 0 = sample_row ''a''" "ldata sample_leaf1 ! Suc 0 = sample_row ''b''"
    and l2: "count sample_leaf2 = 2" "ldata sample_leaf2 ! 0 = sample_row ''c''" "ldata sample_leaf2 ! Suc 0 = sample_row ''d''"
      "lkey sample_leaf2 ! 0 = 30" "lkey sample_leaf2 ! Suc 0 = 40"
    by (simp_all add: sample_leaf1_def sample_leaf2_def)
  have two: "i < 2 \<longleftrightarrow> i = 0 \<or> i = Suc 0" for i :: nat by auto
  have nd: "nodes sample_heap = [1 \<mapsto> Leaf sample_leaf1, 2 \<mapsto> Leaf sample_leaf2, 3 \<mapsto> NonLeaf sample_root]"
    by (simp add: sample_heap_def)
  have sh: "short_rows sample_heap"
    unfolding short_rows_def nd by (auto simp: l1 l2 two strlen_def row ascii_def split: if_splits)
  have lv: "0 < level (tree sample_heap)" by (simp add: sample_fields)
  note d = bplus_tree_search_destroys_tree [OF sample_tree_rep lv sh, of "replicate 32 0"]
  have t: "second_leaf sample_tree = ALeaf 2 [30, 40]" "root_ptr sample_tree = 3" by (simp_all add: sample_tree_def)
  have a: "leaf_answer sample_heap (ALeaf 2 [30, 40]) 10 r \<Longrightarrow> cstr r = ascii ''0''"
    "leaf_answer sample_heap (ALeaf 2 [30, 40]) 30 r \<Longrightarrow> cstr r = ascii ''c''" for r
    unfolding leaf_answer_def nd by (auto simp: l2 two row)
  obtain r s' where r: "bplus_tree_search (replicate 32 0) 10 sample_heap = Some (r, s')"
      "leaf_answer sample_heap (ALeaf 2 [30, 40]) 10 r" "wiped s' 3" "\<forall>t'. \<not> tree_rep s' t'"
    using d [of 10] unfolding t by auto
  obtain r' s'' where r': "bplus_tree_search (replicate 32 0) 30 sample_heap = Some (r', s'')"
      "leaf_answer sample_heap (ALeaf 2 [30, 40]) 30 r'" "wiped s'' 3"
    using d [of 30] unfolding t by auto
  have "10 \<in> set (keys sample_tree)" by (simp add: sample_tree_def)
  then show ?thesis using sample_tree_rep r r' a(1) [OF r(2)] a(2) [OF r'(2)] by blast
qed

end
