(* ===== verification/Hashmap.thy ===== *)
theory Hashmap
  imports MBT_Prelude
begin

text \<open>
  The chained hash map of \<^verbatim>\<open>src/backend/mbt/hashmap.c\<close> and
  \<^verbatim>\<open>src/include/mbt/hashmap.h\<close>. A bucket is the chain of its \<^verbatim>\<open>Pair\<close>s in link
  order; the \<^verbatim>\<open>Pair **\<close> that \<^verbatim>\<open>get_pair_ptr\<close> returns is the number of the bucket
  and the position in its chain (the length of the chain for the terminating null
  pointer). A \<^verbatim>\<open>void *\<close> value is an option: \<open>None\<close> is the null pointer. Whether a
  \<^verbatim>\<open>malloc\<close> succeeds is an argument of the operations that allocate.
\<close>

type_synonym 'v chain = "(int \<times> 'v option) list"

record 'v hashmap =
  num_buckets :: nat
  buckets :: "'v chain list"
  hash_fn :: "int \<Rightarrow> nat"
  compare_fn :: "int \<Rightarrow> int \<Rightarrow> bool"
  hm_size :: int

definition NUM_BUCKETS :: nat where
  "NUM_BUCKETS = 16"

text \<open>\<^verbatim>\<open>myhash\<close>: a \<^verbatim>\<open>int64_t\<close> remainder stored in a \<^verbatim>\<open>size_t\<close>, once per byte of the key.\<close>

definition myhash :: "int \<Rightarrow> nat" where
  "myhash key = fold (\<lambda>i hash. nat (c_rem key 10000000 mod 2 ^ 64)) [0..<8] 0"

definition compare :: "int \<Rightarrow> int \<Rightarrow> bool" where
  "compare key1 key2 \<longleftrightarrow> key1 - key2 = 0"

definition init_buckets :: "nat \<Rightarrow> 'v chain list" where
  "init_buckets n = map (\<lambda>i. []) [0..<n]"

definition hashmap_new ::
    "bool \<Rightarrow> bool \<Rightarrow> nat \<Rightarrow> (int \<Rightarrow> nat) \<Rightarrow> (int \<Rightarrow> int \<Rightarrow> bool) \<Rightarrow> 'v hashmap option" where
  "hashmap_new map_alloc buckets_alloc n h c =
     (if \<not> map_alloc then None
      else if \<not> buckets_alloc then None
      else Some \<lparr>num_buckets = n, buckets = init_buckets n, hash_fn = h, compare_fn = c,
                 hm_size = 0\<rparr>)"

definition get_bucket :: "'v hashmap \<Rightarrow> int \<Rightarrow> nat" where
  "get_bucket hm key = hash_fn hm key mod num_buckets hm"

text \<open>The walk of \<^verbatim>\<open>get_pair_ptr\<close> along one chain.\<close>

fun chain_pos :: "(int \<Rightarrow> int \<Rightarrow> bool) \<Rightarrow> 'v chain \<Rightarrow> int \<Rightarrow> nat" where
  "chain_pos cmp [] key = 0"
| "chain_pos cmp ((k, v) # ps) key = (if cmp k key then 0 else Suc (chain_pos cmp ps key))"

definition get_pair_ptr :: "'v hashmap \<Rightarrow> int \<Rightarrow> nat \<times> nat" where
  "get_pair_ptr hm key =
     (let b = get_bucket hm key in (b, chain_pos (compare_fn hm) (buckets hm ! b) key))"

definition pair_new :: "bool \<Rightarrow> int \<Rightarrow> 'v option \<Rightarrow> (int \<times> 'v option) option" where
  "pair_new alloc key value = (if alloc then Some (key, value) else None)"

definition hashmap_set :: "bool \<Rightarrow> 'v hashmap \<Rightarrow> int \<Rightarrow> 'v option \<Rightarrow> int \<times> 'v hashmap" where
  "hashmap_set alloc hm key value =
     (let (b, j) = get_pair_ptr hm key; ch = buckets hm ! b in
      if j = length ch then
        (case pair_new alloc key value of
           None \<Rightarrow> (0, hm\<lparr>hm_size := int32 (hm_size hm + 1)\<rparr>)
         | Some p \<Rightarrow>
             (1, hm\<lparr>buckets := (buckets hm)[b := ch @ [p]], hm_size := int32 (hm_size hm + 1)\<rparr>))
      else (1, hm\<lparr>buckets := (buckets hm)[b := ch[j := (fst (ch ! j), value)]]\<rparr>))"

definition hashmap_get :: "'v hashmap \<Rightarrow> int \<Rightarrow> 'v option" where
  "hashmap_get hm key =
     (let (b, j) = get_pair_ptr hm key; ch = buckets hm ! b in
      if j = length ch then None else snd (ch ! j))"

definition hashmap_delete :: "'v hashmap \<Rightarrow> int \<Rightarrow> 'v option \<times> 'v hashmap" where
  "hashmap_delete hm key =
     (let (b, j) = get_pair_ptr hm key; ch = buckets hm ! b in
      if j = length ch then (None, hm)
      else (snd (ch ! j), hm\<lparr>buckets := (buckets hm)[b := take j ch @ drop (Suc j) ch]\<rparr>))"

text \<open>
  \<^verbatim>\<open>free_buckets\<close> and \<^verbatim>\<open>hashmap_free\<close>: the pairs freed, in the order of the loop.
  After it the map is gone; the keys and values it pointed to are not.
\<close>

definition free_buckets :: "'v hashmap \<Rightarrow> (int \<times> 'v option) list" where
  "free_buckets hm = concat (map (\<lambda>i. buckets hm ! i) [0..<num_buckets hm])"

definition hashmap_free :: "'v hashmap \<Rightarrow> (int \<times> 'v option) list" where
  "hashmap_free hm = free_buckets hm"

text \<open>
  The representation invariant of every map the program makes (all are made with
  \<^verbatim>\<open>hashmap_new(NUM_BUCKETS, myhash, compare)\<close>): each chain holds keys of its own
  bucket, each at most once, and the size field counts at least the pairs present.
\<close>

definition hm_pairs :: "'v hashmap \<Rightarrow> nat" where
  "hm_pairs hm = sum_list (map length (buckets hm))"

definition hm_ok :: "'v hashmap \<Rightarrow> bool" where
  "hm_ok hm \<longleftrightarrow>
     0 < num_buckets hm \<and> length (buckets hm) = num_buckets hm \<and>
     compare_fn hm = compare \<and>
     (\<forall>b < num_buckets hm. distinct (map fst (buckets hm ! b)) \<and>
        (\<forall>k \<in> fst ` set (buckets hm ! b). get_bucket hm k = b))"

text \<open>A client's sequence of calls, on the hash map and on the abstract map.\<close>

datatype 'v hm_op = Set int 'v | Delete int

primrec hm_step :: "'v hashmap \<Rightarrow> 'v hm_op \<Rightarrow> 'v hashmap" where
  "hm_step hm (Set k v) = snd (hashmap_set True hm k (Some v))"
| "hm_step hm (Delete k) = snd (hashmap_delete hm k)"

primrec map_step :: "(int \<rightharpoonup> 'v) \<Rightarrow> 'v hm_op \<Rightarrow> (int \<rightharpoonup> 'v)" where
  "map_step m (Set k v) = m(k \<mapsto> v)"
| "map_step m (Delete k) = m(k := None)"

definition is_set :: "'v hm_op \<Rightarrow> bool" where
  "is_set opn = (case opn of Set k v \<Rightarrow> True | Delete k \<Rightarrow> False)"

subsection \<open>The interface: a key-value store\<close>

text \<open>
  What the clients of the map rely on (\<^verbatim>\<open>set_node_id\<close>, \<^verbatim>\<open>hashmap_serialize\<close>,
  \<^verbatim>\<open>reconstruct_root\<close>, the index access method).
\<close>

locale kv_store =
  fixes inv :: "'s \<Rightarrow> bool"
    and lookup :: "'s \<Rightarrow> 'k \<Rightarrow> 'v option"
    and store :: "'s \<Rightarrow> 'k \<Rightarrow> 'v \<Rightarrow> 's"
    and remove :: "'s \<Rightarrow> 'k \<Rightarrow> 's"
  assumes inv_store: "inv s \<Longrightarrow> inv (store s k v)"
    and inv_remove: "inv s \<Longrightarrow> inv (remove s k)"
    and lookup_store: "inv s \<Longrightarrow> lookup (store s k v) k' = (if k' = k then Some v else lookup s k')"
    and lookup_remove: "inv s \<Longrightarrow> lookup (remove s k) k' = (if k' = k then None else lookup s k')"
begin

lemma inv_store_all: "inv s \<Longrightarrow> inv (foldl (\<lambda>s kv. store s (fst kv) (snd kv)) s kvs)"
  by (induction kvs arbitrary: s) (simp_all add: inv_store)

text \<open>A sequence of stores: the last value stored under a key wins.\<close>

lemma lookup_store_all:
  "inv s \<Longrightarrow> lookup (foldl (\<lambda>s kv. store s (fst kv) (snd kv)) s kvs) k =
     (case map_of (rev kvs) k of Some v \<Rightarrow> Some v | None \<Rightarrow> lookup s k)"
proof (induction kvs arbitrary: s)
  case Nil
  then show ?case by simp
next
  case (Cons kv kvs)
  have "lookup (foldl (\<lambda>s kv. store s (fst kv) (snd kv)) (store s (fst kv) (snd kv)) kvs) k =
     (case map_of (rev kvs) k of Some v \<Rightarrow> Some v | None \<Rightarrow> lookup (store s (fst kv) (snd kv)) k)"
    using Cons by (simp add: inv_store)
  then show ?case
    using Cons.prems by (cases kv) (simp add: map_add_def lookup_store split: option.splits)
qed

lemma lookup_remove_store:
  "inv s \<Longrightarrow> lookup s k = None \<Longrightarrow> lookup (remove (store s k v) k) = lookup s"
  by (rule ext) (simp add: lookup_remove lookup_store inv_store)

end

subsection \<open>Chains\<close>

lemma chain_pos_le: "chain_pos cmp ch key \<le> length ch"
  by (induction cmp ch key rule: chain_pos.induct) auto

lemma compare_iff [simp]: "compare a b \<longleftrightarrow> a = b"
  by (auto simp: compare_def)

lemma chain_pos_missing: "chain_pos compare ch key = length ch \<longleftrightarrow> key \<notin> fst ` set ch"
  by (induction ch) (auto split: if_splits)

lemma chain_pos_present:
  "chain_pos compare ch key < length ch \<Longrightarrow> fst (ch ! chain_pos compare ch key) = key"
  by (induction ch) auto

lemma chain_lookup:
  "(if chain_pos compare ch key = length ch then None
    else snd (ch ! chain_pos compare ch key)) =
   (case map_of ch key of None \<Rightarrow> None | Some v \<Rightarrow> v)"
  by (induction ch) (auto split: if_splits)

lemma chain_set_lookup:
  assumes "chain_pos compare ch key < length ch"
  shows "map_of (ch[chain_pos compare ch key := (key, v)]) = (map_of ch)(key \<mapsto> v)"
  using assms by (induction ch) (auto simp: fun_upd_twist)

lemma chain_set_keys:
  assumes "chain_pos compare ch key < length ch"
  shows "map fst (ch[chain_pos compare ch key := (key, v)]) = map fst ch"
  using assms by (induction ch) auto

lemma chain_del_lookup:
  assumes "distinct (map fst ch)"
  shows "map_of (take (chain_pos compare ch key) ch @ drop (Suc (chain_pos compare ch key)) ch) =
           (map_of ch)(key := None)"
  using assms
proof (induction ch)
  case Nil
  then show ?case by simp
next
  case (Cons p ch)
  obtain k v where p: "p = (k, v)" by fastforce
  show ?case
  proof (cases "k = key")
    case True
    with Cons.prems p have "map_of ch key = None" by (simp add: map_of_eq_None_iff)
    with True p show ?thesis by (auto simp: fun_eq_iff)
  next
    case False
    with Cons p show ?thesis by (auto simp: fun_eq_iff)
  qed
qed

subsection \<open>The operations on the whole map\<close>

lemma hashmap_get_chain:
  assumes "hm_ok hm"
  shows "hashmap_get hm key =
           (case map_of (buckets hm ! get_bucket hm key) key of None \<Rightarrow> None | Some v \<Rightarrow> v)"
  using assms
  by (simp add: hashmap_get_def get_pair_ptr_def hm_ok_def Let_def flip: chain_lookup)

lemma get_bucket_less: "hm_ok hm \<Longrightarrow> get_bucket hm key < num_buckets hm"
  by (simp add: hm_ok_def get_bucket_def)

lemma get_bucket_upd [simp]:
  "get_bucket (hm\<lparr>buckets := bs\<rparr>) key = get_bucket hm key"
  "get_bucket (hm\<lparr>hm_size := n\<rparr>) key = get_bucket hm key"
  by (simp_all add: get_bucket_def)

text \<open>Replacing the chain of one bucket: all three mutators have this shape.\<close>

lemma hm_ok_upd_bucket:
  assumes "hm_ok hm" and "b < num_buckets hm"
    and "distinct (map fst ch)" and "\<And>k. k \<in> fst ` set ch \<Longrightarrow> get_bucket hm k = b"
  shows "hm_ok (hm\<lparr>buckets := (buckets hm)[b := ch]\<rparr>)"
  using assms by (auto simp: hm_ok_def nth_list_update)

lemma hashmap_get_upd_bucket:
  assumes "hm_ok hm" and "hm_ok (hm\<lparr>buckets := (buckets hm)[get_bucket hm key := ch]\<rparr>)"
    and "\<And>k. k \<noteq> key \<Longrightarrow> map_of ch k = map_of (buckets hm ! get_bucket hm key) k"
  shows "hashmap_get (hm\<lparr>buckets := (buckets hm)[get_bucket hm key := ch]\<rparr>) k =
     (if k = key then (case map_of ch key of None \<Rightarrow> None | Some v \<Rightarrow> v) else hashmap_get hm k)"
proof -
  have "get_bucket hm key < length (buckets hm)"
    using get_bucket_less [OF assms(1)] assms(1) by (simp add: hm_ok_def)
  then show ?thesis
    using assms by (auto simp: hashmap_get_chain nth_list_update)
qed

lemma hm_ok_size [simp]: "hm_ok (hm\<lparr>hm_size := n\<rparr>) = hm_ok hm"
  by (simp add: hm_ok_def)

lemma hashmap_get_size [simp]: "hashmap_get (hm\<lparr>hm_size := n\<rparr>) k = hashmap_get hm k"
  by (simp add: hashmap_get_def get_pair_ptr_def Let_def)

lemma hm_ok_new: "0 < n \<Longrightarrow> hashmap_new True True n h compare = Some hm \<Longrightarrow> hm_ok hm"
  by (auto simp: hashmap_new_def hm_ok_def init_buckets_def get_bucket_def)

lemma hashmap_get_new:
  "0 < n \<Longrightarrow> hashmap_new True True n h c = Some hm \<Longrightarrow> hashmap_get hm k = None"
  by (auto simp: hashmap_new_def hashmap_get_def get_pair_ptr_def get_bucket_def
      init_buckets_def Let_def)

lemma hashmap_set_ok_get:
  assumes "hm_ok hm"
  shows "hm_ok (snd (hashmap_set True hm key v))"
    and "hashmap_get (snd (hashmap_set True hm key v)) k = (if k = key then v else hashmap_get hm k)"
proof -
  define b where "b = get_bucket hm key"
  define ch where "ch = buckets hm ! b"
  define j where "j = chain_pos compare ch key"
  note defs = b_def [symmetric] ch_def [symmetric] j_def [symmetric]
  have cmp: "compare_fn hm = compare" and b: "b < num_buckets hm"
    and dist: "distinct (map fst ch)" and own: "\<And>k. k \<in> fst ` set ch \<Longrightarrow> get_bucket hm k = b"
    using assms get_bucket_less [OF assms, of key] by (auto simp: hm_ok_def b_def ch_def)
  have ptr: "get_pair_ptr hm key = (b, j)"
    by (simp add: get_pair_ptr_def Let_def cmp defs)
  define ch' where "ch' = (if j = length ch then ch @ [(key, v)] else ch[j := (key, v)])"
  have keys: "set (map fst ch') = insert key (fst ` set ch) \<and> distinct (map fst ch')"
  proof (cases "j = length ch")
    case True
    then show ?thesis
      using dist chain_pos_missing [of ch key] by (auto simp: ch'_def j_def)
  next
    case False
    then have "j < length ch" using chain_pos_le [of compare ch key] by (simp add: j_def)
    then show ?thesis
      using dist chain_set_keys [of ch key v] chain_pos_missing [of ch key]
      by (auto simp: ch'_def j_def)
  qed
  have lookup: "map_of ch' = (map_of ch)(key \<mapsto> v)"
  proof (cases "j = length ch")
    case True
    then have "map_of ch key = None"
      using chain_pos_missing [of ch key] by (simp add: j_def map_of_eq_None_iff)
    with True show ?thesis
      by (auto simp: ch'_def fun_eq_iff map_add_def split: option.splits)
  next
    case False
    then have "j < length ch" using chain_pos_le [of compare ch key] by (simp add: j_def)
    then show ?thesis using chain_set_lookup [of ch key v] by (simp add: ch'_def j_def)
  qed
  have ok: "hm_ok (hm\<lparr>buckets := (buckets hm)[b := ch']\<rparr>)"
    using keys own by (intro hm_ok_upd_bucket [OF assms b]) (auto simp: b_def)
  have get: "hashmap_get (hm\<lparr>buckets := (buckets hm)[b := ch']\<rparr>) k =
      (if k = key then v else hashmap_get hm k)"
    using hashmap_get_upd_bucket [OF assms, of key ch' k] ok lookup
    by (simp add: defs)
  have fst_j: "j \<noteq> length ch \<Longrightarrow> fst (ch ! j) = key"
    using chain_pos_present [of ch key] chain_pos_le [of compare ch key] by (simp add: j_def)
  have set: "snd (hashmap_set True hm key v) = hm\<lparr>buckets := (buckets hm)[b := ch'],
      hm_size := (if j = length ch then int32 (hm_size hm + 1) else hm_size hm)\<rparr>"
    by (cases "j = length ch")
      (simp_all add: hashmap_set_def ptr pair_new_def ch'_def ch_def [symmetric] fst_j)
  show "hm_ok (snd (hashmap_set True hm key v))"
    and "hashmap_get (snd (hashmap_set True hm key v)) k = (if k = key then v else hashmap_get hm k)"
    using ok get set by auto
qed

lemma hashmap_delete_ok_get:
  assumes "hm_ok hm"
  shows "hm_ok (snd (hashmap_delete hm key))"
    and "hashmap_get (snd (hashmap_delete hm key)) k = (if k = key then None else hashmap_get hm k)"
    and "fst (hashmap_delete hm key) = hashmap_get hm key"
proof -
  define b where "b = get_bucket hm key"
  define ch where "ch = buckets hm ! b"
  define j where "j = chain_pos compare ch key"
  note defs = b_def [symmetric] ch_def [symmetric] j_def [symmetric]
  have cmp: "compare_fn hm = compare" and b: "b < num_buckets hm"
    and dist: "distinct (map fst ch)" and own: "\<And>k. k \<in> fst ` set ch \<Longrightarrow> get_bucket hm k = b"
    using assms get_bucket_less [OF assms, of key] by (auto simp: hm_ok_def b_def ch_def)
  have ptr: "get_pair_ptr hm key = (b, j)"
    by (simp add: get_pair_ptr_def Let_def cmp defs)
  define ch' where "ch' = take j ch @ drop (Suc j) ch"
  have lookup: "map_of ch' = (map_of ch)(key := None)"
    using chain_del_lookup [OF dist, of key] by (simp add: ch'_def j_def)
  have sub: "set ch' \<subseteq> set ch"
    by (auto simp: ch'_def dest: in_set_takeD in_set_dropD)
  have "distinct (take j (map fst ch) @ drop (Suc j) (map fst ch))"
    using dist set_take_disj_set_drop_if_distinct [of "map fst ch" j "Suc j"] by simp
  then have "distinct (map fst ch')" by (simp add: ch'_def take_map drop_map)
  then have ok: "hm_ok (hm\<lparr>buckets := (buckets hm)[b := ch']\<rparr>)"
    using sub own by (intro hm_ok_upd_bucket [OF assms b]) auto
  have get: "hashmap_get (hm\<lparr>buckets := (buckets hm)[b := ch']\<rparr>) k =
      (if k = key then None else hashmap_get hm k)"
    using hashmap_get_upd_bucket [OF assms, of key ch' k] ok lookup by (simp add: defs)
  have del: "snd (hashmap_delete hm key) = hm\<lparr>buckets := (buckets hm)[b := ch']\<rparr>"
    by (cases "j = length ch") (simp_all add: hashmap_delete_def ptr ch'_def ch_def [symmetric],
        simp add: ch_def list_update_id)
  show "hm_ok (snd (hashmap_delete hm key))"
    and "hashmap_get (snd (hashmap_delete hm key)) k = (if k = key then None else hashmap_get hm k)"
    using ok get del by simp_all
  show "fst (hashmap_delete hm key) = hashmap_get hm key"
    by (simp add: hashmap_delete_def hashmap_get_def ptr ch_def [symmetric])
qed

interpretation hm: kv_store hm_ok hashmap_get
  "\<lambda>hm k v. snd (hashmap_set True hm k (Some v))" "\<lambda>hm k. snd (hashmap_delete hm k)"
  by unfold_locales (simp_all add: hashmap_set_ok_get hashmap_delete_ok_get)

subsection \<open>Sequences of calls\<close>

lemma hm_run:
  "hm_ok hm \<Longrightarrow> hm_ok (foldl hm_step hm ops) \<and>
     hashmap_get (foldl hm_step hm ops) = foldl map_step (hashmap_get hm) ops"
proof (induction ops arbitrary: hm)
  case Nil
  then show ?case by simp
next
  case (Cons opn ops)
  have ok: "hm_ok (hm_step hm opn)"
    using Cons.prems by (cases opn) (simp_all add: hm.inv_store hm.inv_remove)
  have "hashmap_get (hm_step hm opn) = map_step (hashmap_get hm) opn"
    using Cons.prems by (cases opn) (auto simp: fun_eq_iff hm.lookup_store hm.lookup_remove)
  with Cons.IH [OF ok] show ?case by simp
qed

text \<open>
  C16. The hash map refines the abstract map: after any sequence of \<^verbatim>\<open>hashmap_set\<close> and
  \<^verbatim>\<open>hashmap_delete\<close> calls on a map made by
  \<^verbatim>\<open>hashmap_new(NUM_BUCKETS, myhash, compare)\<close>, a lookup of every key returns what the
  same calls on a mathematical map give (no key is lost to a hash collision, and a
  deletion unlinks only its own pair).
\<close>

theorem hashmap_refines_map:
  assumes "hashmap_new True True NUM_BUCKETS myhash compare = Some hm"
  shows "hashmap_get (foldl hm_step hm ops) k = foldl map_step (\<lambda>_. None) ops k"
proof -
  have "hm_ok hm" using assms by (rule hm_ok_new [rotated]) (simp add: NUM_BUCKETS_def)
  moreover have "hashmap_get hm = (\<lambda>_. None)"
    using hashmap_get_new [OF _ assms] by (simp add: NUM_BUCKETS_def fun_eq_iff)
  ultimately show ?thesis using hm_run [of hm ops] by simp
qed

lemma hashmap_set_size:
  assumes "hm_ok hm" and "hm_size hm = int32 (int (hm_pairs hm))"
  shows "hm_size (snd (hashmap_set True hm k v)) = int32 (int (hm_pairs (snd (hashmap_set True hm k v))))"
    and "hm_pairs (snd (hashmap_set True hm k v)) \<le> Suc (hm_pairs hm)"
proof -
  define b where "b = get_bucket hm k"
  have b: "b < length (buckets hm)"
    using get_bucket_less [OF assms(1), of k] assms by (simp add: b_def hm_ok_def)
  have upd: "sum_list (map length ((buckets hm)[b := ch])) + length (buckets hm ! b) =
      sum_list (map length (buckets hm)) + length ch" for ch
    using b sum_list_update [of b "map length (buckets hm)" "length ch"]
      member_le_sum_list [of "length (buckets hm ! b)" "map length (buckets hm)"]
    by (simp add: map_update)
  have "hm_size (snd (hashmap_set True hm k v)) = int32 (hm_size hm + 1) \<and>
      hm_pairs (snd (hashmap_set True hm k v)) = Suc (hm_pairs hm) \<or>
    hm_size (snd (hashmap_set True hm k v)) = hm_size hm \<and> hm_pairs (snd (hashmap_set True hm k v)) = hm_pairs hm"
    using upd [of "(buckets hm ! b) @ [(k, v)]"]
      upd [of "(buckets hm ! b)[snd (get_pair_ptr hm k) := (fst (buckets hm ! b ! snd (get_pair_ptr hm k)), v)]"]
    by (auto simp: hashmap_set_def get_pair_ptr_def Let_def hm_pairs_def pair_new_def b_def)
  then show "hm_size (snd (hashmap_set True hm k v)) = int32 (int (hm_pairs (snd (hashmap_set True hm k v))))"
    and "hm_pairs (snd (hashmap_set True hm k v)) \<le> Suc (hm_pairs hm)"
    using assms(2) int32_add [of "int (hm_pairs hm)" 1] by (auto simp: add.commute)
qed

lemma hashmap_set_all_size:
  "hm_ok hm \<Longrightarrow> hm_size hm = int32 (int (hm_pairs hm)) \<Longrightarrow> list_all is_set ops \<Longrightarrow>
     hm_size (foldl hm_step hm ops) = int32 (int (hm_pairs (foldl hm_step hm ops))) \<and>
     hm_pairs (foldl hm_step hm ops) \<le> hm_pairs hm + length ops"
proof (induction ops arbitrary: hm)
  case (Cons opn ops)
  from Cons.prems obtain k v where "opn = Set k v" by (cases opn) (simp_all add: is_set_def)
  with Cons.prems Cons.IH [of "hm_step hm opn"] show ?case
    using hashmap_set_size [of hm k "Some v"] hm.inv_store [of hm k v] by force
qed simp

lemma hashmap_delete_size: "hm_size (snd (hashmap_delete hm k)) = hm_size hm"
  by (simp add: hashmap_delete_def Let_def split: prod.splits)

text \<open>
  C17. As long as a map is only written with \<^verbatim>\<open>hashmap_set\<close> and every allocation succeeds, its
  \<^verbatim>\<open>size\<close> field is the number of pairs in its buckets, which is the count \<^verbatim>\<open>hashmap_serialize\<close>
  writes, reduced to the range of an \<^verbatim>\<open>int\<close>; it is the number itself after fewer than \<open>2 ^ 31\<close> calls.
\<close>

theorem hashmap_size_counts_pairs:
  assumes "hashmap_new True True NUM_BUCKETS myhash compare = Some hm"
    and "list_all is_set ops"
  shows "hm_size (foldl hm_step hm ops) = int32 (int (hm_pairs (foldl hm_step hm ops))) \<and>
    (length ops < 2 ^ 31 \<longrightarrow> hm_size (foldl hm_step hm ops) = int (hm_pairs (foldl hm_step hm ops)))"
proof -
  have "hm_ok hm" using assms(1) by (rule hm_ok_new [rotated]) (simp add: NUM_BUCKETS_def)
  moreover have "hm_size hm = 0" "hm_pairs hm = 0"
    using assms(1) by (auto simp: hashmap_new_def hm_pairs_def init_buckets_def map_replicate_const)
  ultimately show ?thesis
    using hashmap_set_all_size [of hm ops] assms(2) by (auto simp: in_int32_def)
qed

text \<open>
  The \<^verbatim>\<open>size\<close> field is not decremented by \<^verbatim>\<open>hashmap_delete\<close>: deleting the only pair
  leaves the size at 1.
\<close>

lemma hashmap_delete_keeps_size:
  "\<exists>hm. hashmap_new True True NUM_BUCKETS myhash compare = Some hm \<and>
     (let hm' = foldl hm_step hm [Set 7 (0::nat), Delete 7] in hm_pairs hm' = 0 \<and> hm_size hm' = 1)"
  by (simp add: hashmap_new_def NUM_BUCKETS_def Let_def hashmap_set_def hashmap_delete_def
      get_pair_ptr_def get_bucket_def myhash_def c_rem_def init_buckets_def pair_new_def
      hm_pairs_def upt_rec numeral_2_eq_2 upt_conv_Cons int32_def)

subsection \<open>Concrete instances\<close>

definition empty_map :: "nat hashmap" where
  "empty_map = the (hashmap_new True True NUM_BUCKETS myhash compare)"

lemma empty_map_new: "hashmap_new True True NUM_BUCKETS myhash compare = Some empty_map"
  by (simp add: empty_map_def hashmap_new_def)

theorem hashmap_refines_map_witness:
  "hashmap_new True True NUM_BUCKETS myhash compare = Some empty_map \<and>
   hashmap_get (foldl hm_step empty_map [Set 3 30, Set 19 190, Delete 3, Set (-5) 50]) 19 = Some 190"
  using hashmap_refines_map [OF empty_map_new, of "[Set 3 30, Set 19 190, Delete 3, Set (-5) 50]" 19]
    empty_map_new by simp

theorem hashmap_size_counts_pairs_witness:
  "hm_size (foldl hm_step empty_map [Set 3 30, Set 19 190, Set 3 31]) =
     int (hm_pairs (foldl hm_step empty_map [Set 3 30, Set 19 190, Set 3 31]))"
  using hashmap_size_counts_pairs [OF empty_map_new, of "[Set 3 30, Set 19 190, Set 3 31]"]
  by (simp add: is_set_def)

end
