(* ===== verification/MBT_Store.thy ===== *)
theory MBT_Store
  imports MBT_Hash Hashmap
begin

text \<open>
  Node numbers and the tree file: \<^verbatim>\<open>set_node_id\<close> and \<^verbatim>\<open>bplus_tree_store\<close> of
  \<^verbatim>\<open>src/backend/mbt/mbtree.c\<close>. The loops over the nodes of a level end when they meet
  the head of its list again; they carry fuel, since a list that never leads back to
  its head makes them run forever. A vector of child numbers is the list of its
  elements: \<^verbatim>\<open>vector_push_back\<close> appends and \<^verbatim>\<open>vector_get\<close> reads below the size.
\<close>

subsection \<open>Walking along a level\<close>

text \<open>
  \<open>body\<close> at the node \<open>p\<close>, then at its successors in the list \<open>i\<close>. The successor is
  taken after the body has run.
\<close>

primrec for_each_node ::
    "nat \<Rightarrow> nat \<Rightarrow> (ptr \<Rightarrow> 'a \<Rightarrow> heap \<Rightarrow> ('a \<times> heap) option) \<Rightarrow> ptr \<Rightarrow> 'a \<Rightarrow> heap \<Rightarrow> ('a \<times> heap) option" where
  "for_each_node 0 i body p a s = None"
| "for_each_node (Suc fuel) i body p a s =
     do { (a, s) \<leftarrow> body p a s;
          h \<leftarrow> get_link s (Link p);
          if next h = Head i then Some (a, s)
          else do { q \<leftarrow> list_entry (next h); for_each_node fuel i body q a s } }"

text \<open>\<^verbatim>\<open>(bplus_leaf* )((char* )(tree->list[i].next) - offset)\<close>\<close>

definition first_node :: "nat \<Rightarrow> heap \<Rightarrow> ptr option" where
  "first_node i s = do { h \<leftarrow> get_link s (Head i); list_entry (next h) }"

subsection \<open>Node numbers\<close>

text \<open>The bodies of the two loops of the first step of \<^verbatim>\<open>set_node_id\<close>; \<open>nid\<close> counts up along the level.\<close>

definition number_leaf :: "ptr \<Rightarrow> int \<Rightarrow> heap \<Rightarrow> (int \<times> heap) option" where
  "number_leaf p nid s =
     do { leaf \<leftarrow> get_leaf s p;
          leaf \<leftarrow> (case parent leaf of
                    None \<Rightarrow> Some (leaf\<lparr>lnode_id := nid\<rparr>)
                  | Some q \<Rightarrow> do { par \<leftarrow> get_non_leaf s q;
                                  Some (leaf\<lparr>lnode_id := nid, lparent_id := nnode_id par\<rparr>) });
          Some (nid + 1, put_leaf p leaf s) }"

definition number_non_leaf :: "ptr \<Rightarrow> int \<Rightarrow> heap \<Rightarrow> (int \<times> heap) option" where
  "number_non_leaf p nid s =
     do { non_leaf \<leftarrow> get_non_leaf s p;
          let non_leaf = non_leaf\<lparr>nnode_id := nid\<rparr>;
          let s = put_non_leaf p non_leaf s;
          case parent non_leaf of
            None \<Rightarrow> Some (nid + 1, s)
          | Some q \<Rightarrow> do { par \<leftarrow> get_non_leaf s q;
                          Some (nid + 1, put_non_leaf p (non_leaf\<lparr>nparent_id := nnode_id par\<rparr>) s) } }"

definition number_level :: "nat \<Rightarrow> int \<Rightarrow> heap \<Rightarrow> heap option" where
  "number_level fuel i s =
     do { p \<leftarrow> first_node (nat i) s;
          (nid, s) \<leftarrow> for_each_node fuel (nat i) (if i = 0 then number_leaf else number_non_leaf) p 0 s;
          Some s }"

text \<open>The numbers of the children of a non-leaf on level \<open>i\<close>.\<close>

definition child_ids :: "int \<Rightarrow> bplus_non_leaf \<Rightarrow> heap \<Rightarrow> int list option" where
  "child_ids i non_leaf s = for_up 0 (count non_leaf)
     (\<lambda>j children_id. do {
        c \<leftarrow> aget (sub_ptr non_leaf) j;
        q \<leftarrow> c;
        value1 \<leftarrow> (if i > 1 then map_option nnode_id (get_non_leaf s q) else map_option lnode_id (get_leaf s q));
        Some (children_id @ [value1]) }) []"

type_synonym id_maps = "int list hashmap list"

text \<open>
  One node of the second step: the map of its level gets the numbers of its children, and its
  number is marked. On level 1 the entry of node 0 is read back through the pointer.
\<close>

definition map_children ::
    "int \<Rightarrow> ptr \<Rightarrow> id_maps \<times> int list list \<Rightarrow> heap \<Rightarrow> ((id_maps \<times> int list list) \<times> heap) option" where
  "map_children i p st s =
     do { non_leaf \<leftarrow> get_non_leaf s p;
          children_id \<leftarrow> child_ids i non_leaf s;
          hm \<leftarrow> aget (fst st) i;
          hashp \<leftarrow> aput (fst st) i (snd (hashmap_set True hm (nnode_id non_leaf) (Some children_id)));
          row \<leftarrow> aget (snd st) i;
          row \<leftarrow> aput row (nnode_id non_leaf) 1;
          temp_node_id \<leftarrow> aput (snd st) i row;
          (if i = 1 \<and> nnode_id non_leaf = 0 then
             do { hm \<leftarrow> aget hashp 1; pv \<leftarrow> hashmap_get hm 0; Some ((hashp, temp_node_id), s) }
           else Some ((hashp, temp_node_id), s)) }"

definition set_node_id ::
    "nat \<Rightarrow> id_maps \<Rightarrow> int list list \<Rightarrow> heap \<Rightarrow> (id_maps \<times> int list list \<times> heap) option" where
  "set_node_id fuel hashp temp_node_id s =
     do { s \<leftarrow> for_down (level (tree s)) (-1) (number_level fuel) s;
          ((hashp, temp_node_id), s) \<leftarrow> for_up 1 (level (tree s) + 1)
            (\<lambda>i (st, s). do { p \<leftarrow> first_node (nat i) s; for_each_node fuel (nat i) (map_children i) p st s })
            ((hashp, temp_node_id), s);
          Some (hashp, temp_node_id, s) }"

subsection \<open>The tree file\<close>

text \<open>
  \<^verbatim>\<open>pwrite\<close> and \<^verbatim>\<open>pread\<close> on the contents of the file. A write beyond the end fills the gap
  with zeros, a read stops at the end of the file.
\<close>

definition pwrite :: "byte list \<Rightarrow> byte list \<Rightarrow> int \<Rightarrow> byte list" where
  "pwrite file buf off =
     (if off < 0 then file
      else let n = nat off in take n (file @ replicate (n - length file) 0) @ buf @ drop (n + length buf) file)"

text \<open>
  \<open>store_leaves\<close> and \<open>store_non_leaves\<close> are the loops over one level: \<open>child_count\<close> is the number of
  children of the current parent, \<open>children_number\<close> the index of the current node under it. The state
  is the page buffer, which keeps the bytes of earlier nodes, and the file.
\<close>

primrec store_leaves ::
    "nat \<Rightarrow> ptr \<Rightarrow> int \<Rightarrow> int \<Rightarrow> byte list \<times> byte list \<Rightarrow> heap \<Rightarrow> ((byte list \<times> byte list) \<times> heap) option" where
  "store_leaves 0 p child_count children_number st s = None"
| "store_leaves (Suc fuel) p child_count children_number st s =
     do { node \<leftarrow> get_leaf s p;
          buffer \<leftarrow> bplus_leaf_serialize (items s) node (fst st);
          let file = pwrite (snd st) buffer (offset (tree s));
          s \<leftarrow> (case parent node of
                  None \<Rightarrow> Some s
                | Some q \<Rightarrow> do { par \<leftarrow> get_non_leaf s q;
                                os \<leftarrow> aput (chindrenoffset par) children_number (offset (tree s));
                                Some (put_non_leaf q (par\<lparr>chindrenoffset := os\<rparr>) s) });
          let children_number = children_number + 1;
          let s = s\<lparr>tree := (tree s)\<lparr>offset := offset (tree s) + int PAGESIZE\<rparr>\<rparr>;
          k \<leftarrow> get_link s (Link p);
          if next k = Head 0 then Some ((buffer, file), s)
          else do {
            p \<leftarrow> list_entry (next k);
            node \<leftarrow> get_leaf s p;
            if children_number \<ge> child_count then
              do { child_count \<leftarrow> (case parent node of
                                    None \<Rightarrow> Some child_count
                                  | Some q \<Rightarrow> map_option count (get_non_leaf s q));
                   store_leaves fuel p child_count 0 (buffer, file) s }
            else store_leaves fuel p child_count children_number (buffer, file) s } }"

primrec store_non_leaves ::
    "nat \<Rightarrow> nat \<Rightarrow> ptr \<Rightarrow> int \<Rightarrow> int \<Rightarrow> byte list \<times> byte list \<Rightarrow> heap \<Rightarrow> ((byte list \<times> byte list) \<times> heap) option" where
  "store_non_leaves 0 i p child_count children_number st s = None"
| "store_non_leaves (Suc fuel) i p child_count children_number st s =
     do { non_leaf \<leftarrow> get_non_leaf s p;
          buffer \<leftarrow> bplus_non_leaf_serialize non_leaf (fst st);
          let file = pwrite (snd st) buffer (offset (tree s));
          s \<leftarrow> (case parent non_leaf of
                  None \<Rightarrow> Some s
                | Some q \<Rightarrow> do { par \<leftarrow> get_non_leaf s q;
                                os \<leftarrow> aput (chindrenoffset par) children_number (offset (tree s));
                                Some (put_non_leaf q (par\<lparr>chindrenoffset := os\<rparr>) s) });
          let children_number = children_number + 1;
          let s = s\<lparr>tree := (tree s)\<lparr>offset := offset (tree s) + int PAGESIZE\<rparr>\<rparr>;
          k \<leftarrow> get_link s (Link p);
          if next k = Head i then Some ((buffer, file), s)
          else do {
            p \<leftarrow> list_entry (next k);
            non_leaf \<leftarrow> get_non_leaf s p;
            if children_number = child_count then
              do { child_count \<leftarrow> (case parent non_leaf of
                                    None \<Rightarrow> Some child_count
                                  | Some q \<Rightarrow> map_option count (get_non_leaf s q));
                   store_non_leaves fuel i p child_count 0 (buffer, file) s }
            else store_non_leaves fuel i p child_count children_number (buffer, file) s } }"

definition store_level ::
    "nat \<Rightarrow> int \<Rightarrow> (int \<times> byte list \<times> byte list) \<times> heap \<Rightarrow> ((int \<times> byte list \<times> byte list) \<times> heap) option" where
  "store_level fuel i st =
     (case st of ((root_offset, buffer, file), s) \<Rightarrow>
        do { let root_offset = (if i = level (tree s) then offset (tree s) else root_offset);
             p \<leftarrow> first_node (nat i) s;
             nd \<leftarrow> get_node s p;
             child_count \<leftarrow> (case parent nd of
                               None \<Rightarrow> Some 0
                             | Some q \<Rightarrow> map_option count (get_non_leaf s q));
             ((buffer, file), s) \<leftarrow>
               (if i = 0 then store_leaves fuel p child_count 0 (buffer, file) s
                else store_non_leaves fuel (nat i) p child_count 0 (buffer, file) s);
             Some ((root_offset, buffer, file), s) })"

definition bplus_tree_store :: "nat \<Rightarrow> byte list \<Rightarrow> heap \<Rightarrow> (int \<times> byte list \<times> heap) option" where
  "bplus_tree_store fuel file s =
     do { ((root_offset, buffer, file), s) \<leftarrow>
            for_up 0 (level (tree s) + 1) (store_level fuel) ((0, replicate PAGESIZE 0, file), s);
          Some (root_offset, file, s) }"

end
