(* ===== verification/MBT_Vo.thy ===== *)
theory MBT_Vo
  imports MBT_Store
begin

text \<open>
  Verification objects: the structure \<^verbatim>\<open>rangevo\<close> that a range query returns, its byte image,
  the byte image of the maps of child numbers, and \<^verbatim>\<open>reconstruct_root\<close>, which recomputes the
  root hash from both (\<^verbatim>\<open>src/backend/mbt/mbtree.c\<close>).

  The vectors of the structure are the lists of their elements: \<^verbatim>\<open>vector_setup\<close> makes an empty one,
  \<^verbatim>\<open>vector_push_back\<close> appends, \<^verbatim>\<open>vector_get\<close> fails its assertion outside the size. An element of \<^verbatim>\<open>nhash\<close>
  is a block of 33 bytes, an element of \<^verbatim>\<open>data\<close> the vector of the strings of one leaf. Blocks that
  the code frees are not tracked.
\<close>

text \<open>
  A vector copies as many bytes as its elements have, whatever the object at the address it is given. Some
  calls pass the address of a pointer, an object of 8 bytes, to a vector with larger elements, and look only
  at the first 8 bytes of the element afterwards. Such a copy reads past the object, which is a fault, unless
  the memory behind the object happens to be readable: this is the argument \<open>beyond\<close>.
\<close>

definition push_object :: "bool \<Rightarrow> nat \<Rightarrow> nat \<Rightarrow> 'a list \<Rightarrow> 'a \<Rightarrow> 'a list option" where
  "push_object beyond element_size object_size xs x =
     (if element_size \<le> object_size \<or> beyond then Some (xs @ [x]) else None)"

definition sizeof_pointer :: nat where
  "sizeof_pointer = 8"

definition sizeof_pgvector :: nat where
  "sizeof_pgvector = 32"

subsection \<open>The structure\<close>

record nodevo =
  node_id :: int
  bound_node_childno :: int
  nhash :: "byte list list"

record rangevo =
  traverse_height :: int
  leftvo :: "nodevo list"
  rightvo :: "nodevo list"
  data :: "byte list list list"
  itemdata :: "ItemPointerData list"
  vo_hashmap :: "byte list"
  mbtree_size :: int

text \<open>
  \<^verbatim>\<open>rangevo_init\<close> sets the vectors of the ten levels up; it leaves the numbers of the levels as they were. A
  negative size, as an overflow makes it, is more than \<^verbatim>\<open>malloc\<close> grants, and \<^verbatim>\<open>memset\<close> writes to the null pointer.
\<close>

definition rangevo_init :: "rangevo \<Rightarrow> int \<Rightarrow> rangevo option" where
  "rangevo_init vo hashmap_size =
     (if hashmap_size < 0 then None else Some (vo\<lparr>leftvo := map (\<lambda>v. v\<lparr>nhash := []\<rparr>) (leftvo vo), rightvo := map (\<lambda>v. v\<lparr>nhash := []\<rparr>) (rightvo vo),
        traverse_height := 0, data := [], itemdata := [], vo_hashmap := replicate (nat hashmap_size) 0,
        mbtree_size := c_div hashmap_size 8192\<rparr>))"

subsection \<open>The byte image of a verification object\<close>

text \<open>One level: its numbers, the number of hashes, and 32 bytes of each.\<close>

definition emit_nodevo :: "nodevo \<Rightarrow> nat \<times> byte list \<Rightarrow> (nat \<times> byte list) option" where
  "emit_nodevo v st =
     do { st \<leftarrow> emit (int64_le (node_id v)) st;
          st \<leftarrow> emit (int64_le (bound_node_childno v)) st;
          st \<leftarrow> emit (size_le (length (nhash v))) st;
          for_up 0 (int (length (nhash v)))
            (\<lambda>j st. do { h \<leftarrow> aget (nhash v) j; b \<leftarrow> slice h 0 32; emit b st }) st }"

text \<open>The strings of one leaf: their number, then each with its length.\<close>

definition emit_strings :: "byte list list \<Rightarrow> nat \<times> byte list \<Rightarrow> (nat \<times> byte list) option" where
  "emit_strings ds st =
     do { st \<leftarrow> emit (size_le (length ds)) st;
          for_up 0 (int (length ds))
            (\<lambda>j st. do { result \<leftarrow> aget ds j;
                         st \<leftarrow> emit (size_le (strlen result)) st;
                         emit (cstr result) st }) st }"

definition vo_serialize :: "rangevo \<Rightarrow> byte list \<Rightarrow> byte list option" where
  "vo_serialize vo buffer =
     do { st \<leftarrow> emit (int32_le (traverse_height vo)) (0, buffer);
          st \<leftarrow> emit (size_le (length (data vo))) st;
          st \<leftarrow> for_up 0 (int (length (data vo))) (\<lambda>i st. do { ds \<leftarrow> aget (data vo) i; emit_strings ds st }) st;
          st \<leftarrow> for_up 0 (int BPLUS_MAX_LEVEL) (\<lambda>i st. do { v \<leftarrow> aget (leftvo vo) i; emit_nodevo v st }) st;
          st \<leftarrow> for_up 0 (int BPLUS_MAX_LEVEL) (\<lambda>i st. do { v \<leftarrow> aget (rightvo vo) i; emit_nodevo v st }) st;
          Some (snd st) }"

definition get_size :: "byte list \<Rightarrow> nat \<Rightarrow> nat option" where
  "get_size buffer pos = do { bs \<leftarrow> slice buffer pos 8; Some (le_size bs) }"

definition get_int32 :: "byte list \<Rightarrow> nat \<Rightarrow> int option" where
  "get_int32 buffer pos = do { bs \<leftarrow> slice buffer pos 4; Some (le_int32 bs) }"

text \<open>A zeroed block of \<open>len + 1\<close> bytes into which \<^verbatim>\<open>strncpy\<close> copies at most \<open>len\<close> bytes.\<close>

definition get_strn :: "byte list \<Rightarrow> nat \<Rightarrow> nat \<Rightarrow> byte list option" where
  "get_strn buffer pos len =
     (let src = drop pos buffer
      in if len \<le> length src \<or> 0 \<in> set src then strncpy (replicate (len + 1) 0) src len else None)"

text \<open>The vector of the strings is set up with elements of \<open>DATA_SIZE + 1\<close> bytes and given the address of a pointer.\<close>

definition read_strings :: "bool \<Rightarrow> byte list \<Rightarrow> nat \<Rightarrow> (nat \<times> byte list list) option" where
  "read_strings beyond buffer pos =
     do { data_size1 \<leftarrow> get_size buffer pos;
          for_up 0 (int data_size1)
            (\<lambda>j (pos, subpv). do {
               len \<leftarrow> get_size buffer pos;
               value1 \<leftarrow> get_strn buffer (pos + 8) len;
               subpv \<leftarrow> push_object beyond (DATA_SIZE + 1) sizeof_pointer subpv value1;
               Some (pos + 8 + len, subpv) })
            (pos + 8, []) }"

definition read_nodevo :: "byte list \<Rightarrow> nat \<Rightarrow> nodevo \<Rightarrow> (nat \<times> nodevo) option" where
  "read_nodevo buffer pos v =
     do { nid \<leftarrow> get_int64 buffer pos;
          childno \<leftarrow> get_int64 buffer (pos + 8);
          pv_size \<leftarrow> get_size buffer (pos + 16);
          (pos, hs) \<leftarrow> for_up 0 (int pv_size)
            (\<lambda>j (pos, hs). do { value1 \<leftarrow> get_strn buffer pos DATA_SIZE; Some (pos + DATA_SIZE, hs @ [value1]) })
            (pos + 24, nhash v);
          Some (pos, \<lparr>node_id = nid, bound_node_childno = childno, nhash = hs\<rparr>) }"

definition read_nodevos :: "byte list \<Rightarrow> nat \<times> nodevo list \<Rightarrow> (nat \<times> nodevo list) option" where
  "read_nodevos buffer = for_up 0 (int BPLUS_MAX_LEVEL)
     (\<lambda>i (pos, vs). do { v \<leftarrow> aget vs i; (pos, v) \<leftarrow> read_nodevo buffer pos v; vs \<leftarrow> aput vs i v; Some (pos, vs) })"

definition vo_deserialize :: "bool \<Rightarrow> rangevo \<Rightarrow> byte list \<Rightarrow> rangevo option" where
  "vo_deserialize beyond vo buffer =
     do { h \<leftarrow> get_int32 buffer 0;
          data_size \<leftarrow> get_size buffer 4;
          (pos, ds) \<leftarrow> for_up 0 (int data_size)
            (\<lambda>i (pos, ds). do { (pos, subpv) \<leftarrow> read_strings beyond buffer pos; Some (pos, ds @ [subpv]) })
            (12, data vo);
          (pos, ls) \<leftarrow> read_nodevos buffer (pos, leftvo vo);
          (pos, rs) \<leftarrow> read_nodevos buffer (pos, rightvo vo);
          Some (vo\<lparr>traverse_height := h, data := ds, leftvo := ls, rightvo := rs\<rparr>) }"

subsection \<open>The byte image of the maps of child numbers\<close>

definition emit_ids :: "int list hashmap \<Rightarrow> int \<Rightarrow> nat \<times> byte list \<Rightarrow> (nat \<times> byte list) option" where
  "emit_ids hp j st =
     do { st \<leftarrow> emit (int64_le j) st;
          pv \<leftarrow> hashmap_get hp j;
          st \<leftarrow> emit (size_le (length pv)) st;
          for_up 0 (int (length pv)) (\<lambda>k st. do { value1 \<leftarrow> aget pv k; emit (int64_le value1) st }) st }"

definition hashmap_serialize :: "id_maps \<Rightarrow> int list list \<Rightarrow> byte list \<Rightarrow> byte list option" where
  "hashmap_serialize hashp temp_node_id buffer =
     do { st \<leftarrow> for_up 0 (int BPLUS_MAX_LEVEL)
            (\<lambda>i st. do {
               hp \<leftarrow> aget hashp i;
               st \<leftarrow> emit (int64_le (hm_size hp)) st;
               (if hm_size hp > 0 then
                  for_up 0 500
                    (\<lambda>j st. do { row \<leftarrow> aget temp_node_id i;
                                 mark \<leftarrow> aget row j;
                                 (if mark = 0 then Some st else emit_ids hp j st) }) st
                else Some st) })
            (0, buffer);
          Some (snd st) }"

definition read_ids :: "byte list \<Rightarrow> nat \<times> int list hashmap \<Rightarrow> (nat \<times> int list hashmap) option" where
  "read_ids buffer st =
     do { key \<leftarrow> get_int64 buffer (fst st);
          v_size \<leftarrow> get_size buffer (fst st + 8);
          (pos, pv) \<leftarrow> for_up 0 (int v_size)
            (\<lambda>k (pos, pv). do { value1 \<leftarrow> get_int64 buffer pos; Some (pos + 8, pv @ [value1]) })
            (fst st + 16, []);
          Some (pos, snd (hashmap_set True (snd st) key (Some pv))) }"

definition hashmap_deserialize :: "id_maps \<Rightarrow> byte list \<Rightarrow> id_maps option" where
  "hashmap_deserialize hashp buffer =
     do { (pos, hashp) \<leftarrow> for_up 0 (int BPLUS_MAX_LEVEL)
            (\<lambda>i (pos, hashp). do {
               hp_size \<leftarrow> get_int64 buffer pos;
               (if hp_size > 0 then
                  do { hp \<leftarrow> aget hashp i;
                       (pos, hp) \<leftarrow> for_up 0 hp_size (\<lambda>j st. read_ids buffer st) (pos + 8, hp);
                       hashp \<leftarrow> aput hashp i hp;
                       Some (pos, hashp) }
                else Some (pos + 8, hashp)) })
            (0, hashp);
          Some hashp }"

subsection \<open>Reconstruction of the root hash\<close>

text \<open>The loops that append hashes to a string buffer: given ones, those of strings (computed
  into a block \<open>blk\<close>), those of known children.\<close>

definition cat_hashes :: "byte list list \<Rightarrow> byte list \<Rightarrow> byte list option" where
  "cat_hashes hs = for_up 0 (int (length hs)) (\<lambda>k buf. do { h \<leftarrow> aget hs k; strcat buf h })"

definition cat_data :: "SHA256 \<Rightarrow> byte list \<Rightarrow> byte list list \<Rightarrow> byte list \<Rightarrow> byte list option" where
  "cat_data raw blk ds = for_up 0 (int (length ds))
     (\<lambda>j buf. do { tmp_id \<leftarrow> aget ds j; result \<leftarrow> sha256_pg raw tmp_id blk; strcat buf result })"

definition cat_known :: "byte list hashmap \<Rightarrow> int list \<Rightarrow> byte list \<Rightarrow> byte list option" where
  "cat_known known ids = for_up 0 (int (length ids))
     (\<lambda>j buf. do { child_id \<leftarrow> aget ids j;
                   (case hashmap_get known child_id of None \<Rightarrow> Some buf | Some ss_temp \<Rightarrow> strcat buf ss_temp) })"

text \<open>The hash of a buffer, and a hash recorded for a node of a level.\<close>

definition hash33 :: "SHA256 \<Rightarrow> byte list \<Rightarrow> byte list option" where
  "hash33 raw buf = sha256_pg raw buf (replicate 33 0)"

definition record_hash ::
    "byte list hashmap list \<Rightarrow> int \<Rightarrow> int \<Rightarrow> byte list \<Rightarrow> byte list hashmap list option" where
  "record_hash tmp_hashes lev nid h =
     do { hm \<leftarrow> aget tmp_hashes lev; aput tmp_hashes lev (snd (hashmap_set True hm nid (Some h))) }"

text \<open>The leaf level: the left boundary leaf, the leaves between, the right boundary leaf.\<close>

definition leaf_hashes ::
    "SHA256 \<Rightarrow> rangevo \<Rightarrow> byte list hashmap list \<Rightarrow> byte list hashmap list option" where
  "leaf_hashes raw vo tmp_hashes =
     do { l \<leftarrow> aget (leftvo vo) (traverse_height vo);
          r \<leftarrow> aget (rightvo vo) (traverse_height vo);
          let start_id = node_id l;
          let end_id = node_id r;
          hashca \<leftarrow> cat_hashes (nhash l) (replicate 8192 0);
          ds \<leftarrow> aget (data vo) 0;
          hashca \<leftarrow> cat_data raw (replicate 33 0) ds hashca;
          ttt \<leftarrow> hash33 raw hashca;
          tmp_hashes \<leftarrow> record_hash tmp_hashes 0 start_id ttt;
          (node_count, tmp_hashes) \<leftarrow> for_up (start_id + 1) end_id
            (\<lambda>m (node_count, tmp_hashes). do {
               ds \<leftarrow> aget (data vo) node_count;
               mhash \<leftarrow> cat_data raw (replicate 33 0) ds (replicate 8192 0);
               h \<leftarrow> hash33 raw mhash;
               tmp_hashes \<leftarrow> record_hash tmp_hashes 0 m h;
               Some (node_count + 1, tmp_hashes) })
            (1, tmp_hashes);
          ds \<leftarrow> aget (data vo) (if start_id = end_id then node_count - 1 else node_count);
          ehash \<leftarrow> cat_data raw (replicate 33 0) ds (replicate 8192 0);
          ehash \<leftarrow> cat_hashes (nhash r) ehash;
          h \<leftarrow> hash33 raw ehash;
          record_hash tmp_hashes 0 end_id h }"

text \<open>One level above: \<open>k\<close> is its height, \<open>i\<close> its index in the verification object.\<close>

definition non_leaf_hashes ::
    "SHA256 \<Rightarrow> id_maps \<Rightarrow> rangevo \<Rightarrow> int \<Rightarrow> byte list hashmap list \<Rightarrow> byte list hashmap list option" where
  "non_leaf_hashes raw hashp vo k tmp_hashes =
     do { let i = traverse_height vo - k;
          l \<leftarrow> aget (leftvo vo) i;
          r \<leftarrow> aget (rightvo vo) i;
          let start_id = node_id l;
          let end_id = node_id r;
          known \<leftarrow> aget tmp_hashes (k - 1);
          ids \<leftarrow> aget hashp k;
          (if start_id \<noteq> end_id then
             do { hashcau \<leftarrow> cat_hashes (nhash l) (replicate 8192 0);
                  pv \<leftarrow> hashmap_get ids start_id;
                  hashcau \<leftarrow> cat_known known pv hashcau;
                  h \<leftarrow> hash33 raw hashcau;
                  tmp_hashes \<leftarrow> record_hash tmp_hashes k start_id h;
                  tmp_hashes \<leftarrow> for_up (start_id + 1) end_id
                    (\<lambda>p tmp_hashes. do {
                       childs \<leftarrow> hashmap_get ids p;
                       phash \<leftarrow> cat_known known childs (replicate (8192 * 3) 0);
                       h \<leftarrow> hash33 raw phash;
                       record_hash tmp_hashes k p h })
                    tmp_hashes;
                  pv1 \<leftarrow> hashmap_get ids end_id;
                  ehash2 \<leftarrow> cat_known known pv1 (replicate 8192 0);
                  ehash2 \<leftarrow> cat_hashes (nhash r) ehash2;
                  h \<leftarrow> hash33 raw ehash2;
                  record_hash tmp_hashes k end_id h }
           else
             do { hashcau \<leftarrow> cat_hashes (nhash l) (replicate 8192 0);
                  pv2 \<leftarrow> hashmap_get ids start_id;
                  hashcau \<leftarrow> cat_known known pv2 hashcau;
                  hashcau \<leftarrow> cat_hashes (nhash r) hashcau;
                  h \<leftarrow> hash33 raw hashcau;
                  record_hash tmp_hashes k end_id h }) }"

definition reconstruct_root :: "SHA256 \<Rightarrow> id_maps \<Rightarrow> rangevo \<Rightarrow> byte list \<Rightarrow> byte list option" where
  "reconstruct_root raw hashp vo rootbuf =
     do { rootbuf \<leftarrow> blit rootbuf 0 (replicate 33 0);
          hm \<leftarrow> hashmap_new True True NUM_BUCKETS myhash compare;
          tmp_hashes \<leftarrow> leaf_hashes raw vo (replicate BPLUS_MAX_LEVEL hm);
          tmp_hashes \<leftarrow> for_up 1 (traverse_height vo + 1) (non_leaf_hashes raw hashp vo) tmp_hashes;
          known \<leftarrow> aget tmp_hashes (if traverse_height vo \<ge> 1 then traverse_height vo else 0);
          ss_temp \<leftarrow> hashmap_get known 0;
          strcpy rootbuf ss_temp }"

end
