(* ===== verification/MBT_Query.thy ===== *)
theory MBT_Query
  imports MBT_Vo
begin

text \<open>
  The authenticated range query \<^verbatim>\<open>bplus_tree_get_range_disk_vo\<close> of \<^verbatim>\<open>src/backend/mbt/mbtree.c\<close>: the
  search path of the lower bound, the scan of the leaves, and the search path of the upper bound.
  \<open>raw33\<close> is the unspecified contents of a block of 33 bytes that \<^verbatim>\<open>malloc\<close> returns; \<open>beyond\<close> says whether memory
  behind an object may be read.
\<close>

text \<open>The number of keys before the first zero; the loop runs up to \<^verbatim>\<open>BPLUS_MAX_ORDER\<close>.\<close>

function nonzero_keys :: "int list \<Rightarrow> int \<Rightarrow> int option" where
  "nonzero_keys ks u =
     (if u < BPLUS_MAX_ORDER then
        do { k \<leftarrow> aget ks u; (if k \<noteq> 0 then nonzero_keys ks (u + 1) else Some u) }
      else Some u)"
  by pat_completeness auto
termination by (relation "measure (\<lambda>(ks, u). nat (BPLUS_MAX_ORDER - u))") auto

declare nonzero_keys.simps [simp del]

subsection \<open>The left path\<close>

text \<open>The numbers of the node on the current level of the left path, and the hashes \<open>lo\<close> to \<open>hi - 1\<close> of its children.\<close>

definition set_left :: "int \<Rightarrow> int \<Rightarrow> rangevo \<Rightarrow> rangevo option" where
  "set_left nid childno vo =
     do { v \<leftarrow> aget (leftvo vo) (traverse_height vo);
          ls \<leftarrow> aput (leftvo vo) (traverse_height vo) (v\<lparr>node_id := nid, bound_node_childno := childno\<rparr>);
          Some (vo\<lparr>leftvo := ls\<rparr>) }"

definition push_left :: "byte list \<Rightarrow> byte list list \<Rightarrow> int \<Rightarrow> int \<Rightarrow> rangevo \<Rightarrow> rangevo option" where
  "push_left raw33 hs lo hi = for_up lo hi
     (\<lambda>p vo. do { h \<leftarrow> aget hs p;
                  temp_hash \<leftarrow> strcpy raw33 h;
                  v \<leftarrow> aget (leftvo vo) (traverse_height vo);
                  ls \<leftarrow> aput (leftvo vo) (traverse_height vo) (v\<lparr>nhash := nhash v @ [temp_hash]\<rparr>);
                  Some (vo\<lparr>leftvo := ls\<rparr>) })"

text \<open>The child to descend into and the verification object with the current level filled in.\<close>

definition left_step :: "byte list \<Rightarrow> heap \<Rightarrow> int \<Rightarrow> ptr \<Rightarrow> rangevo \<Rightarrow> (ptr option \<times> rangevo) option" where
  "left_step raw33 s mn p vo =
     do { tmp \<leftarrow> get_non_leaf s p;
          tmp_len \<leftarrow> nonzero_keys (nkey tmp) 0;
          i \<leftarrow> key_binary_search (nkey tmp) tmp_len mn;
          vo \<leftarrow> set_left (nnode_id tmp) (count tmp) vo;
          (if i \<ge> 0 then
             do { vo \<leftarrow> push_left raw33 (nchildhash tmp) 0 (i + 1) vo;
                  c \<leftarrow> aget (sub_ptr tmp) (i + 1);
                  Some (c, vo\<lparr>traverse_height := traverse_height vo + 1\<rparr>) }
           else
             do { let i = - i - 1;
                  vo \<leftarrow> push_left raw33 (nchildhash tmp) 0 i vo;
                  c \<leftarrow> aget (sub_ptr tmp) i;
                  Some (c, vo\<lparr>traverse_height := traverse_height vo + 1\<rparr>) }) }"

primrec left_path :: "nat \<Rightarrow> byte list \<Rightarrow> heap \<Rightarrow> int \<Rightarrow> ptr \<Rightarrow> rangevo \<Rightarrow> (ptr \<times> rangevo) option" where
  "left_path 0 raw33 s mn p vo = Some (p, vo)"
| "left_path (Suc l) raw33 s mn p vo =
     do { (c, vo) \<leftarrow> left_step raw33 s mn p vo; q \<leftarrow> c; left_path l raw33 s mn q vo }"

definition left_leaf :: "byte list \<Rightarrow> heap \<Rightarrow> int \<Rightarrow> ptr \<Rightarrow> rangevo \<Rightarrow> rangevo option" where
  "left_leaf raw33 s mn p vo =
     do { tmp1 \<leftarrow> get_leaf s p;
          i \<leftarrow> key_binary_search (lkey tmp1) (count tmp1) mn;
          vo \<leftarrow> set_left (lnode_id tmp1) (count tmp1) vo;
          push_left raw33 (lchildhash tmp1) 0 (if i \<ge> 0 then i else - i - 1) vo }"

subsection \<open>The scan\<close>

type_synonym scan_out = "byte list list \<times> byte list list list \<times> ItemPointerData list \<times> int list"

text \<open>
  The loop over the entries: the strings of the current leaf, those of the leaves before, and the
  item pointers and keys found. Leaving the last leaf of the list is a fault: \<^verbatim>\<open>list_next_entry\<close> yields
  an address inside the tree descriptor there, not the null pointer the loop tests for. The vector
  \<^verbatim>\<open>nodedata\<close> is set up with elements of the size of a vector and given the address of a pointer.
\<close>

primrec scan_leaves ::
    "nat \<Rightarrow> bool \<Rightarrow> byte list \<Rightarrow> heap \<Rightarrow> int \<Rightarrow> int \<Rightarrow> int \<Rightarrow> ptr \<Rightarrow> int \<Rightarrow> scan_out \<Rightarrow> scan_out option" where
  "scan_leaves 0 beyond raw33 s key1 key2 mx p i out = None"
| "scan_leaves (Suc fuel) beyond raw33 s key1 key2 mx p i out =
     do { ln \<leftarrow> get_leaf s p;
          k \<leftarrow> aget (lkey ln) i;
          (if k \<le> mx then
             do { let (nodedata, ds, result, keys_result) = out;
                  d \<leftarrow> aget (ldata ln) i;
                  data1 \<leftarrow> strcpy raw33 d;
                  nodedata \<leftarrow> push_object beyond sizeof_pgvector sizeof_pointer nodedata data1;
                  (result, keys_result) \<leftarrow>
                    (if key1 \<le> k \<and> k \<le> key2 then
                       do { t \<leftarrow> aget (tids ln) i; q \<leftarrow> t; tid \<leftarrow> items s q;
                            Some (result @ [tid], keys_result @ [k]) }
                     else Some (result, keys_result));
                  let i = i + 1;
                  (if i \<ge> count ln then
                     do { q \<leftarrow> list_next_entry s p;
                          scan_leaves fuel beyond raw33 s key1 key2 mx q 0 ([], ds @ [nodedata], result, keys_result) }
                   else scan_leaves fuel beyond raw33 s key1 key2 mx p i (nodedata, ds, result, keys_result)) }
           else Some out) }"

text \<open>Where the scan starts: the first entry not below the lower bound, in the leaf or the next one.\<close>

definition scan_start :: "heap \<Rightarrow> int \<Rightarrow> ptr \<Rightarrow> (ptr \<times> int) option" where
  "scan_start s mn p =
     do { ln \<leftarrow> get_leaf s p;
          i \<leftarrow> key_binary_search (lkey ln) (count ln) mn;
          (if i < 0 then
             (if - i - 1 \<ge> count ln then do { q \<leftarrow> list_next_entry s p; Some (q, 0) } else Some (p, - i - 1))
           else Some (p, i)) }"

subsection \<open>The right path\<close>

definition set_right :: "int \<Rightarrow> int \<Rightarrow> rangevo \<Rightarrow> rangevo option" where
  "set_right nid childno vo =
     do { v \<leftarrow> aget (rightvo vo) (traverse_height vo);
          rs \<leftarrow> aput (rightvo vo) (traverse_height vo) (v\<lparr>node_id := nid, bound_node_childno := childno\<rparr>);
          Some (vo\<lparr>rightvo := rs\<rparr>) }"

text \<open>The block that is pushed: the hash itself, or (\<open>copied\<close>) a copy made with \<^verbatim>\<open>strncpy\<close>.\<close>

definition push_right :: "byte list \<Rightarrow> bool \<Rightarrow> byte list list \<Rightarrow> int \<Rightarrow> int \<Rightarrow> rangevo \<Rightarrow> rangevo option" where
  "push_right raw33 copied hs lo hi = for_up lo hi
     (\<lambda>p vo. do { h \<leftarrow> aget hs p;
                  b \<leftarrow> (if copied then strncpy raw33 h 33 else Some h);
                  v \<leftarrow> aget (rightvo vo) (traverse_height vo);
                  rs \<leftarrow> aput (rightvo vo) (traverse_height vo) (v\<lparr>nhash := nhash v @ [b]\<rparr>);
                  Some (vo\<lparr>rightvo := rs\<rparr>) })"

definition right_step :: "byte list \<Rightarrow> heap \<Rightarrow> int \<Rightarrow> ptr \<Rightarrow> rangevo \<Rightarrow> (ptr option \<times> rangevo) option" where
  "right_step raw33 s mx p vo =
     do { tmp2 \<leftarrow> get_non_leaf s p;
          tmp_len \<leftarrow> nonzero_keys (nkey tmp2) 0;
          ei \<leftarrow> key_binary_search (nkey tmp2) tmp_len mx;
          vo \<leftarrow> set_right (nnode_id tmp2) (count tmp2) vo;
          (if ei \<ge> 0 then
             do { vo \<leftarrow> push_right raw33 False (nchildhash tmp2) (ei + 2) (count tmp2) vo;
                  c \<leftarrow> aget (sub_ptr tmp2) (ei + 1);
                  Some (c, vo\<lparr>traverse_height := traverse_height vo + 1\<rparr>) }
           else
             do { let ei = - ei - 1;
                  vo \<leftarrow> push_right raw33 True (nchildhash tmp2) (ei + 1) (count tmp2) vo;
                  c \<leftarrow> aget (sub_ptr tmp2) ei;
                  Some (c, vo\<lparr>traverse_height := traverse_height vo + 1\<rparr>) }) }"

primrec right_path :: "nat \<Rightarrow> byte list \<Rightarrow> heap \<Rightarrow> int \<Rightarrow> ptr \<Rightarrow> rangevo \<Rightarrow> (ptr \<times> rangevo) option" where
  "right_path 0 raw33 s mx p vo = Some (p, vo)"
| "right_path (Suc l) raw33 s mx p vo =
     do { (c, vo) \<leftarrow> right_step raw33 s mx p vo; q \<leftarrow> c; right_path l raw33 s mx q vo }"

definition right_leaf :: "byte list \<Rightarrow> heap \<Rightarrow> int \<Rightarrow> ptr \<Rightarrow> rangevo \<Rightarrow> rangevo option" where
  "right_leaf raw33 s mx p vo =
     do { tmp3 \<leftarrow> get_leaf s p;
          ei \<leftarrow> key_binary_search (lkey tmp3) (count tmp3) mx;
          vo \<leftarrow> set_right (lnode_id tmp3) (count tmp3) vo;
          push_right raw33 False (lchildhash tmp3) ((if ei \<ge> 0 then ei else - ei - 1) + 1) (count tmp3) vo }"

subsection \<open>The query\<close>

text \<open>With a tree of level 0 the pointers \<^verbatim>\<open>tmp1\<close> and \<^verbatim>\<open>tmp3\<close> stay null and are dereferenced.\<close>

definition bplus_tree_get_range_disk_vo ::
    "nat \<Rightarrow> bool \<Rightarrow> byte list \<Rightarrow> heap \<Rightarrow> int \<Rightarrow> int \<Rightarrow> ItemPointerData list \<times> rangevo \<times> int list \<Rightarrow>
     (ItemPointerData list \<times> rangevo \<times> int list) option" where
  "bplus_tree_get_range_disk_vo fuel beyond raw33 s key1 key2 st =
     (case st of (result, vo, keys_result) \<Rightarrow>
        do { let mn = (if key1 \<le> key2 then key1 else key2);
             let mx = (if mn = key1 then key2 else key1);
             let lev = nat (level (tree s));
             (if lev = 0 then None
              else do {
                r \<leftarrow> root (tree s);
                (p, vo) \<leftarrow> left_path lev raw33 s mn r vo;
                vo \<leftarrow> left_leaf raw33 s mn p vo;
                (q, i) \<leftarrow> scan_start s mn p;
                (nodedata, ds, result, keys_result) \<leftarrow>
                  scan_leaves fuel beyond raw33 s key1 key2 mx q i ([], data vo, result, keys_result);
                let vo = vo\<lparr>data := ds @ [nodedata], traverse_height := 0\<rparr>;
                (p, vo) \<leftarrow> right_path lev raw33 s mx r vo;
                vo \<leftarrow> right_leaf raw33 s mx p vo;
                Some (result, vo, keys_result) }) })"

end
