(* ===== verification/MBT_Access.thy ===== *)
theory MBT_Access
  imports MBT_Query PgVector
begin

text \<open>
  The index access method and the executor around the tree: \<^verbatim>\<open>mbtbuild\<close>, \<^verbatim>\<open>mbtinsert\<close> and \<^verbatim>\<open>mbtgettuple\<close> of
  \<^verbatim>\<open>src/backend/access/mbtree/mbtree.c\<close>, \<^verbatim>\<open>AuthRangeQuery\<close> and \<^verbatim>\<open>StoreBtree\<close> of \<^verbatim>\<open>src/include/mbt/testtree.h\<close>,
  \<^verbatim>\<open>getTupleValue\<close> of \<^verbatim>\<open>src/backend/executor/execUtils.c\<close>, \<^verbatim>\<open>AuthIndexNext\<close> of
  \<^verbatim>\<open>src/backend/executor/nodeIndexscan.c\<close>.

  The state holds the global variables of the access method. Every index has its own tree, kept with
  the memory its nodes live in. Reading a heap tuple and the output functions of the types are parameters.
\<close>

subsection \<open>Global state\<close>

record am_state =
  key_hashp :: "heap hashmap option"
  am_hashp :: id_maps
  root_offset :: int
  am_temp_node_id :: "int list list"
  mbt_entries_count :: int
  tree_file :: "byte list"

record pg_index_info =
  str :: "byte list"
  root_str :: "byte list option"
  ivalue :: int

text \<open>
  \<^verbatim>\<open>mbtbuild\<close>: the new tree is allocated in \<open>mem\<close>. The maps of child numbers are shared by all indexes and
  are replaced; the marks \<^verbatim>\<open>temp_node_id\<close> are not cleared.
\<close>

definition mbtbuild :: "heap \<Rightarrow> int \<Rightarrow> am_state \<Rightarrow> am_state option" where
  "mbtbuild mem index_oid a =
     do { new_map \<leftarrow> hashmap_new True True NUM_BUCKETS myhash compare;
          let kh = (case key_hashp a of None \<Rightarrow> new_map | Some kh \<Rightarrow> kh);
          hm \<leftarrow> hashmap_new True True NUM_BUCKETS myhash compare;
          s \<leftarrow> bplus_tree_init 10 10 mem;
          let s = s\<lparr>tree := mybplus_tree_init (tree s)\<rparr>;
          Some (a\<lparr>key_hashp := Some (snd (hashmap_set True kh index_oid (Some s))),
                  am_hashp := replicate BPLUS_MAX_LEVEL hm\<rparr>) }"

definition StoreBtree :: "nat \<Rightarrow> byte list \<Rightarrow> heap \<Rightarrow> (int \<times> byte list \<times> heap) option" where
  "StoreBtree fuel file s =
     do { (ro, file, s) \<leftarrow> bplus_tree_store fuel file s;
          Some (ro, file, s\<lparr>tree := (tree s)\<lparr>offset := 0\<rparr>\<rparr>) }"

text \<open>
  \<^verbatim>\<open>mbtinsert\<close>. The hashes, the numbers and the file are brought up to date only once 998 entries have
  been put. The key is a 32-bit field of the row. The recursion depth and the lists are bounded by \<open>fuel\<close>.
\<close>

definition mbtinsert ::
    "nat \<Rightarrow> SHA256 \<Rightarrow> int \<Rightarrow> pg_index_info \<Rightarrow> ItemPointerData \<Rightarrow> am_state \<Rightarrow> (pg_index_info \<times> am_state) option" where
  "mbtinsert fuel raw index_oid info ht_ctid a =
     do { kh \<leftarrow> key_hashp a;
          s \<leftarrow> hashmap_get kh index_oid;
          (ret, s) \<leftarrow> bplus_tree_put (ivalue info) (str info) ht_ctid s;
          let a = a\<lparr>mbt_entries_count := mbt_entries_count a + 1\<rparr>;
          (if mbt_entries_count a \<ge> 998 then
             do { (h, s) \<leftarrow> hashcompute fuel raw (root (tree s)) s;
                  (hashp, marks, s) \<leftarrow> set_node_id fuel (am_hashp a) (am_temp_node_id a) s;
                  (ro, file, s) \<leftarrow> StoreBtree fuel (tree_file a) s;
                  Some (info\<lparr>root_str := h\<rparr>,
                        a\<lparr>key_hashp := Some (snd (hashmap_set True kh index_oid (Some s))), am_hashp := hashp,
                          am_temp_node_id := marks, root_offset := ro, tree_file := file\<rparr>) }
           else
             Some (info, a\<lparr>key_hashp := Some (snd (hashmap_set True kh index_oid (Some s)))\<rparr>)) }"

subsection \<open>The query of the access method\<close>

text \<open>
  \<^verbatim>\<open>AuthRangeQuery\<close>: the item pointers found are compacted in place. An item is dropped when it has the
  position of its successor, the last one when its position is 100 or more. With no item found the
  bound \<^verbatim>\<open>result.size-1\<close> wraps around and the loop reads outside the array.
\<close>

definition compact_items :: "ItemPointerData list \<Rightarrow> ItemPointerData list option" where
  "compact_items items0 =
     (if items0 = [] then None
      else do {
        (dat, size_count) \<leftarrow> for_up 0 (int (length items0) - 1)
          (\<lambda>i (dat, size_count). do {
             x \<leftarrow> aget dat i; y \<leftarrow> aget dat (i + 1);
             (if ip_posid x \<noteq> ip_posid y then
                do { dat \<leftarrow> aput dat size_count x; Some (dat, size_count + 1) }
              else Some (dat, size_count)) })
          (items0, 0);
        z \<leftarrow> aget dat (int (length items0) - 1);
        (dat, size_count) \<leftarrow>
          (if ip_posid z < 100 then do { dat \<leftarrow> aput dat size_count z; Some (dat, size_count + 1) }
           else Some (dat, size_count));
        slice dat 0 (nat size_count) })"

text \<open>
  The vector \<^verbatim>\<open>itemdata\<close> is set up with elements of the size of a vector and given the address of a slot of the
  array \<^verbatim>\<open>data\<close>, which has one pointer for each item found.
\<close>

definition AuthRangeQuery :: "nat \<Rightarrow> bool \<Rightarrow> byte list \<Rightarrow> heap \<Rightarrow> int \<Rightarrow> int \<Rightarrow> rangevo \<Rightarrow> rangevo option" where
  "AuthRangeQuery fuel beyond raw33 s start end_key vo =
     do { (result, vo, key_result) \<leftarrow> bplus_tree_get_range_disk_vo fuel beyond raw33 s start end_key ([], vo, []);
          kept \<leftarrow> compact_items result;
          its \<leftarrow> for_up 0 (int (length kept))
            (\<lambda>i its. do { tid \<leftarrow> aget kept i;
                          push_object beyond sizeof_pgvector ((length result - nat i) * sizeof_pointer) its tid })
            (itemdata vo);
          Some (vo\<lparr>itemdata := its\<rparr>) }"

text \<open>
  \<^verbatim>\<open>mbtgettuple\<close>. \<open>raw_vo\<close> is the unspecified contents of the new verification object. The size of the buffer
  for the maps follows from the width of the range only; its computation is one of \<^verbatim>\<open>int\<close> values.
\<close>

definition mbtgettuple ::
    "nat \<Rightarrow> bool \<Rightarrow> byte list \<Rightarrow> rangevo \<Rightarrow> int \<Rightarrow> int \<Rightarrow> int \<Rightarrow> am_state \<Rightarrow> rangevo option" where
  "mbtgettuple fuel beyond raw33 raw_vo index_oid left right a =
     do { let sizes = int32 (right - left + 1);
          let hashmap_size = int32 ((c_div sizes 400 + 1) * 8192);
          vo \<leftarrow> rangevo_init raw_vo hashmap_size;
          kh \<leftarrow> key_hashp a;
          s \<leftarrow> hashmap_get kh index_oid;
          h \<leftarrow> hashmap_serialize (am_hashp a) (am_temp_node_id a) (vo_hashmap vo);
          AuthRangeQuery fuel beyond raw33 s left right (vo\<lparr>vo_hashmap := h\<rparr>) }"

subsection \<open>Rows\<close>

text \<open>
  \<^verbatim>\<open>getTupleValue\<close>: the text of the attributes of a row, one after the other in a buffer of 64 bytes, each
  copied through a block of 12 bytes; the key is the attribute number \<open>indkey\<close>, its 64-bit value converted to
  \<^verbatim>\<open>int\<close>. An attribute is written as text only if its format is 0. \<open>raw_info\<close> is the unspecified contents of the
  new structure, whose field \<^verbatim>\<open>root_str\<close> the code leaves as it is, and the key too when there is no such attribute.
\<close>

record attribute =
  att_format :: int
  att_output :: "byte list"
  att_datum :: int

definition getTupleValue :: "byte list \<Rightarrow> pg_index_info \<Rightarrow> attribute list \<Rightarrow> int \<Rightarrow> pg_index_info option" where
  "getTupleValue raw12 raw_info atts indkey =
     do { (buf, v) \<leftarrow> for_up 0 (int (length atts))
            (\<lambda>i (buf, v). do {
               att \<leftarrow> aget atts i;
               buf \<leftarrow> (if att_format att = 0 then
                         do { t \<leftarrow> strcpy raw12 (att_output att); strcat buf t }
                       else Some buf);
               Some (buf, if indkey = i then int32 (att_datum att) else v) })
            (replicate 64 0, ivalue raw_info);
          Some (raw_info\<lparr>str := buf, ivalue := v\<rparr>) }"

subsection \<open>The scan of the executor\<close>

record auth_atom =
  opName :: string
  constvalue :: int

datatype auth_expr = Auth_Op_Expr auth_atom auth_atom | Auth_Expr auth_atom

text \<open>
  The bounds of \<^verbatim>\<open>AuthIndexNext\<close>. \<^verbatim>\<open>strcmp\<close> is true when its arguments differ; \<open>l0\<close> and \<open>r0\<close> are the contents of
  the uninitialised variables. A bound is an \<^verbatim>\<open>int\<close>, a constant of the condition a 64-bit \<^verbatim>\<open>Datum\<close>.
\<close>

definition bound_of :: "auth_atom \<Rightarrow> int" where
  "bound_of a = int32 (constvalue a)"

definition auth_bounds :: "int \<Rightarrow> int \<Rightarrow> auth_expr \<Rightarrow> int \<times> int" where
  "auth_bounds l0 r0 e =
     (case e of
        Auth_Op_Expr lexpr rexpr \<Rightarrow>
          (let b = (if opName lexpr \<noteq> ''<'' \<and> opName rexpr \<noteq> ''>''
                    then (bound_of lexpr, bound_of rexpr) else (l0, r0))
           in if opName lexpr \<noteq> ''>'' \<and> opName rexpr \<noteq> ''<''
              then (bound_of rexpr, bound_of lexpr) else b)
      | Auth_Expr a \<Rightarrow>
          (let left = (if opName a \<noteq> ''>'' then bound_of a else l0);
               right = (if opName a \<noteq> ''<'' then bound_of a else r0)
           in if opName a \<noteq> ''='' then (bound_of a, bound_of a) else (left, right)))"

definition DEFAULTSIZE :: nat where
  "DEFAULTSIZE = 8192"

record auth_scan =
  scan_flag :: bool
  myvo :: "rangevo option"
  vo_str :: "byte list"
  hashpmap_str :: "byte list"
  vector_index :: int

record 't slot =
  slot_tuple :: "'t option"
  hashmap_num :: int
  slot_hashmap_str :: "byte list"
  slot_vo_str :: "byte list"
  slot_flag :: bool

text \<open>
  \<^verbatim>\<open>AuthIndexNext\<close>: the first call of a scan runs the query (\<open>getnext\<close>) and makes the byte images, each call
  hands out one row, and the call after the last one hands out the byte images and ends the scan.
  \<open>fetch\<close> reads the row an item pointer refers to. The size of the images is a product of \<^verbatim>\<open>int\<close> values; with
  a negative one \<^verbatim>\<open>malloc\<close> returns the null pointer, which is then written to.
\<close>

definition image_size :: "rangevo \<Rightarrow> nat option" where
  "image_size vo =
     (let size = int32 (mbtree_size vo * int DEFAULTSIZE) in if size < 0 then None else Some (nat size))"

definition auth_start :: "(int \<Rightarrow> int \<Rightarrow> rangevo option) \<Rightarrow> int \<Rightarrow> int \<Rightarrow> auth_expr \<Rightarrow> auth_scan \<Rightarrow> auth_scan option" where
  "auth_start getnext l0 r0 e sc =
     (if scan_flag sc then
        do { let (left, right) = auth_bounds l0 r0 e;
             vo \<leftarrow> getnext left right;
             size \<leftarrow> image_size vo;
             vs \<leftarrow> vo_serialize vo (replicate size 0);
             hs \<leftarrow> slice (vo_hashmap vo) 0 size;
             Some \<lparr>scan_flag = False, myvo = Some vo, vo_str = vs, hashpmap_str = hs, vector_index = 0\<rparr> }
      else Some sc)"

text \<open>
  The end of a scan releases the vectors of the object: \<^verbatim>\<open>itemdata\<close> is destroyed and, as its size is kept, then
  cleared, \<^verbatim>\<open>data\<close> is cleared if it has elements. The codes they return are ignored.
\<close>

definition clear_unless_empty :: "malloc \<Rightarrow> pgvector \<Rightarrow> pgvector option" where
  "clear_unless_empty mal v =
     (if vector_is_empty v then Some v else do { (rc, v) \<leftarrow> vector_clear mal v; Some v })"

definition release_vectors :: "malloc \<Rightarrow> pgvector \<times> pgvector \<Rightarrow> (pgvector \<times> pgvector) option" where
  "release_vectors mal vecs =
     do { its \<leftarrow> clear_unless_empty mal (snd (vector_destroy (fst vecs)));
          dat \<leftarrow> clear_unless_empty mal (snd vecs);
          Some (its, dat) }"

text \<open>\<open>vectors\<close> gives the vectors that hold the lists \<open>itemdata\<close> and \<open>data\<close> of an object in memory.\<close>

definition AuthIndexNext ::
    "malloc \<Rightarrow> (rangevo \<Rightarrow> pgvector \<times> pgvector) \<Rightarrow> (int \<Rightarrow> int \<Rightarrow> rangevo option) \<Rightarrow> (ItemPointerData \<Rightarrow> 't) \<Rightarrow> int \<Rightarrow> int \<Rightarrow> auth_expr \<Rightarrow>
     auth_scan \<Rightarrow> 't slot \<Rightarrow> (auth_scan \<times> 't slot) option" where
  "AuthIndexNext mal vectors getnext fetch l0 r0 e sc sl =
     do { sc \<leftarrow> auth_start getnext l0 r0 e sc;
          vo \<leftarrow> myvo sc;
          (if int (length (itemdata vo)) = vector_index sc then
             do { size \<leftarrow> image_size vo;
                  hs \<leftarrow> slice (hashpmap_str sc) 0 size;
                  vs \<leftarrow> slice (vo_str sc) 0 size;
                  released \<leftarrow> release_vectors mal (vectors vo);
                  Some (sc\<lparr>scan_flag := True, myvo := None\<rparr>,
                        sl\<lparr>slot_tuple := None, hashmap_num := mbtree_size vo, slot_hashmap_str := hs,
                           slot_vo_str := vs, slot_flag := True\<rparr>) }
           else
             do { tid \<leftarrow> aget (itemdata vo) (vector_index sc);
                  Some (sc\<lparr>vector_index := vector_index sc + 1\<rparr>, sl\<lparr>slot_tuple := Some (fetch tid)\<rparr>) }) }"

end
