(* ===== verification/MBT_VoCodec.thy ===== *)
theory MBT_VoCodec
  imports MBT_Vo
begin

text \<open>
  The byte images of a verification object and of the maps of child numbers (\<^verbatim>\<open>vo_serialize\<close>, \<^verbatim>\<open>vo_deserialize\<close>,
  \<^verbatim>\<open>hashmap_serialize\<close>, \<^verbatim>\<open>hashmap_deserialize\<close> of MBT_Vo): what the writers leave in the buffer, what the readers
  make of it, and that the two invert each other. A writer is described by \<open>emits\<close> of MBT_Codec, a reading loop
  by \<open>read_list\<close>, which carries the position in the buffer along the list of chunks already read.
\<close>

subsection \<open>What the writers leave\<close>

definition strings_bytes :: "byte list list \<Rightarrow> byte list" where
  "strings_bytes ds = size_le (length ds) @ concat (map (\<lambda>r. size_le (strlen r) @ cstr r) ds)"

definition nodevo_bytes :: "nodevo \<Rightarrow> byte list" where
  "nodevo_bytes v =
     int64_le (node_id v) @ int64_le (bound_node_childno v) @ size_le (length (nhash v)) @ concat (map (take 32) (nhash v))"

definition vo_bytes :: "rangevo \<Rightarrow> byte list" where
  "vo_bytes vo =
     int32_le (traverse_height vo) @ size_le (length (data vo)) @ concat (map strings_bytes (data vo)) @
     concat (map nodevo_bytes (leftvo vo)) @ concat (map nodevo_bytes (rightvo vo))"

lemma emits_list:
  assumes "\<And>x. x \<in> set xs \<Longrightarrow> emits (f x) (e x)"
  shows "emits (for_up 0 (int (length xs)) (\<lambda>i st. do { x \<leftarrow> aget xs i; f x st })) (concat (map e xs))"
proof -
  have "emits (for_up (int 0) (int (length xs)) (\<lambda>i st. do { x \<leftarrow> aget xs i; f x st }))
      (concat (map (\<lambda>i. e (xs ! i)) [0..<length xs]))"
    using assms by (intro emits_for) (simp add: aget_def)
  moreover have "map (\<lambda>i. e (xs ! i)) [0..<length xs] = map e xs" by (rule nth_equalityI) simp_all
  ultimately show ?thesis by simp
qed

lemma emits_nodevo:
  assumes "\<forall>h \<in> set (nhash v). 32 \<le> length h"
  shows "emits (emit_nodevo v) (nodevo_bytes v)"
proof -
  have "emits (for_up 0 (int (length (nhash v))) (\<lambda>j st. do { h \<leftarrow> aget (nhash v) j; b \<leftarrow> slice h 0 32; emit b st }))
      (concat (map (take 32) (nhash v)))"
    by (rule emits_list) (use assms emits_emit in \<open>simp add: slice_def\<close>)
  then show ?thesis
    unfolding emit_nodevo_def [abs_def] nodevo_bytes_def by (intro emits_bind emits_emit)
qed

lemma emits_strings: "emits (emit_strings ds) (strings_bytes ds)"
proof -
  have "emits (\<lambda>st. emit (size_le (strlen r)) st \<bind> emit (cstr r)) (size_le (strlen r) @ cstr r)" for r
    by (intro emits_bind emits_emit)
  then have "emits (for_up 0 (int (length ds)) (\<lambda>j st. do { result \<leftarrow> aget ds j;
      st \<leftarrow> emit (size_le (strlen result)) st; emit (cstr result) st })) (concat (map (\<lambda>r. size_le (strlen r) @ cstr r) ds))"
    by (intro emits_list)
  then show ?thesis
    unfolding emit_strings_def [abs_def] strings_bytes_def by (intro emits_bind emits_emit)
qed

text \<open>A verification object with all its levels and blocks.\<close>

definition vo_shape :: "rangevo \<Rightarrow> bool" where
  "vo_shape vo \<longleftrightarrow>
     length (leftvo vo) = BPLUS_MAX_LEVEL \<and> length (rightvo vo) = BPLUS_MAX_LEVEL \<and>
     (\<forall>v \<in> set (leftvo vo) \<union> set (rightvo vo). \<forall>h \<in> set (nhash v). 32 \<le> length h)"

lemma vo_serialize_eq:
  assumes "vo_shape vo"
  shows "vo_serialize vo buffer =
    (if length (vo_bytes vo) \<le> length buffer then Some (vo_bytes vo @ drop (length (vo_bytes vo)) buffer) else None)"
proof -
  have l: "emits (for_up 0 (int BPLUS_MAX_LEVEL) (\<lambda>i st. do { v \<leftarrow> aget (leftvo vo) i; emit_nodevo v st })) (concat (map nodevo_bytes (leftvo vo)))"
    "emits (for_up 0 (int BPLUS_MAX_LEVEL) (\<lambda>i st. do { v \<leftarrow> aget (rightvo vo) i; emit_nodevo v st })) (concat (map nodevo_bytes (rightvo vo)))"
    using emits_list [of "leftvo vo" emit_nodevo nodevo_bytes] emits_list [of "rightvo vo" emit_nodevo nodevo_bytes] assms emits_nodevo
    by (auto simp: vo_shape_def)
  define w where "w = (\<lambda>st. do { st \<leftarrow> emit (int32_le (traverse_height vo)) st;
          st \<leftarrow> emit (size_le (length (data vo))) st;
          st \<leftarrow> for_up 0 (int (length (data vo))) (\<lambda>i st. do { ds \<leftarrow> aget (data vo) i; emit_strings ds st }) st;
          st \<leftarrow> for_up 0 (int BPLUS_MAX_LEVEL) (\<lambda>i st. do { v \<leftarrow> aget (leftvo vo) i; emit_nodevo v st }) st;
          for_up 0 (int BPLUS_MAX_LEVEL) (\<lambda>i st. do { v \<leftarrow> aget (rightvo vo) i; emit_nodevo v st }) st })"
  have "emits w (vo_bytes vo)"
    unfolding w_def vo_bytes_def by (intro emits_bind emits_emit emits_list emits_strings l)
  moreover have "vo_serialize vo buffer = map_option snd (w (0, buffer))"
    by (simp add: vo_serialize_def w_def map_conv_bind_option Option.bind_assoc o_def)
  ultimately show ?thesis using emitsD [of w "vo_bytes vo" "[]" buffer] by simp
qed

subsection \<open>What the readers make of it\<close>

lemma read_list:
  assumes "\<And>i acc. i < length vs \<Longrightarrow> step (int i) (length (d @ concat (take i bss)), acc) =
      Some (length (d @ concat (take (Suc i) bss)), acc @ [vs ! i])"
    and "length bss = length vs"
  shows "for_up 0 (int (length vs)) step (length d, acc) = Some (length (d @ concat bss), acc @ vs)"
proof -
  have "for_up 0 (int (length vs)) step (length (d @ concat (take 0 bss)), acc @ take 0 vs) =
      Some (length (d @ concat (take (length vs) bss)), acc @ take (length vs) vs)"
    by (rule for_up_states) (use assms(1) in \<open>simp add: take_Suc_conv_app_nth\<close>)
  then show ?thesis using assms(2) by simp
qed

lemma concat_take_nth: "i < length bss \<Longrightarrow> concat bss = concat (take i bss) @ bss ! i @ concat (drop (Suc i) bss)"
  by (metis append_take_drop_id Cons_nth_drop_Suc concat.simps(2) concat_append)

lemma concat_take_Suc: "i < length bss \<Longrightarrow> concat (take (Suc i) bss) = concat (take i bss) @ bss ! i"
  by (simp add: take_Suc_conv_app_nth)

lemma get_size_at: "n < 2 ^ 64 \<Longrightarrow> pos = length d \<Longrightarrow> get_size (d @ size_le n @ rest) pos = Some n"
  using le_size_size_le [of n "[]"] by (simp add: get_size_def slice_def)

lemma get_int32_at: "in_int32 v \<Longrightarrow> pos = length d \<Longrightarrow> get_int32 (d @ int32_le v @ rest) pos = Some v"
  using le_int32_int32_le [of v "[]"] by (simp add: get_int32_def slice_def)

text \<open>A string read back: its bytes up to the first NUL, in a block one byte longer.\<close>

definition received :: "byte list \<Rightarrow> byte list" where
  "received w = cstr w @ replicate (length w + 1 - length (cstr w)) 0"

lemma get_strn_at:
  assumes "pos = length d" "n = length w"
  shows "get_strn (d @ w @ rest) pos n = Some (received w)"
proof -
  have "take n (cstr (w @ rest)) = cstr w" using assms(2) by (simp add: take_cstr)
  moreover have "length (cstr w) \<le> length w" by (simp add: cstr_def length_takeWhile_le)
  ultimately show ?thesis
    using assms by (simp add: get_strn_def strncpy_def blit_def Let_def received_def replicate_append_same Suc_diff_le
        del: replicate.simps) (simp add: replicate_append_same)
qed

lemma cstr_id: "0 \<notin> set w \<Longrightarrow> cstr w = w"
  unfolding cstr_def by (rule takeWhile_eq_all_conv [THEN iffD2]) auto

lemma received_str: "0 \<notin> set w \<Longrightarrow> received w = w @ [0]"
  by (simp add: received_def cstr_id)

lemma read_strings_at:
  assumes "length ds < 2 ^ 64" "\<forall>r \<in> set ds. strlen r < 2 ^ 64" "pos = length d" "beyond \<or> ds = []"
  shows "read_strings beyond (d @ strings_bytes ds @ rest) pos = Some (pos + length (strings_bytes ds), map (\<lambda>r. cstr r @ [0]) ds)"
proof -
  let ?B = "d @ strings_bytes ds @ rest" and ?bss = "map (\<lambda>r. size_le (strlen r) @ cstr r) ds"
  have "for_up 0 (int (length (map (\<lambda>r. cstr r @ [0]) ds)))
      (\<lambda>j (pos, subpv). do { len \<leftarrow> get_size ?B pos; value1 \<leftarrow> get_strn ?B (pos + 8) len;
        subpv \<leftarrow> push_object beyond (DATA_SIZE + 1) sizeof_pointer subpv value1; Some (pos + 8 + len, subpv) })
      (length (d @ size_le (length ds)), []) =
    Some (length ((d @ size_le (length ds)) @ concat ?bss), [] @ map (\<lambda>r. cstr r @ [0]) ds)"
  proof (rule read_list)
    fix i acc assume "i < length (map (\<lambda>r. cstr r @ [0]) ds)"
    then have i: "i < length ds" by simp
    let ?e = "d @ size_le (length ds) @ concat (take i ?bss)" and ?r = "ds ! i" and ?z = "concat (drop (Suc i) ?bss) @ rest"
    have B: "?B = ?e @ size_le (strlen ?r) @ cstr ?r @ ?z"
      using concat_take_nth [of i ?bss] i by (simp add: strings_bytes_def)
    have B2: "?B = (?e @ size_le (strlen ?r)) @ cstr ?r @ ?z" using B by simp
    have g: "get_size ?B (length ?e) = Some (strlen ?r)" unfolding B by (rule get_size_at) (use assms(2) i in auto)
    have h: "get_strn ?B (length ?e + 8) (strlen ?r) = Some (cstr ?r @ [0])"
      unfolding B2 using get_strn_at [of "length ?e + 8" "?e @ size_le (strlen ?r)" "strlen ?r" "cstr ?r" ?z]
        received_str [of "cstr ?r"] by (auto simp: strlen_def cstr_def dest: set_takeWhileD)
    show "(\<lambda>(pos, subpv). do { len \<leftarrow> get_size ?B pos; value1 \<leftarrow> get_strn ?B (pos + 8) len;
        subpv \<leftarrow> push_object beyond (DATA_SIZE + 1) sizeof_pointer subpv value1; Some (pos + 8 + len, subpv) })
        (length ((d @ size_le (length ds)) @ concat (take i ?bss)), acc) =
      Some (length ((d @ size_le (length ds)) @ concat (take (Suc i) ?bss)), acc @ [map (\<lambda>r. cstr r @ [0]) ds ! i])"
      using g h i assms(4) by (auto simp: concat_take_Suc strlen_def add.assoc push_object_def)
  qed simp
  moreover have "get_size ?B pos = Some (length ds)"
    using get_size_at [OF assms(1,3)] by (simp add: strings_bytes_def)
  ultimately show ?thesis using assms(3) by (simp add: read_strings_def strings_bytes_def add.assoc)
qed

text \<open>The first string already is a fault when memory behind an object must not be read.\<close>

lemma read_strings_fault:
  assumes "length ds < 2 ^ 64" "pos = length d" "\<not> beyond" "ds \<noteq> []"
  shows "read_strings beyond (d @ strings_bytes ds @ rest) pos = None"
proof -
  have "get_size (d @ strings_bytes ds @ rest) pos = Some (length ds)"
    using get_size_at [OF assms(1,2)] by (simp add: strings_bytes_def)
  moreover have "0 < length ds" using assms(4) by simp
  moreover have "push_object beyond (DATA_SIZE + 1) sizeof_pointer xs x = None" for xs :: "byte list list" and x
    using assms(3) by (simp add: push_object_def DATA_SIZE_def sizeof_pointer_def)
  moreover have "for_up 0 (int (length ds)) (\<lambda>j (pos, subpv). None) x = None" if "0 < length ds" for x :: "nat \<times> byte list list"
    using for_up_first [OF that, of "\<lambda>j (pos, subpv). None" x] by (simp split: prod.split)
  ultimately show ?thesis by (simp add: read_strings_def)
qed

definition received_nodevo :: "nodevo \<Rightarrow> nodevo" where
  "received_nodevo v = \<lparr>node_id = node_id v, bound_node_childno = bound_node_childno v,
     nhash = map (\<lambda>h. received (take 32 h)) (nhash v)\<rparr>"

definition nodevo_fits :: "nodevo \<Rightarrow> bool" where
  "nodevo_fits v \<longleftrightarrow> in_int64 (node_id v) \<and> in_int64 (bound_node_childno v) \<and> length (nhash v) < 2 ^ 64 \<and>
     (\<forall>h \<in> set (nhash v). 32 \<le> length h)"

lemma read_nodevo_at:
  assumes "nodevo_fits v" "pos = length d" "nhash w = []"
  shows "read_nodevo (d @ nodevo_bytes v @ rest) pos w = Some (pos + length (nodevo_bytes v), received_nodevo v)"
proof -
  let ?B = "d @ nodevo_bytes v @ rest" and ?bss = "map (take 32) (nhash v)" and ?vs = "map (\<lambda>h. received (take 32 h)) (nhash v)"
  let ?d = "d @ int64_le (node_id v) @ int64_le (bound_node_childno v) @ size_le (length (nhash v))"
  have "for_up 0 (int (length ?vs)) (\<lambda>j (pos, hs). do { value1 \<leftarrow> get_strn ?B pos 32; Some (pos + 32, hs @ [value1]) })
      (length ?d, []) = Some (length (?d @ concat ?bss), [] @ ?vs)"
  proof (rule read_list)
    fix i acc assume "i < length ?vs"
    then have i: "i < length (nhash v)" by simp
    have l: "length (take 32 (nhash v ! i)) = 32" using assms(1) i by (simp add: nodevo_fits_def)
    have B: "?B = (?d @ concat (take i ?bss)) @ take 32 (nhash v ! i) @ concat (drop (Suc i) ?bss) @ rest"
      using concat_take_nth [of i ?bss] i by (simp add: nodevo_bytes_def)
    have "get_strn ?B (length (?d @ concat (take i ?bss))) 32 = Some (received (take 32 (nhash v ! i)))"
      unfolding B by (rule get_strn_at) (simp_all only: l)
    then show "(\<lambda>(pos, hs). do { value1 \<leftarrow> get_strn ?B pos 32; Some (pos + 32, hs @ [value1]) }) (length (?d @ concat (take i ?bss)), acc) =
        Some (length (?d @ concat (take (Suc i) ?bss)), acc @ [?vs ! i])"
      using i l by (simp add: concat_take_Suc add.assoc)
  qed simp
  moreover have "get_int64 ?B pos = Some (node_id v)" "get_int64 ?B (pos + 8) = Some (bound_node_childno v)"
    "get_size ?B (pos + 16) = Some (length (nhash v))"
    using assms(1,2) get_int64_at [of "node_id v" pos d] get_int64_at [of "bound_node_childno v" "pos + 8" "d @ int64_le (node_id v)"]
      get_size_at [of "length (nhash v)" "pos + 16" "d @ int64_le (node_id v) @ int64_le (bound_node_childno v)"]
    by (simp_all add: nodevo_bytes_def nodevo_fits_def)
  ultimately show ?thesis using assms(2,3) by (simp add: read_nodevo_def nodevo_bytes_def received_nodevo_def DATA_SIZE_def add.assoc)
qed

lemma read_nodevos_at:
  assumes "length vs = BPLUS_MAX_LEVEL" "length ws = BPLUS_MAX_LEVEL" "\<forall>v \<in> set vs. nodevo_fits v" "\<forall>w \<in> set ws. nhash w = []"
    and "pos = length d"
  shows "read_nodevos (d @ concat (map nodevo_bytes vs) @ rest) (pos, ws) =
    Some (pos + length (concat (map nodevo_bytes vs)), map received_nodevo vs)"
proof -
  let ?bss = "map nodevo_bytes vs" and ?rs = "map received_nodevo vs"
  let ?B = "d @ concat ?bss @ rest"
  let ?S = "\<lambda>i. (length (d @ concat (take i ?bss)), take i ?rs @ drop i ws)"
  have "for_up 0 (int BPLUS_MAX_LEVEL)
     (\<lambda>i (pos, vs). do { v \<leftarrow> aget vs i; (pos, v) \<leftarrow> read_nodevo ?B pos v; vs \<leftarrow> aput vs i v; Some (pos, vs) }) (?S 0) = Some (?S BPLUS_MAX_LEVEL)"
  proof (rule for_up_states)
    fix i assume i: "i < BPLUS_MAX_LEVEL"
    have B: "?B = (d @ concat (take i ?bss)) @ nodevo_bytes (vs ! i) @ concat (drop (Suc i) ?bss) @ rest"
      using concat_take_nth [of i ?bss] i assms(1) by simp
    have r: "read_nodevo ?B (length (d @ concat (take i ?bss))) (ws ! i) =
        Some (length (d @ concat (take i ?bss)) + length (nodevo_bytes (vs ! i)), received_nodevo (vs ! i))"
      unfolding B by (rule read_nodevo_at) (use i assms in auto)
    have "(take i ?rs @ drop i ws)[i := received_nodevo (vs ! i)] = take (Suc i) ?rs @ drop (Suc i) ws"
      using i assms(1,2) by (simp add: list_update_append take_Suc_conv_app_nth flip: Cons_nth_drop_Suc)
    then show "(\<lambda>(pos, vs). do { v \<leftarrow> aget vs (int i); (pos, v) \<leftarrow> read_nodevo ?B pos v; vs \<leftarrow> aput vs (int i) v; Some (pos, vs) }) (?S i) = Some (?S (Suc i))"
      using r i assms(1,2) by (simp add: aget_def aput_def nth_append concat_take_Suc add.assoc)
  qed
  then show ?thesis using assms(1,2,5) by (simp add: read_nodevos_def)
qed

subsection \<open>The round trip\<close>

text \<open>A C string in a block of its own size.\<close>

definition c_string :: "byte list \<Rightarrow> bool" where
  "c_string r \<longleftrightarrow> r \<noteq> [] \<and> last r = 0 \<and> 0 \<notin> set (butlast r)"

lemma cstr_string: "c_string r \<Longrightarrow> cstr r @ [0] = r"
proof -
  assume r: "c_string r"
  then have e: "r = butlast r @ [0]" unfolding c_string_def by (metis append_butlast_last_id)
  have "cstr (butlast r @ [0]) = butlast r"
    using r unfolding c_string_def cstr_def by (subst takeWhile_append2) auto
  then show ?thesis using e by simp
qed

text \<open>A verification object with all its levels, whose numbers fit the widths of the format, whose
  rows are strings and whose hashes are blocks as \<^verbatim>\<open>sha256_pg\<close> leaves them, 32 digits and a NUL.\<close>

definition nodevo_proper :: "nodevo \<Rightarrow> bool" where
  "nodevo_proper v \<longleftrightarrow> in_int64 (node_id v) \<and> in_int64 (bound_node_childno v) \<and> length (nhash v) < 2 ^ 64 \<and>
     (\<forall>h \<in> set (nhash v). length h = 33 \<and> c_string h)"

definition vo_proper :: "rangevo \<Rightarrow> bool" where
  "vo_proper vo \<longleftrightarrow> in_int32 (traverse_height vo) \<and> length (data vo) < 2 ^ 64 \<and>
     (\<forall>ds \<in> set (data vo). length ds < 2 ^ 64 \<and> (\<forall>r \<in> set ds. strlen r < 2 ^ 64 \<and> c_string r)) \<and>
     length (leftvo vo) = BPLUS_MAX_LEVEL \<and> length (rightvo vo) = BPLUS_MAX_LEVEL \<and>
     (\<forall>v \<in> set (leftvo vo) \<union> set (rightvo vo). nodevo_proper v)"

text \<open>One that nothing has been stored in.\<close>

definition vo_fresh :: "rangevo \<Rightarrow> bool" where
  "vo_fresh vo \<longleftrightarrow> data vo = [] \<and> length (leftvo vo) = BPLUS_MAX_LEVEL \<and> length (rightvo vo) = BPLUS_MAX_LEVEL \<and>
     (\<forall>v \<in> set (leftvo vo) \<union> set (rightvo vo). nhash v = [])"

lemma nodevo_proper_fits: "nodevo_proper v \<Longrightarrow> nodevo_fits v"
  by (auto simp: nodevo_proper_def nodevo_fits_def)

lemma received_hash: "length h = 33 \<Longrightarrow> c_string h \<Longrightarrow> received (take 32 h) = h"
  using received_str [of "butlast h"] unfolding c_string_def by (simp add: butlast_conv_take) (metis append_butlast_last_id butlast_conv_take diff_Suc_1 eval_nat_numeral(3))

lemma received_proper: "nodevo_proper v \<Longrightarrow> received_nodevo v = v"
proof -
  assume "nodevo_proper v"
  then have "map (\<lambda>h. received (take 32 h)) (nhash v) = nhash v"
    by (intro map_idI) (simp add: nodevo_proper_def received_hash)
  then show ?thesis by (simp add: received_nodevo_def)
qed

lemma vo_deserialize_bytes:
  assumes "vo_proper vo" "vo_fresh w" "beyond \<or> (\<forall>ds \<in> set (data vo). ds = [])"
  shows "vo_deserialize beyond w (vo_bytes vo @ rest) =
    Some (w\<lparr>traverse_height := traverse_height vo, data := data vo, leftvo := leftvo vo, rightvo := rightvo vo\<rparr>)"
proof -
  let ?B = "vo_bytes vo @ rest" and ?dss = "map strings_bytes (data vo)"
  let ?L = "concat (map nodevo_bytes (leftvo vo))" and ?R = "concat (map nodevo_bytes (rightvo vo))"
  let ?d = "int32_le (traverse_height vo) @ size_le (length (data vo))"
  have B: "?B = ?d @ concat ?dss @ ?L @ ?R @ rest" by (simp add: vo_bytes_def)
  have data: "for_up 0 (int (length (data vo))) (\<lambda>i (pos, ds). do { (pos, subpv) \<leftarrow> read_strings beyond ?B pos; Some (pos, ds @ [subpv]) })
      (length ?d, []) = Some (length (?d @ concat ?dss), [] @ data vo)"
  proof (rule read_list)
    fix i acc assume i: "i < length (data vo)"
    then have p: "length (data vo ! i) < 2 ^ 64" "\<forall>r \<in> set (data vo ! i). strlen r < 2 ^ 64 \<and> c_string r"
      "beyond \<or> data vo ! i = []"
      using assms(1,3) by (auto simp: vo_proper_def)
    have e: "?B = (?d @ concat (take i ?dss)) @ strings_bytes (data vo ! i) @ concat (drop (Suc i) ?dss) @ ?L @ ?R @ rest"
      using concat_take_nth [of i ?dss] i by (simp add: vo_bytes_def)
    have "read_strings beyond ?B (length (?d @ concat (take i ?dss))) =
        Some (length (?d @ concat (take i ?dss)) + length (strings_bytes (data vo ! i)), map (\<lambda>r. cstr r @ [0]) (data vo ! i))"
      unfolding e by (rule read_strings_at) (use p in auto)
    moreover have "map (\<lambda>r. cstr r @ [0]) (data vo ! i) = data vo ! i" using p(2) by (intro map_idI) (simp add: cstr_string)
    ultimately show "(\<lambda>(pos, ds). do { (pos, subpv) \<leftarrow> read_strings beyond ?B pos; Some (pos, ds @ [subpv]) })
        (length (?d @ concat (take i ?dss)), acc) = Some (length (?d @ concat (take (Suc i) ?dss)), acc @ [data vo ! i])"
      using i by (simp add: concat_take_Suc add.assoc)
  qed simp
  have h: "get_int32 ?B 0 = Some (traverse_height vo)" "get_size ?B 4 = Some (length (data vo))"
    using assms(1) get_int32_at [of "traverse_height vo" 0 "[]"] get_size_at [of "length (data vo)" 4 "int32_le (traverse_height vo)"]
    by (simp_all add: vo_bytes_def vo_proper_def)
  have ids: "map received_nodevo (leftvo vo) = leftvo vo" "map received_nodevo (rightvo vo) = rightvo vo"
    using assms(1) by (intro map_idI; simp add: vo_proper_def received_proper)+
  have l: "read_nodevos ?B (length (?d @ concat ?dss), leftvo w) = Some (length (?d @ concat ?dss) + length ?L, leftvo vo)"
    using read_nodevos_at [of "leftvo vo" "leftvo w" "length (?d @ concat ?dss)" "?d @ concat ?dss" "?R @ rest"] assms
    unfolding B by (simp add: vo_proper_def vo_fresh_def nodevo_proper_fits ids)
  have r: "read_nodevos ?B (length (?d @ concat ?dss) + length ?L, rightvo w) =
      Some (length (?d @ concat ?dss) + length ?L + length ?R, rightvo vo)"
    using read_nodevos_at [of "rightvo vo" "rightvo w" "length (?d @ concat ?dss) + length ?L" "?d @ concat ?dss @ ?L" rest] assms
    unfolding B by (simp add: vo_proper_def vo_fresh_def nodevo_proper_fits ids)
  show ?thesis using h data l r assms(2) by (simp add: vo_deserialize_def vo_fresh_def)
qed

lemma vo_deserialize_fault:
  assumes "vo_proper vo" "vo_fresh w" "\<not> beyond" "\<not> (\<forall>ds \<in> set (data vo). ds = [])"
  shows "vo_deserialize beyond w (vo_bytes vo @ rest) = None"
proof -
  let ?B = "vo_bytes vo @ rest" and ?dss = "map strings_bytes (data vo)"
  let ?d = "int32_le (traverse_height vo) @ size_le (length (data vo))"
  let ?f = "\<lambda>i (pos, ds). do { (pos, subpv) \<leftarrow> read_strings beyond ?B pos; Some (pos, ds @ [subpv]) }"
  have e: "?B = (?d @ concat (take i ?dss)) @ strings_bytes (data vo ! i) @
      concat (drop (Suc i) ?dss) @ concat (map nodevo_bytes (leftvo vo)) @ concat (map nodevo_bytes (rightvo vo)) @ rest"
    if "i < length (data vo)" for i using concat_take_nth [of i ?dss] that by (simp add: vo_bytes_def)
  define i where "i = (LEAST i. i < length (data vo) \<and> data vo ! i \<noteq> [])"
  have "\<exists>i. i < length (data vo) \<and> data vo ! i \<noteq> []" using assms(4) by (auto simp: in_set_conv_nth)
  from LeastI_ex [OF this] have i: "i < length (data vo)" "data vo ! i \<noteq> []" by (simp_all add: i_def)
  have before: "data vo ! j = []" if "j < i" for j
    using not_less_Least [of j "\<lambda>i. i < length (data vo) \<and> data vo ! i \<noteq> []"] that i(1) by (simp add: i_def)
  have loop: "for_up 0 (int i) ?f (length (?d @ concat (take 0 ?dss)), take 0 (data vo)) =
      Some (length (?d @ concat (take i ?dss)), take i (data vo))"
  proof (rule for_up_states)
    fix j assume j: "j < i"
    have "read_strings beyond ?B (length (?d @ concat (take j ?dss))) =
        Some (length (?d @ concat (take j ?dss)) + length (strings_bytes (data vo ! j)), map (\<lambda>r. cstr r @ [0]) (data vo ! j))"
      unfolding e [OF order.strict_trans [OF j i(1)]] by (rule read_strings_at) (use before [OF j] in simp_all)
    then show "?f (int j) (length (?d @ concat (take j ?dss)), take j (data vo)) =
        Some (length (?d @ concat (take (Suc j) ?dss)), take (Suc j) (data vo))"
      using j i(1) before [OF j] by (simp add: concat_take_Suc take_Suc_conv_app_nth add.assoc)
  qed
  have "length (data vo ! i) < 2 ^ 64" using assms(1) i(1) by (simp add: vo_proper_def)
  then have stop: "read_strings beyond ?B (length (?d @ concat (take i ?dss))) = None"
    unfolding e [OF i(1)] by (rule read_strings_fault [OF _ refl assms(3) i(2)])
  have "for_up 0 (int (length (data vo))) ?f (12, []) = None"
  proof (rule for_up_fails [OF _ _ i(1)])
    show "for_up 0 (int i) ?f (12, []) = Some (length (?d @ concat (take i ?dss)), take i (data vo))" using loop by simp
    show "?f (int i) (length (?d @ concat (take i ?dss)), take i (data vo)) = None" by (simp only: prod.case stop bind.simps)
  qed
  moreover have "get_int32 ?B 0 = Some (traverse_height vo)" "get_size ?B 4 = Some (length (data vo))"
    using assms(1) get_int32_at [of "traverse_height vo" 0 "[]"] get_size_at [of "length (data vo)" 4 "int32_le (traverse_height vo)"]
    by (simp_all add: vo_bytes_def vo_proper_def)
  ultimately show ?thesis using assms(2) by (simp add: vo_deserialize_def vo_fresh_def)
qed

text \<open>C9. A verification object and its byte image: when the image fits the buffer, \<^verbatim>\<open>vo_serialize\<close> returns. Where
  memory behind an object can be read, \<^verbatim>\<open>vo_deserialize\<close> of the buffer into a new object gives the height, the
  rows and the ten levels of both boundaries back, every string and every hash included. Where it cannot,
  this holds for an object without rows only: the first row makes \<^verbatim>\<open>vo_deserialize\<close> read 33 bytes from a
  pointer variable of 8.\<close>

theorem vo_codec_roundtrip:
  assumes "vo_proper vo" "vo_fresh w" "length (vo_bytes vo) \<le> length buffer"
  shows "\<exists>image. vo_serialize vo buffer = Some image \<and> length image = length buffer \<and>
    vo_deserialize beyond w image =
      (if beyond \<or> (\<forall>ds \<in> set (data vo). ds = [])
       then Some (w\<lparr>traverse_height := traverse_height vo, data := data vo, leftvo := leftvo vo, rightvo := rightvo vo\<rparr>)
       else None)"
proof -
  have "vo_shape vo" using assms(1) by (auto simp: vo_proper_def vo_shape_def nodevo_proper_def)
  then show ?thesis
    using vo_serialize_eq [of vo buffer] vo_deserialize_bytes [OF assms(1,2), of beyond]
      vo_deserialize_fault [OF assms(1,2), of beyond] assms(3) by (cases beyond) auto
qed

text \<open>Whatever is written, the buffer keeps its length.\<close>

definition keeps_length :: "(nat \<times> byte list \<Rightarrow> (nat \<times> byte list) option) \<Rightarrow> bool" where
  "keeps_length f \<longleftrightarrow> (\<forall>st st'. f st = Some st' \<longrightarrow> length (snd st') = length (snd st))"

lemma keeps_emit: "keeps_length (emit bs)"
  by (auto simp: keeps_length_def emit_def blit_def split: bind_splits if_splits)

lemma keeps_bind: "keeps_length f \<Longrightarrow> keeps_length g \<Longrightarrow> keeps_length (\<lambda>st. f st \<bind> g)"
  unfolding keeps_length_def by (auto simp: bind_eq_Some_conv)

lemma keeps_get: "(\<And>x. keeps_length (g x)) \<Longrightarrow> keeps_length (\<lambda>st. r \<bind> (\<lambda>x. g x st))"
  unfolding keeps_length_def by (auto simp: bind_eq_Some_conv)

lemma keeps_for: "(\<And>i. keeps_length (f i)) \<Longrightarrow> keeps_length (for_up lo hi f)"
proof -
  assume k: "\<And>i. keeps_length (f i)"
  have "for_up lo hi f st = Some st' \<Longrightarrow> length (snd st') = length (snd st)" for st st'
    using k
  proof (induction lo hi f st rule: for_up.induct)
    case (1 i hi f st)
    show ?case
    proof (cases "i < hi")
      case True
      then obtain st1 where "f i st = Some st1" "for_up (i + 1) hi f st1 = Some st'"
        using 1(2) by (auto simp: for_up.simps [of i] bind_eq_Some_conv)
      moreover have "length (snd st1) = length (snd st)"
        using 1(3) [of i] \<open>f i st = Some st1\<close> unfolding keeps_length_def by blast
      ultimately show ?thesis using 1(1) [OF True _ _ 1(3)] by simp
    next
      case False
      then show ?thesis using 1(2) by (simp add: for_up.simps [of i])
    qed
  qed
  then show ?thesis by (simp add: keeps_length_def)
qed

lemma keeps_strings: "keeps_length (emit_strings ds)"
  unfolding emit_strings_def [abs_def] by (intro keeps_bind keeps_emit keeps_for keeps_get)

lemma keeps_nodevo: "keeps_length (emit_nodevo v)"
  unfolding emit_nodevo_def [abs_def] by (intro keeps_bind keeps_emit keeps_for keeps_get)

lemma vo_serialize_length:
  assumes "vo_serialize vo buffer = Some img" shows "length img = length buffer"
proof -
  let ?w = "\<lambda>st. do { st \<leftarrow> emit (int32_le (traverse_height vo)) st;
          st \<leftarrow> emit (size_le (length (data vo))) st;
          st \<leftarrow> for_up 0 (int (length (data vo))) (\<lambda>i st. do { ds \<leftarrow> aget (data vo) i; emit_strings ds st }) st;
          st \<leftarrow> for_up 0 (int BPLUS_MAX_LEVEL) (\<lambda>i st. do { v \<leftarrow> aget (leftvo vo) i; emit_nodevo v st }) st;
          for_up 0 (int BPLUS_MAX_LEVEL) (\<lambda>i st. do { v \<leftarrow> aget (rightvo vo) i; emit_nodevo v st }) st }"
  have "keeps_length ?w" by (intro keeps_bind keeps_emit keeps_for keeps_get keeps_strings keeps_nodevo)
  moreover have "vo_serialize vo buffer = map_option snd (?w (0, buffer))"
    by (simp add: vo_serialize_def map_conv_bind_option Option.bind_assoc o_def)
  ultimately obtain st where st: "?w (0, buffer) = Some st" "img = snd st" and k: "keeps_length ?w"
    using assms by (cases "?w (0, buffer)") auto
  show ?thesis using k [unfolded keeps_length_def, rule_format, OF st(1)] st(2) by simp
qed

text \<open>C12. \<^verbatim>\<open>vo_serialize\<close> does not look at the size of its buffer: it runs past the end exactly when the image,
  whose length the rows and hashes decide, is longer than the buffer.\<close>

theorem vo_serialize_overflow:
  assumes "vo_shape vo"
  shows "vo_serialize vo buffer = None \<longleftrightarrow> length buffer < length (vo_bytes vo)"
  using vo_serialize_eq [OF assms, of buffer] by auto

subsection \<open>The maps of child numbers\<close>

text \<open>The node numbers marked in a row, and the bytes of a level: its map's size and, for each
  marked node, its number and the numbers of its children.\<close>

definition marked :: "int list \<Rightarrow> nat list" where
  "marked row = filter (\<lambda>j. row ! j \<noteq> 0) [0..<500]"

definition ids_of :: "int list hashmap \<Rightarrow> nat \<Rightarrow> int list" where
  "ids_of hp j = the (hashmap_get hp (int j))"

definition ids_bytes :: "int list hashmap \<Rightarrow> nat \<Rightarrow> byte list" where
  "ids_bytes hp j = int64_le (int j) @ size_le (length (ids_of hp j)) @ concat (map int64_le (ids_of hp j))"

definition level_bytes :: "int list hashmap \<Rightarrow> int list \<Rightarrow> byte list" where
  "level_bytes hp row = int64_le (hm_size hp) @ (if hm_size hp > 0 then concat (map (ids_bytes hp) (marked row)) else [])"

definition maps_bytes :: "id_maps \<Rightarrow> int list list \<Rightarrow> byte list" where
  "maps_bytes hashp marks = concat (map (\<lambda>i. level_bytes (hashp ! i) (marks ! i)) [0..<BPLUS_MAX_LEVEL])"

text \<open>Maps and marks that agree: a row of 500 marks for every level, as many marks as the size of the
  map says, and the map defined exactly at the marked numbers.\<close>

definition level_agrees :: "int list hashmap \<Rightarrow> int list \<Rightarrow> bool" where
  "level_agrees hp row \<longleftrightarrow> length row = 500 \<and> hm_size hp = int (length (marked row)) \<and>
     (\<forall>k. hashmap_get hp k \<noteq> None \<longleftrightarrow> (\<exists>j \<in> set (marked row). k = int j)) \<and>
     (\<forall>j \<in> set (marked row). length (ids_of hp j) < 2 ^ 64 \<and> (\<forall>c \<in> set (ids_of hp j). in_int64 c))"

definition maps_agree :: "id_maps \<Rightarrow> int list list \<Rightarrow> bool" where
  "maps_agree hashp marks \<longleftrightarrow> length hashp = BPLUS_MAX_LEVEL \<and> length marks = BPLUS_MAX_LEVEL \<and>
     (\<forall>i < BPLUS_MAX_LEVEL. level_agrees (hashp ! i) (marks ! i))"

lemma emits_ids: "hashmap_get hp (int j) \<noteq> None \<Longrightarrow> emits (emit_ids hp (int j)) (ids_bytes hp j)"
proof -
  assume "hashmap_get hp (int j) \<noteq> None"
  then have g: "hashmap_get hp (int j) = Some (ids_of hp j)" by (auto simp: ids_of_def)
  have "emits (for_up 0 (int (length (ids_of hp j))) (\<lambda>k st. do { value1 \<leftarrow> aget (ids_of hp j) k; emit (int64_le value1) st }))
      (concat (map int64_le (ids_of hp j)))"
    by (rule emits_list) (rule emits_emit)
  then show ?thesis
    unfolding emit_ids_def [abs_def] ids_bytes_def g Option.bind.bind_lunit by (intro emits_bind emits_emit)
qed

lemma concat_marked: "concat (map (\<lambda>j. if row ! j = 0 then [] else f j) [0..<500]) = concat (map f (marked row))"
proof -
  have "concat (map (\<lambda>j. if row ! j = 0 then [] else f j) xs) = concat (map f (filter (\<lambda>j. row ! j \<noteq> 0) xs))" for xs
    by (induction xs) simp_all
  then show ?thesis by (simp only: marked_def)
qed

lemma emits_level:
  assumes "level_agrees hp row"
  shows "emits (\<lambda>st. do { st \<leftarrow> emit (int64_le (hm_size hp)) st;
      (if hm_size hp > 0 then for_up 0 500 (\<lambda>j st. do { mark \<leftarrow> aget row j; (if mark = 0 then Some st else emit_ids hp j st) }) st
       else Some st) }) (level_bytes hp row)"
proof -
  have "emits (for_up (int 0) (int 500) (\<lambda>j st. do { mark \<leftarrow> aget row j; (if mark = 0 then Some st else emit_ids hp j st) }))
      (concat (map (\<lambda>j. if row ! j = 0 then [] else ids_bytes hp j) [0..<500]))"
  proof (rule emits_for)
    fix j :: nat assume j: "0 \<le> j" "j < 500"
    then have a: "aget row (int j) = Some (row ! j)" using assms by (simp add: level_agrees_def aget_def)
    show "emits (\<lambda>st. do { mark \<leftarrow> aget row (int j); (if mark = 0 then Some st else emit_ids hp (int j) st) })
        (if row ! j = 0 then [] else ids_bytes hp j)"
    proof (cases "row ! j = 0")
      case False
      then have "j \<in> set (marked row)" using j by (simp add: marked_def)
      then have "hashmap_get hp (int j) \<noteq> None" using assms unfolding level_agrees_def by blast
      then show ?thesis using False a emits_ids by simp
    qed (simp add: a emits_skip)
  qed
  then have "emits (for_up 0 500 (\<lambda>j st. do { mark \<leftarrow> aget row j; (if mark = 0 then Some st else emit_ids hp j st) }))
      (concat (map (ids_bytes hp) (marked row)))"
    unfolding concat_marked by simp
  then have "emits (\<lambda>st. if hm_size hp > 0
        then for_up 0 500 (\<lambda>j st. do { mark \<leftarrow> aget row j; (if mark = 0 then Some st else emit_ids hp j st) }) st else Some st)
      (if hm_size hp > 0 then concat (map (ids_bytes hp) (marked row)) else [])"
    by (simp add: emits_skip)
  then show ?thesis unfolding level_bytes_def by (intro emits_bind emits_emit)
qed

lemma hashmap_serialize_eq:
  assumes "maps_agree hashp marks"
  shows "hashmap_serialize hashp marks buffer =
    (if length (maps_bytes hashp marks) \<le> length buffer
     then Some (maps_bytes hashp marks @ drop (length (maps_bytes hashp marks)) buffer) else None)"
proof -
  let ?w = "for_up (int 0) (int BPLUS_MAX_LEVEL) (\<lambda>i st. do {
               hp \<leftarrow> aget hashp i;
               st \<leftarrow> emit (int64_le (hm_size hp)) st;
               (if hm_size hp > 0 then
                  for_up 0 500
                    (\<lambda>j st. do { row \<leftarrow> aget marks i;
                                 mark \<leftarrow> aget row j;
                                 (if mark = 0 then Some st else emit_ids hp j st) }) st
                else Some st) })"
  have "emits ?w (maps_bytes hashp marks)"
    unfolding maps_bytes_def
  proof (rule emits_for)
    fix i assume "0 \<le> i" "i < BPLUS_MAX_LEVEL"
    then have e: "aget hashp (int i) = Some (hashp ! i)" "aget marks (int i) = Some (marks ! i)"
      and l: "level_agrees (hashp ! i) (marks ! i)"
      using assms by (simp_all add: maps_agree_def aget_def)
    show "emits (\<lambda>st. do {
               hp \<leftarrow> aget hashp (int i);
               st \<leftarrow> emit (int64_le (hm_size hp)) st;
               (if hm_size hp > 0 then
                  for_up 0 500
                    (\<lambda>j st. do { row \<leftarrow> aget marks (int i);
                                 mark \<leftarrow> aget row j;
                                 (if mark = 0 then Some st else emit_ids hp j st) }) st
                else Some st) }) (level_bytes (hashp ! i) (marks ! i))"
      unfolding e Option.bind.bind_lunit by (rule emits_level [OF l])
  qed
  from emitsD [OF this, of "[]" buffer] show ?thesis by (simp add: hashmap_serialize_def)
qed

lemma read_ids_at:
  assumes "length (ids_of hp j) < 2 ^ 64" "\<forall>c \<in> set (ids_of hp j). in_int64 c" "j < 500"
  shows "read_ids (d @ ids_bytes hp j @ rest) (length d, hp') =
    Some (length d + length (ids_bytes hp j), snd (hashmap_set True hp' (int j) (Some (ids_of hp j))))"
proof -
  let ?pv = "ids_of hp j" and ?B = "d @ ids_bytes hp j @ rest"
  let ?bss = "map int64_le ?pv" and ?d = "d @ int64_le (int j) @ size_le (length ?pv)"
  have "for_up 0 (int (length ?pv)) (\<lambda>k (pos, pv). do { value1 \<leftarrow> get_int64 ?B pos; Some (pos + 8, pv @ [value1]) }) (length ?d, []) =
      Some (length (?d @ concat ?bss), [] @ ?pv)"
  proof (rule read_list)
    fix i acc assume i: "i < length ?pv"
    have B: "?B = (?d @ concat (take i ?bss)) @ int64_le (?pv ! i) @ concat (drop (Suc i) ?bss) @ rest"
      using concat_take_nth [of i ?bss] i by (simp add: ids_bytes_def)
    have "get_int64 ?B (length (?d @ concat (take i ?bss))) = Some (?pv ! i)"
      unfolding B by (rule get_int64_at) (use assms(2) i in auto)
    then show "(\<lambda>(pos, pv). do { value1 \<leftarrow> get_int64 ?B pos; Some (pos + 8, pv @ [value1]) }) (length (?d @ concat (take i ?bss)), acc) =
        Some (length (?d @ concat (take (Suc i) ?bss)), acc @ [?pv ! i])"
      using i by (simp add: concat_take_Suc add.assoc)
  qed simp
  moreover have "get_int64 ?B (length d) = Some (int j)" "get_size ?B (length d + 8) = Some (length ?pv)"
    using assms(1,3) get_int64_at [of "int j" "length d" d] get_size_at [of "length ?pv" "length d + 8" "d @ int64_le (int j)"]
    by (simp_all add: ids_bytes_def in_int64_def)
  ultimately show ?thesis by (simp add: read_ids_def ids_bytes_def add.assoc)
qed

definition stored_ids :: "int list hashmap \<Rightarrow> nat list \<Rightarrow> int list hashmap \<Rightarrow> int list hashmap" where
  "stored_ids hp js hp' = foldl (\<lambda>m kv. snd (hashmap_set True m (fst kv) (Some (snd kv)))) hp' (map (\<lambda>j. (int j, ids_of hp j)) js)"

lemma stored_ids_get:
  assumes "level_agrees hp row" "hm_ok e" "hashmap_get e = Map.empty"
  shows "hashmap_get (stored_ids hp (marked row) e) = hashmap_get hp"
proof (rule ext)
  fix k
  let ?kvs = "map (\<lambda>j. (int j, ids_of hp j)) (marked row)"
  have g: "hashmap_get (stored_ids hp (marked row) e) k = map_of (rev ?kvs) k"
    unfolding stored_ids_def hm.lookup_store_all [OF assms(2)] by (simp add: assms(3) split: option.splits)
  have iff: "hashmap_get hp k \<noteq> None \<longleftrightarrow> (\<exists>j \<in> set (marked row). k = int j)" using assms(1) unfolding level_agrees_def by blast
  show "hashmap_get (stored_ids hp (marked row) e) k = hashmap_get hp k"
  proof (cases "map_of (rev ?kvs) k")
    case None
    then have "k \<notin> fst ` set (rev ?kvs)" unfolding map_of_eq_None_iff .
    then show ?thesis using g None iff by force
  next
    case (Some v)
    then have "(k, v) \<in> set (rev ?kvs)" by (rule map_of_SomeD)
    then show ?thesis using g Some iff by (auto simp: ids_of_def)
  qed
qed

lemma read_level_at:
  assumes "level_agrees hp row"
  shows "for_up 0 (int (length (marked row))) (\<lambda>j st. read_ids (d @ concat (map (ids_bytes hp) (marked row)) @ rest) st) (length d, e) =
    Some (length d + length (concat (map (ids_bytes hp) (marked row))), stored_ids hp (marked row) e)"
proof -
  let ?js = "marked row" let ?bss = "map (ids_bytes hp) ?js"
  let ?B = "d @ concat ?bss @ rest" and ?S = "\<lambda>i. (length (d @ concat (take i ?bss)), stored_ids hp (take i ?js) e)"
  have "for_up 0 (int (length ?js)) (\<lambda>j st. read_ids ?B st) (?S 0) = Some (?S (length ?js))"
  proof (rule for_up_states)
    fix i assume i: "i < length ?js"
    have m: "?js ! i \<in> set ?js" using i by simp
    have B: "?B = (d @ concat (take i ?bss)) @ ids_bytes hp (?js ! i) @ concat (drop (Suc i) ?bss) @ rest"
      using concat_take_nth [of i ?bss] i by simp
    have "read_ids ?B (length (d @ concat (take i ?bss)), stored_ids hp (take i ?js) e) =
        Some (length (d @ concat (take i ?bss)) + length (ids_bytes hp (?js ! i)),
          snd (hashmap_set True (stored_ids hp (take i ?js) e) (int (?js ! i)) (Some (ids_of hp (?js ! i)))))"
      unfolding B by (rule read_ids_at) (use assms m in \<open>auto simp: level_agrees_def marked_def\<close>)
    then show "read_ids ?B (?S i) = Some (?S (Suc i))"
      using i by (simp add: concat_take_Suc stored_ids_def take_Suc_conv_app_nth add.assoc)
  qed
  then show ?thesis by (simp add: stored_ids_def)
qed

lemma hashmap_deserialize_bytes:
  assumes "maps_agree hashp marks"
  shows "hashmap_deserialize (replicate BPLUS_MAX_LEVEL e) (maps_bytes hashp marks @ rest) =
    Some (map (\<lambda>i. stored_ids (hashp ! i) (marked (marks ! i)) e) [0..<BPLUS_MAX_LEVEL])"
proof -
  let ?r = "\<lambda>i. stored_ids (hashp ! i) (marked (marks ! i)) e"
  let ?bss = "map (\<lambda>i. level_bytes (hashp ! i) (marks ! i)) [0..<BPLUS_MAX_LEVEL]"
  let ?B = "concat ?bss @ rest"
  let ?S = "\<lambda>i. (length (concat (take i ?bss)), map ?r [0..<i] @ replicate (BPLUS_MAX_LEVEL - i) e)"
  have "for_up 0 (int BPLUS_MAX_LEVEL)
            (\<lambda>i (pos, hashp). do {
               hp_size \<leftarrow> get_int64 ?B pos;
               (if hp_size > 0 then
                  do { hp \<leftarrow> aget hashp i;
                       (pos, hp) \<leftarrow> for_up 0 hp_size (\<lambda>j st. read_ids ?B st) (pos + 8, hp);
                       hashp \<leftarrow> aput hashp i hp;
                       Some (pos, hashp) }
                else Some (pos + 8, hashp)) }) (?S 0) = Some (?S BPLUS_MAX_LEVEL)"
  proof (rule for_up_states)
    fix i assume i: "i < BPLUS_MAX_LEVEL"
    let ?hp = "hashp ! i" and ?js = "marked (marks ! i)" and ?d = "concat (take i ?bss)" and ?z = "concat (drop (Suc i) ?bss) @ rest"
    let ?m = "map ?r [0..<i] @ replicate (BPLUS_MAX_LEVEL - i) e"
    have ag: "level_agrees ?hp (marks ! i)" and sz: "hm_size ?hp = int (length ?js)"
      using assms i by (simp_all add: maps_agree_def level_agrees_def)
    have "length ?js \<le> 500" unfolding marked_def by (rule order.trans [OF length_filter_le]) simp
    then have fit: "in_int64 (hm_size ?hp)" using sz by (simp add: in_int64_def)
    have B: "?B = ?d @ level_bytes ?hp (marks ! i) @ ?z" using concat_take_nth [of i ?bss] i by simp
    have g: "get_int64 ?B (length ?d) = Some (hm_size ?hp)"
      unfolding B using get_int64_at [OF fit] by (simp add: level_bytes_def)
    have R: "replicate (BPLUS_MAX_LEVEL - i) e = e # replicate (BPLUS_MAX_LEVEL - Suc i) e"
      using i by (simp flip: replicate_Suc add: Suc_diff_Suc)
    have m: "aget ?m (int i) = Some e" "\<And>x. aput ?m (int i) x = Some (map ?r [0..<i] @ x # replicate (BPLUS_MAX_LEVEL - Suc i) e)"
      using i unfolding R by (simp_all add: aget_def aput_def nth_append list_update_append)
    have rd: "for_up 0 (hm_size ?hp) (\<lambda>j st. read_ids ?B st) (length ?d + 8, e) =
        Some (length ?d + length (level_bytes ?hp (marks ! i)), stored_ids ?hp ?js e)" if "hm_size ?hp > 0"
      using read_level_at [OF ag, of "?d @ int64_le (hm_size ?hp)" ?z e] that sz unfolding B by (simp add: level_bytes_def add.assoc)
    have nx: "?S (Suc i) = (length ?d + length (level_bytes ?hp (marks ! i)), map ?r [0..<i] @ ?r i # replicate (BPLUS_MAX_LEVEL - Suc i) e)"
      using i by (simp add: concat_take_Suc)
    show "(\<lambda>(pos, hashp). do {
               hp_size \<leftarrow> get_int64 ?B pos;
               (if hp_size > 0 then
                  do { hp \<leftarrow> aget hashp (int i);
                       (pos, hp) \<leftarrow> for_up 0 hp_size (\<lambda>j st. read_ids ?B st) (pos + 8, hp);
                       hashp \<leftarrow> aput hashp (int i) hp;
                       Some (pos, hashp) }
                else Some (pos + 8, hashp)) }) (?S i) = Some (?S (Suc i))"
    proof (cases "hm_size ?hp > 0")
      case True
      then show ?thesis unfolding nx using g m rd by simp
    next
      case False
      then have "?js = []" "level_bytes ?hp (marks ! i) = int64_le (hm_size ?hp)" using sz by (simp_all add: level_bytes_def)
      then show ?thesis unfolding nx using g False R by (simp add: stored_ids_def)
    qed
  qed
  then show ?thesis by (simp add: hashmap_deserialize_def maps_bytes_def)
qed

text \<open>C10. The maps of child numbers survive their byte image: when the marks of the node numbers agree with the maps and
  the image fits the buffer, \<^verbatim>\<open>hashmap_serialize\<close> returns, and \<^verbatim>\<open>hashmap_deserialize\<close> of the buffer into ten
  new maps gives maps that answer every lookup as the original ones do.\<close>

theorem hashmap_codec_roundtrip:
  assumes "maps_agree hashp marks" "length (maps_bytes hashp marks) \<le> length buffer"
    and "hashmap_new True True NUM_BUCKETS myhash compare = Some e"
  shows "\<exists>image maps. hashmap_serialize hashp marks buffer = Some image \<and>
    hashmap_deserialize (replicate BPLUS_MAX_LEVEL e) image = Some maps \<and> map hashmap_get maps = map hashmap_get hashp"
proof -
  have e: "hm_ok e" "hashmap_get e = Map.empty"
    using hm_ok_new [OF _ assms(3)] hashmap_get_new [OF _ assms(3)] by (auto simp: NUM_BUCKETS_def)
  have "map hashmap_get (map (\<lambda>i. stored_ids (hashp ! i) (marked (marks ! i)) e) [0..<BPLUS_MAX_LEVEL]) = map hashmap_get hashp"
    using assms(1) stored_ids_get [OF _ e] by (intro nth_equalityI) (simp_all add: maps_agree_def)
  then show ?thesis
    using hashmap_serialize_eq [OF assms(1), of buffer] hashmap_deserialize_bytes [OF assms(1)] assms(2) by simp
qed

subsection \<open>Concrete instances\<close>

definition plain_nodevo :: "nodevo" where
  "plain_nodevo = \<lparr>node_id = 0, bound_node_childno = 0, nhash = []\<rparr>"

definition plain_vo :: rangevo where
  "plain_vo = \<lparr>traverse_height = 0, leftvo = replicate BPLUS_MAX_LEVEL plain_nodevo, rightvo = replicate BPLUS_MAX_LEVEL plain_nodevo,
     data = [], itemdata = [], vo_hashmap = replicate 8192 0, mbtree_size = 1\<rparr>"

definition sample_vo :: rangevo where
  "sample_vo = plain_vo\<lparr>traverse_height := 1, data := [[[52, 50, 0], [55, 0]]],
     leftvo := replicate BPLUS_MAX_LEVEL (plain_nodevo\<lparr>node_id := 3, nhash := [replicate 32 97 @ [0]]\<rparr>)\<rparr>"

lemma plain_vo_fresh: "vo_fresh plain_vo"
  by (simp add: vo_fresh_def plain_vo_def plain_nodevo_def)

lemma sample_vo_proper: "vo_proper sample_vo"
  by (auto simp: vo_proper_def nodevo_proper_def sample_vo_def plain_vo_def plain_nodevo_def c_string_def strlen_def cstr_def
      in_int32_def in_int64_def butlast_append BPLUS_MAX_LEVEL_def)

lemma sample_vo_bytes: "length (vo_bytes sample_vo) \<le> 8192"
  by (simp add: vo_bytes_def nodevo_bytes_def strings_bytes_def sample_vo_def plain_vo_def plain_nodevo_def strlen_def cstr_def
      BPLUS_MAX_LEVEL_def eval_nat_numeral)

theorem vo_codec_roundtrip_witness:
  "\<exists>image. vo_serialize sample_vo (replicate 8192 0) = Some image \<and> length image = 8192 \<and>
    vo_deserialize True plain_vo image = Some (plain_vo\<lparr>traverse_height := traverse_height sample_vo, data := data sample_vo,
      leftvo := leftvo sample_vo, rightvo := rightvo sample_vo\<rparr>) \<and>
    vo_deserialize False plain_vo image = None"
  using vo_codec_roundtrip [OF sample_vo_proper plain_vo_fresh, of "replicate 8192 0" True]
    vo_codec_roundtrip [OF sample_vo_proper plain_vo_fresh, of "replicate 8192 0" False] sample_vo_bytes
  by (auto simp: sample_vo_def)

theorem vo_serialize_overflow_witness:
  "vo_serialize sample_vo (replicate 8192 0) \<noteq> None \<and> vo_serialize sample_vo [] = None"
proof -
  have "vo_shape sample_vo" using sample_vo_proper by (auto simp: vo_proper_def vo_shape_def nodevo_proper_def)
  then show ?thesis
    using vo_serialize_overflow [of sample_vo "replicate 8192 0"] vo_serialize_overflow [of sample_vo "[]"] sample_vo_bytes
    by (auto simp: vo_bytes_def)
qed

definition no_ids :: "int list hashmap" where
  "no_ids = the (hashmap_new True True NUM_BUCKETS myhash compare)"

definition sample_ids :: "int list hashmap" where
  "sample_ids = snd (hashmap_set True no_ids 0 (Some [0, 1]))"

definition sample_maps :: id_maps where
  "sample_maps = (replicate BPLUS_MAX_LEVEL no_ids)[1 := sample_ids]"

definition sample_marks :: "int list list" where
  "sample_marks = (replicate BPLUS_MAX_LEVEL (replicate 500 0))[1 := (replicate 500 0)[0 := 1]]"

lemma no_ids_new: "hashmap_new True True NUM_BUCKETS myhash compare = Some no_ids"
  by (simp add: no_ids_def hashmap_new_def)

lemma marked_none: "marked (replicate 500 0) = []"
  by (simp add: marked_def filter_empty_conv)

lemma marked_zero: "marked ((replicate 500 0)[0 := 1]) = [0]"
proof -
  have "[0..<500] = 0 # [Suc 0..<500]" by (rule upt_conv_Cons) simp
  moreover have "filter (\<lambda>j. (replicate 500 (0::int))[0 := 1] ! j \<noteq> 0) [Suc 0..<500] = []"
    by (simp add: filter_empty_conv)
  ultimately show ?thesis by (simp add: marked_def)
qed

lemma no_ids_facts: "hm_ok no_ids" "hashmap_get no_ids k = None" "hm_size no_ids = 0"
  using hm_ok_new [OF _ no_ids_new] hashmap_get_new [OF _ no_ids_new, of k] by (simp_all add: NUM_BUCKETS_def no_ids_def hashmap_new_def)

lemma sample_ids_facts: "hashmap_get sample_ids k = (if k = 0 then Some [0, 1] else None)" "hm_size sample_ids = 1"
  using hm.lookup_store [OF no_ids_facts(1), of 0 "[0, 1]" k] no_ids_facts(2) by (simp_all add: sample_ids_def)
   (code_simp)

lemma sample_maps_agree: "maps_agree sample_maps sample_marks"
proof -
  have "level_agrees no_ids (replicate 500 0)"
    by (simp add: level_agrees_def marked_none no_ids_facts)
  moreover have "level_agrees sample_ids ((replicate 500 0)[0 := 1])"
    by (simp add: level_agrees_def marked_zero sample_ids_facts ids_of_def in_int64_def)
  ultimately have "level_agrees (sample_maps ! i) (sample_marks ! i)" if "i < BPLUS_MAX_LEVEL" for i
    using that unfolding sample_maps_def sample_marks_def
    by (cases "i = 1") (simp_all add: nth_list_update)
  then show ?thesis by (simp add: maps_agree_def) (simp add: sample_maps_def sample_marks_def)
qed

lemma sample_maps_bytes: "length (maps_bytes sample_maps sample_marks) \<le> 8192"
  by (simp add: maps_bytes_def level_bytes_def sample_maps_def sample_marks_def BPLUS_MAX_LEVEL_def upt_rec
      marked_none marked_zero sample_ids_facts no_ids_facts ids_bytes_def ids_of_def nth_list_update)

theorem hashmap_codec_roundtrip_witness:
  "\<exists>image maps. hashmap_serialize sample_maps sample_marks (replicate 8192 0) = Some image \<and>
    hashmap_deserialize (replicate BPLUS_MAX_LEVEL no_ids) image = Some maps \<and> map hashmap_get maps = map hashmap_get sample_maps"
  using hashmap_codec_roundtrip [OF sample_maps_agree _ no_ids_new, of "replicate 8192 0"] sample_maps_bytes by simp

end
