(* ===== verification/MBT_Scan.thy ===== *)
theory MBT_Scan
  imports MBT_Access MBT_VoCodec
begin

text \<open>
  The scan of the executor and the access method from the outside (MBT_Access): the whole run of a scan, call by
  call, what \<^verbatim>\<open>AuthRangeQuery\<close> keeps of the items a range query finds, the condition whose scan fails, and the rows
  whose text fits the blocks of \<^verbatim>\<open>getTupleValue\<close>.
\<close>

declare for_up_none [simp]

subsection \<open>Compaction of the items found\<close>

text \<open>What the loop of \<^verbatim>\<open>AuthRangeQuery\<close> keeps of the items, as a function of the list.\<close>

fun kept_items :: "ItemPointerData list \<Rightarrow> ItemPointerData list" where
  "kept_items [] = []"
| "kept_items [z] = (if ip_posid z < 100 then [z] else [])"
| "kept_items (x # y # zs) = (if ip_posid x \<noteq> ip_posid y then x # kept_items (y # zs) else kept_items (y # zs))"

fun kept_front :: "ItemPointerData list \<Rightarrow> ItemPointerData list" where
  "kept_front (x # y # zs) = (if ip_posid x \<noteq> ip_posid y then x # kept_front (y # zs) else kept_front (y # zs))"
| "kept_front _ = []"

lemma kept_items_front: "xs \<noteq> [] \<Longrightarrow> kept_items xs = kept_front xs @ (if ip_posid (last xs) < 100 then [last xs] else [])"
  by (induction xs rule: kept_items.induct) auto

lemma kept_front_snoc: "kept_front (xs @ [x, y]) = kept_front (xs @ [x]) @ (if ip_posid x \<noteq> ip_posid y then [x] else [])"
proof (induction xs)
  case (Cons a xs)
  then show ?case by (cases xs) auto
qed simp

lemma length_kept_front: "length (kept_front xs) \<le> length xs - 1"
  by (induction xs rule: kept_front.induct) auto

lemma compact_loop:
  assumes "Suc n \<le> length xs"
  shows "for_up 0 (int n)
      (\<lambda>i (dat, size_count). do {
         x \<leftarrow> aget dat i; y \<leftarrow> aget dat (i + 1);
         (if ip_posid x \<noteq> ip_posid y then
            do { dat \<leftarrow> aput dat size_count x; Some (dat, size_count + 1) }
          else Some (dat, size_count)) })
      (xs, 0) =
    Some (kept_front (take (Suc n) xs) @ drop (length (kept_front (take (Suc n) xs))) xs,
      int (length (kept_front (take (Suc n) xs))))"
    (is "for_up 0 _ ?step _ = _")
  using assms
proof (induction n)
  case 0
  then show ?case by (cases xs) auto
next
  case (Suc n)
  let ?k = "kept_front (take (Suc n) xs)"
  let ?dat = "?k @ drop (length ?k) xs"
  have k: "length ?k \<le> n" using length_kept_front [of "take (Suc n) xs"] Suc.prems by simp
  have n: "?dat ! n = xs ! n" "?dat ! Suc n = xs ! Suc n" "length ?dat = length xs"
    using k Suc.prems by (auto simp: nth_append)
  have tk: "take (Suc (Suc n)) xs = take n xs @ [xs ! n, xs ! Suc n]" "take (Suc n) xs = take n xs @ [xs ! n]"
    using Suc.prems by (simp_all add: take_Suc_conv_app_nth)
  have sn: "kept_front (take (Suc (Suc n)) xs) = ?k @ (if ip_posid (xs ! n) \<noteq> ip_posid (xs ! Suc n) then [xs ! n] else [])"
    unfolding tk by (rule kept_front_snoc)
  have upd: "?dat[length ?k := x] = ?k @ x # drop (Suc (length ?k)) xs" for x
    using k Suc.prems by (simp add: list_update_append Cons_nth_drop_Suc [symmetric])
  have get: "aget ?dat (int n) = Some (xs ! n)" "aget ?dat (int n + 1) = Some (xs ! Suc n)"
    "aput ?dat (int (length ?k)) x = Some (?k @ x # drop (Suc (length ?k)) xs)" for x
    using n k Suc.prems upd [of x] by (auto simp: aget_def aput_def nat_add_distrib)
  have "for_up 0 (int n) ?step (xs, 0) = Some (?dat, int (length ?k))" using Suc by simp
  then show ?case
    unfolding for_up0_snoc sn by (simp add: get)
qed

text \<open>The compaction on every list of items; an empty list is a fault.\<close>

lemma compact_items_eq: "compact_items xs = (if xs = [] then None else Some (kept_items xs))"
proof (cases "xs = []")
  case False
  let ?n = "length xs - 1" and ?k = "kept_front xs"
  have n: "Suc ?n = length xs" using False by (cases xs) auto
  have k: "length ?k < length xs" using length_kept_front [of xs] n by linarith
  have last: "aget (?k @ drop (length ?k) xs) (int (length xs) - 1) = Some (last xs)"
    using k False by (auto simp: aget_def nth_append last_conv_nth nat_diff_distrib)
  have upd: "aput (?k @ drop (length ?k) xs) (int (length ?k)) x = Some (?k @ x # drop (Suc (length ?k)) xs)" for x
    using k by (simp add: aput_def list_update_append Cons_nth_drop_Suc [symmetric])
  have "int (length xs) - 1 = int ?n" using n by linarith
  then show ?thesis
    using False compact_loop [of ?n xs] n last upd [of "last xs"] k
    by (simp add: compact_items_def kept_items_front slice_def nat_add_distrib)
qed (simp add: compact_items_def)

subsection \<open>The text of a row\<close>

lemma cstr_before_nul: "0 \<notin> set w \<Longrightarrow> cstr (w @ 0 # r) = w"
  unfolding cstr_def by (subst takeWhile_append2) auto

lemma cstr_no_nul: "0 \<notin> set (cstr b)"
  by (auto simp: cstr_def dest: set_takeWhileD)

lemma strcpy_eq:
  "strcpy dst src = (if length (cstr src) < length dst then Some (cstr src @ 0 # drop (Suc (length (cstr src))) dst) else None)"
  by (auto simp: strcpy_def blit_def)

lemma strcat_eq:
  "strcat dst src =
     (if length (cstr dst) + length (cstr src) < length dst
      then Some (cstr dst @ cstr src @ 0 # drop (Suc (length (cstr dst) + length (cstr src))) dst) else None)"
proof -
  have "take (length (cstr dst)) dst = cstr dst" unfolding cstr_def by (rule takeWhile_eq_take [symmetric])
  then show ?thesis by (auto simp: strcat_def blit_def strlen_def)
qed

lemma strcat_cstr:
  assumes "strcat dst src = Some buf"
  shows "cstr buf = cstr dst @ cstr src" "length buf = length dst"
proof -
  have buf: "buf = (cstr dst @ cstr src) @ 0 # drop (Suc (length (cstr dst) + length (cstr src))) dst"
    and le: "length (cstr dst) + length (cstr src) < length dst"
    using assms by (auto simp: strcat_eq split: if_splits)
  show "cstr buf = cstr dst @ cstr src"
    unfolding buf by (rule cstr_before_nul) (use cstr_no_nul in auto)
  show "length buf = length dst" using le by (simp add: buf)
qed

text \<open>The texts of the attributes that are written as text.\<close>

definition row_texts :: "attribute list \<Rightarrow> byte list list" where
  "row_texts atts = map (\<lambda>a. cstr (att_output a)) (filter (\<lambda>a. att_format a = 0) atts)"

definition row_fits :: "attribute list \<Rightarrow> bool" where
  "row_fits atts \<longleftrightarrow> (\<forall>t \<in> set (row_texts atts). length t < 12) \<and> length (concat (row_texts atts)) < 64"

definition row_step :: "byte list \<Rightarrow> attribute list \<Rightarrow> int \<Rightarrow> int \<Rightarrow> byte list \<times> int \<Rightarrow> (byte list \<times> int) option" where
  "row_step raw12 atts indkey i st =
     (case st of (buf, v) \<Rightarrow>
        do { att \<leftarrow> aget atts i;
             buf \<leftarrow> (if att_format att = 0 then
                       do { t \<leftarrow> strcpy raw12 (att_output att); strcat buf t }
                     else Some buf);
             Some (buf, if indkey = i then int32 (att_datum att) else v) })"

text \<open>One text: it is appended if it fits both blocks.\<close>

lemma append_text:
  assumes "length raw12 = 12" "length buf = 64"
  shows "case do { t \<leftarrow> strcpy raw12 out; strcat buf t } of
      None \<Rightarrow> \<not> (length (cstr out) < 12 \<and> length (cstr buf) + length (cstr out) < 64)
    | Some buf' \<Rightarrow> length (cstr out) < 12 \<and> length (cstr buf) + length (cstr out) < 64 \<and>
        length buf' = 64 \<and> cstr buf' = cstr buf @ cstr out"
proof (cases "length (cstr out) < 12")
  case False
  then show ?thesis using assms(1) by (simp add: strcpy_eq)
next
  case True
  obtain t where t: "strcpy raw12 out = Some t" "cstr t = cstr out"
    using True assms(1) cstr_before_nul [OF cstr_no_nul] by (auto simp: strcpy_eq)
  show ?thesis
  proof (cases "strcat buf t")
    case None
    then show ?thesis using t assms(2) by (simp add: strcat_eq split: if_splits)
  next
    case (Some buf')
    then have "length (cstr buf) + length (cstr t) < 64" using assms(2) by (simp add: strcat_eq split: if_splits)
    then show ?thesis using Some strcat_cstr [OF Some] t True assms(2) by simp
  qed
qed

lemma row_loop:
  assumes "length raw12 = 12" "n \<le> length atts"
  shows "case for_up 0 (int n) (row_step raw12 atts indkey) (replicate 64 0, v) of
      None \<Rightarrow> \<not> row_fits (take n atts)
    | Some (buf, w) \<Rightarrow> row_fits (take n atts) \<and> length buf = 64 \<and> cstr buf = concat (row_texts (take n atts)) \<and>
        w = (if 0 \<le> indkey \<and> indkey < int n then int32 (att_datum (atts ! nat indkey)) else v)"
  using assms(2)
proof (induction n)
  case 0
  then show ?case by (simp add: cstr_def row_texts_def row_fits_def)
next
  case (Suc n)
  let ?a = "atts ! n"
  have tk: "take (Suc n) atts = take n atts @ [?a]" using Suc.prems by (simp add: take_Suc_conv_app_nth)
  have ag: "aget atts (int n) = Some ?a" using Suc.prems by (simp add: aget_def)
  have rt: "row_texts (take (Suc n) atts) = row_texts (take n atts) @ (if att_format ?a = 0 then [cstr (att_output ?a)] else [])"
    unfolding tk by (simp add: row_texts_def)
  show ?case
  proof (cases "for_up 0 (int n) (row_step raw12 atts indkey) (replicate 64 0, v)")
    case None
    then show ?thesis using Suc unfolding for_up0_snoc row_fits_def rt by auto
  next
    case (Some r)
    obtain buf w where r: "r = (buf, w)" by (cases r)
    have IH: "row_fits (take n atts)" "length buf = 64" "cstr buf = concat (row_texts (take n atts))"
      "w = (if 0 \<le> indkey \<and> indkey < int n then int32 (att_datum (atts ! nat indkey)) else v)"
      using Suc Some r by auto
    show ?thesis
    proof (cases "att_format ?a = 0")
      case False
      then show ?thesis using Some r IH unfolding for_up0_snoc row_fits_def rt by (auto simp: row_step_def ag)
    next
      case True
      let ?b = "strcpy raw12 (att_output ?a) \<bind> strcat buf"
      have "for_up 0 (int (Suc n)) (row_step raw12 atts indkey) (replicate 64 0, v) =
          map_option (\<lambda>b. (b, if indkey = int n then int32 (att_datum ?a) else w)) ?b"
        unfolding for_up0_snoc using Some r True by (simp add: row_step_def ag map_conv_bind_option o_def)
      then show ?thesis
        using append_text [OF assms(1) IH(2), of "att_output ?a"] IH True unfolding row_fits_def rt
        by (cases ?b) auto
    qed
  qed
qed

lemma getTupleValue_step:
  "getTupleValue raw12 raw_info atts indkey =
     do { (buf, v) \<leftarrow> for_up 0 (int (length atts)) (row_step raw12 atts indkey) (replicate 64 0, ivalue raw_info);
          Some (raw_info\<lparr>str := buf, ivalue := v\<rparr>) }"
  unfolding getTupleValue_def row_step_def by simp

subsection \<open>The calls of a scan\<close>

text \<open>\<open>n\<close> calls of \<^verbatim>\<open>AuthIndexNext\<close>, with the slots they fill.\<close>

primrec scan_calls ::
    "nat \<Rightarrow> malloc \<Rightarrow> (rangevo \<Rightarrow> pgvector \<times> pgvector) \<Rightarrow> (int \<Rightarrow> int \<Rightarrow> rangevo option) \<Rightarrow> (ItemPointerData \<Rightarrow> 't) \<Rightarrow> int \<Rightarrow> int \<Rightarrow> auth_expr \<Rightarrow>
     auth_scan \<Rightarrow> 't slot \<Rightarrow> ('t slot list \<times> auth_scan) option" where
  "scan_calls 0 mal vectors getnext fetch l0 r0 e sc sl = Some ([], sc)"
| "scan_calls (Suc n) mal vectors getnext fetch l0 r0 e sc sl =
     do { (sc, sl) \<leftarrow> AuthIndexNext mal vectors getnext fetch l0 r0 e sc sl;
          (sls, sc) \<leftarrow> scan_calls n mal vectors getnext fetch l0 r0 e sc sl;
          Some (sl # sls, sc) }"

text \<open>The vectors are released whatever they hold and whatever the allocator does.\<close>

lemma release_vectors_returns: "\<exists>vs. release_vectors mal vecs = Some vs"
proof -
  have "\<exists>w. clear_unless_empty mal v = Some w" for v
    using vector_clear_returns [of mal v] by (auto simp: clear_unless_empty_def)
  then show ?thesis unfolding release_vectors_def by (metis bind.bind_lunit)
qed

lemma scan_calls_rest:
  assumes "\<not> scan_flag sc" "myvo sc = Some vo" "vector_index sc = int i" "i \<le> length (itemdata vo)"
    "n = length (itemdata vo) - i" "image_size vo = Some sz" "length (vo_str sc) = sz" "length (hashpmap_str sc) = sz"
  shows "\<exists>sls sc' fin. scan_calls (Suc n) mal vectors getnext fetch l0 r0 e sc sl = Some (sls @ [fin], sc') \<and>
    map slot_tuple sls = map (Some \<circ> fetch) (drop i (itemdata vo)) \<and>
    slot_tuple fin = None \<and> slot_flag fin \<and> hashmap_num fin = mbtree_size vo \<and>
    slot_vo_str fin = vo_str sc \<and> slot_hashmap_str fin = hashpmap_str sc \<and> scan_flag sc' \<and> myvo sc' = None"
  using assms
proof (induction n arbitrary: i sc sl)
  case 0
  obtain vs where "release_vectors mal (vectors vo) = Some vs" using release_vectors_returns by blast
  then show ?case using 0 by (simp add: AuthIndexNext_def auth_start_def slice_def)
next
  case (Suc n)
  then have i: "i < length (itemdata vo)" by simp
  let ?sc = "sc\<lparr>vector_index := vector_index sc + 1\<rparr>" and ?sl = "sl\<lparr>slot_tuple := Some (fetch (itemdata vo ! i))\<rparr>"
  have step: "AuthIndexNext mal vectors getnext fetch l0 r0 e sc sl = Some (?sc, ?sl)"
    using Suc.prems(1-3) i by (simp add: AuthIndexNext_def auth_start_def aget_def)
  obtain sls sc' fin where r: "scan_calls (Suc n) mal vectors getnext fetch l0 r0 e ?sc ?sl = Some (sls @ [fin], sc')"
    "map slot_tuple sls = map (Some \<circ> fetch) (drop (Suc i) (itemdata vo))"
    "slot_tuple fin = None \<and> slot_flag fin \<and> hashmap_num fin = mbtree_size vo \<and>
      slot_vo_str fin = vo_str ?sc \<and> slot_hashmap_str fin = hashpmap_str ?sc \<and> scan_flag sc' \<and> myvo sc' = None"
  proof -
    have pre: "\<not> scan_flag ?sc" "myvo ?sc = Some vo" "vector_index ?sc = int (Suc i)" "Suc i \<le> length (itemdata vo)"
      "n = length (itemdata vo) - Suc i" "image_size vo = Some sz" "length (vo_str ?sc) = sz" "length (hashpmap_str ?sc) = sz"
      using Suc.prems i by auto
    show thesis using Suc.IH [OF pre, of ?sl] that by blast
  qed
  have "scan_calls (Suc (Suc n)) mal vectors getnext fetch l0 r0 e sc sl = Some ((?sl # sls) @ [fin], sc')"
    unfolding scan_calls.simps(2) [of "Suc n"] step bind.simps prod.case r(1) by simp
  moreover have "map slot_tuple (?sl # sls) = map (Some \<circ> fetch) (drop i (itemdata vo))"
    using r(2) i by (simp add: Cons_nth_drop_Suc [symmetric])
  ultimately show ?case using r(3) by (intro exI [of _ "?sl # sls"] exI [of _ sc'] exI [of _ fin]) simp
qed

lemma image_size_eq: "0 \<le> mbtree_size vo \<Longrightarrow> mbtree_size vo < 2 ^ 18 \<Longrightarrow> image_size vo = Some (nat (mbtree_size vo) * DEFAULTSIZE)"
  by (simp add: image_size_def in_int32_def DEFAULTSIZE_def nat_mult_distrib)

lemma auth_start_eq:
  assumes "scan_flag sc" "getnext (fst (auth_bounds l0 r0 e)) (snd (auth_bounds l0 r0 e)) = Some vo"
    "vo_serialize vo (replicate (nat (mbtree_size vo) * DEFAULTSIZE) 0) = Some vs"
    "slice (vo_hashmap vo) 0 (nat (mbtree_size vo) * DEFAULTSIZE) = Some hs" "0 \<le> mbtree_size vo" "mbtree_size vo < 2 ^ 18"
  shows "auth_start getnext l0 r0 e sc =
    Some \<lparr>scan_flag = False, myvo = Some vo, vo_str = vs, hashpmap_str = hs, vector_index = 0\<rparr>"
  using assms by (cases "auth_bounds l0 r0 e") (simp add: auth_start_def Let_def image_size_eq)

subsection \<open>A range given the wrong way round\<close>

text \<open>The leaf scan reports a key only between the bounds in the order they are given.\<close>

lemma scan_leaves_reversed:
  assumes "key2 < key1" "scan_leaves fuel beyond raw33 s key1 key2 mx p i (nd, ds, result, ks) = Some (nd', ds', result', ks')"
  shows "result' = result"
  using assms(2)
proof (induction fuel arbitrary: p i nd ds ks)
  case (Suc fuel)
  then show ?case using assms(1) by (auto simp: Let_def split: if_splits bind_splits)
qed simp

lemma range_query_reversed:
  assumes "key2 < key1" "bplus_tree_get_range_disk_vo fuel beyond raw33 s key1 key2 (result, vo, ks) = Some (result', vo', ks')"
  shows "result' = result"
  using assms(2) scan_leaves_reversed [OF assms(1)]
  unfolding bplus_tree_get_range_disk_vo_def by (auto simp: Let_def split: if_splits bind_splits)

lemma AuthRangeQuery_reversed:
  assumes "right < left" shows "AuthRangeQuery fuel beyond raw33 s left right vo = None"
proof (cases "bplus_tree_get_range_disk_vo fuel beyond raw33 s left right ([], vo, [])")
  case (Some r)
  obtain result vo' ks where r: "r = (result, vo', ks)" by (cases r)
  have "result = []" by (rule range_query_reversed [OF assms Some [unfolded r]])
  then show ?thesis using Some r by (simp add: AuthRangeQuery_def compact_items_def)
qed (simp add: AuthRangeQuery_def)

subsection \<open>Properties\<close>

text \<open>C11. A scan of the executor comes to its end and loses nothing: when the query returns a verification
  object of fewer than \<open>2 ^ 18\<close> blocks whose byte images can be made, the calls of \<^verbatim>\<open>AuthIndexNext\<close> hand out the
  rows of its item pointers one by one and in order, and the call after the last row hands out the two byte
  images, releases the vectors of the object and makes the scan ready to start again.\<close>

theorem auth_scan_complete:
  assumes "scan_flag sc" "getnext (fst (auth_bounds l0 r0 e)) (snd (auth_bounds l0 r0 e)) = Some vo"
    "vo_serialize vo (replicate (nat (mbtree_size vo) * DEFAULTSIZE) 0) = Some vs"
    "slice (vo_hashmap vo) 0 (nat (mbtree_size vo) * DEFAULTSIZE) = Some hs" "0 \<le> mbtree_size vo" "mbtree_size vo < 2 ^ 18"
  shows "\<exists>sls fin sc'. scan_calls (Suc (length (itemdata vo))) mal vectors getnext fetch l0 r0 e sc sl = Some (sls @ [fin], sc') \<and>
    map slot_tuple sls = map (Some \<circ> fetch) (itemdata vo) \<and> slot_tuple fin = None \<and> slot_flag fin \<and>
    hashmap_num fin = mbtree_size vo \<and> slot_vo_str fin = vs \<and> slot_hashmap_str fin = hs \<and> scan_flag sc' \<and> myvo sc' = None"
proof -
  let ?sc = "\<lparr>scan_flag = False, myvo = Some vo, vo_str = vs, hashpmap_str = hs, vector_index = 0\<rparr>"
  have "AuthIndexNext mal vectors getnext fetch l0 r0 e sc sl = AuthIndexNext mal vectors getnext fetch l0 r0 e ?sc sl" for sl :: "'a slot"
    by (simp add: AuthIndexNext_def auth_start_eq [where sc = sc and getnext = getnext and ?l0.0 = l0 and ?r0.0 = r0 and e = e, OF assms]) (simp add: auth_start_def)
  then have "scan_calls (Suc n) mal vectors getnext fetch l0 r0 e sc sl = scan_calls (Suc n) mal vectors getnext fetch l0 r0 e ?sc sl" for n and sl :: "'a slot"
    by simp
  moreover have "length vs = nat (mbtree_size vo) * DEFAULTSIZE" "length hs = nat (mbtree_size vo) * DEFAULTSIZE"
    using vo_serialize_length [OF assms(3)] assms(4) by (auto simp: slice_def split: if_splits)
  ultimately show ?thesis
    using scan_calls_rest [of ?sc vo 0 "length (itemdata vo)" _ mal vectors getnext fetch l0 r0 e sl] image_size_eq [OF assms(5,6)] by auto
qed

definition scan_vectors :: "rangevo \<Rightarrow> pgvector \<times> pgvector" where
  "scan_vectors vo =
     (\<lparr>vsize = length (itemdata vo), vcapacity = 60, velement_size = 32, vdata = Some (replicate 1920 0)\<rparr>,
      \<lparr>vsize = length (data vo), vcapacity = 60, velement_size = 32, vdata = Some (replicate 1920 0)\<rparr>)"

definition scanned_vo :: rangevo where
  "scanned_vo = sample_vo\<lparr>itemdata := [\<lparr>bi_hi = 0, bi_lo = 7, ip_posid = 1\<rparr>, \<lparr>bi_hi = 0, bi_lo = 7, ip_posid = 2\<rparr>]\<rparr>"

theorem auth_scan_complete_witness:
  "\<exists>sls fin sc'. scan_calls 3 malloc_zeroed scan_vectors (\<lambda>l r. Some scanned_vo) ip_posid 0 0 (Auth_Expr \<lparr>opName = ''='', constvalue = 5\<rparr>)
      \<lparr>scan_flag = True, myvo = None, vo_str = [], hashpmap_str = [], vector_index = 0\<rparr>
      \<lparr>slot_tuple = None, hashmap_num = 0, slot_hashmap_str = [], slot_vo_str = [], slot_flag = False\<rparr> = Some (sls @ [fin], sc') \<and>
    map slot_tuple sls = [Some 1, Some 2] \<and> slot_flag fin \<and> scan_flag sc'"
proof -
  have sh: "vo_shape scanned_vo" and b: "length (vo_bytes scanned_vo) \<le> 8192" and m: "mbtree_size scanned_vo = 1"
    and h: "slice (vo_hashmap scanned_vo) 0 8192 = Some (replicate 8192 0)"
    using sample_vo_proper sample_vo_bytes
    by (auto simp: scanned_vo_def vo_proper_def vo_shape_def nodevo_proper_def vo_bytes_def sample_vo_def plain_vo_def slice_def)
  then obtain vs where vs: "vo_serialize scanned_vo (replicate 8192 0) = Some vs"
    using vo_serialize_eq [OF sh, of "replicate 8192 0"] by simp
  have i: "itemdata scanned_vo = [\<lparr>bi_hi = 0, bi_lo = 7, ip_posid = 1\<rparr>, \<lparr>bi_hi = 0, bi_lo = 7, ip_posid = 2\<rparr>]"
    by (simp add: scanned_vo_def)
  show ?thesis
    using auth_scan_complete [of "\<lparr>scan_flag = True, myvo = None, vo_str = [], hashpmap_str = [], vector_index = 0\<rparr>"
      "\<lambda>l r. Some scanned_vo" 0 0 "Auth_Expr \<lparr>opName = ''='', constvalue = 5\<rparr>" scanned_vo vs "replicate 8192 0" malloc_zeroed scan_vectors ip_posid
      "\<lparr>slot_tuple = None, hashmap_num = 0, slot_hashmap_str = [], slot_vo_str = [], slot_flag = False\<rparr>"] vs h
    by (auto simp: m i DEFAULTSIZE_def numeral_3_eq_3)
qed

text \<open>C14. \<^verbatim>\<open>AuthRangeQuery\<close> keeps of the items found exactly those whose position differs from the position of
  their successor, and the last one if its position is below 100. The block numbers are not compared, so
  two rows of different pages are one row to this loop; and a query that finds nothing is a fault.\<close>

theorem compact_items_kept: "compact_items xs = (if xs = [] then None else Some (kept_items xs))"
  by (rule compact_items_eq)

text \<open>C15. A condition \<^verbatim>\<open>>= a\<close> and \<^verbatim>\<open><= b\<close> with \<open>a < b\<close> never gives a row: \<^verbatim>\<open>AuthIndexNext\<close> takes the two bounds the wrong way round,
  the query \<^verbatim>\<open>mbtgettuple\<close> of the index finds no key between them, whatever the tree holds, and the compaction of
  the empty array of items runs outside of it. The first call of the scan does not return.\<close>

theorem closed_interval_scan_fails:
  assumes "scan_flag sc" "int32 a < int32 b"
  shows "AuthIndexNext mal vectors (\<lambda>left right. mbtgettuple fuel beyond raw33 raw_vo index_oid left right am) fetch l0 r0
    (Auth_Op_Expr \<lparr>opName = ''>='', constvalue = a\<rparr> \<lparr>opName = ''<='', constvalue = b\<rparr>) sc sl = None"
proof -
  have "auth_bounds l0 r0 (Auth_Op_Expr \<lparr>opName = ''>='', constvalue = a\<rparr> \<lparr>opName = ''<='', constvalue = b\<rparr>) = (int32 b, int32 a)"
    by (simp add: auth_bounds_def bound_of_def Let_def)
  moreover have "mbtgettuple fuel beyond raw33 raw_vo index_oid (int32 b) (int32 a) am = None"
    using AuthRangeQuery_reversed [OF assms(2)] unfolding mbtgettuple_def by (simp add: Let_def bind_eq_None_conv)
  ultimately show ?thesis using assms(1) by (simp add: AuthIndexNext_def auth_start_def)
qed

theorem closed_interval_scan_fails_witness:
  "\<forall>am. AuthIndexNext malloc_zeroed scan_vectors (\<lambda>left right. mbtgettuple 50 True (replicate 33 0) plain_vo 7 left right am)
     ip_posid 0 0 (Auth_Op_Expr \<lparr>opName = ''>='', constvalue = 10\<rparr> \<lparr>opName = ''<='', constvalue = 20\<rparr>)
     \<lparr>scan_flag = True, myvo = None, vo_str = [], hashpmap_str = [], vector_index = 0\<rparr>
     \<lparr>slot_tuple = None, hashmap_num = 0, slot_hashmap_str = [], slot_vo_str = [], slot_flag = False\<rparr> = None"
  by (intro allI closed_interval_scan_fails) (simp_all add: in_int32_def)

text \<open>C13. The text of a row: \<^verbatim>\<open>getTupleValue\<close> returns the texts of the attributes of text format one after the other,
  and the indexed attribute, converted to \<^verbatim>\<open>int\<close>, as the key, exactly when every such text has at most 11 bytes and
  all of them together at most 63; otherwise it writes outside one of its two blocks. The hash of the root in the
  result is whatever the memory held before.\<close>

theorem getTupleValue_fits:
  assumes "length raw12 = 12"
  shows "case getTupleValue raw12 raw_info atts indkey of
      None \<Rightarrow> \<not> row_fits atts
    | Some info \<Rightarrow> row_fits atts \<and> cstr (str info) = concat (row_texts atts) \<and> root_str info = root_str raw_info \<and>
        ivalue info = (if 0 \<le> indkey \<and> indkey < int (length atts) then int32 (att_datum (atts ! nat indkey)) else ivalue raw_info)"
  using row_loop [OF assms le_refl, of atts indkey "ivalue raw_info"]
  by (cases "for_up 0 (int (length atts)) (row_step raw12 atts indkey) (replicate 64 0, ivalue raw_info)")
    (auto simp: getTupleValue_step)

definition sample_att :: "string \<Rightarrow> int \<Rightarrow> attribute" where
  "sample_att out d = \<lparr>att_format = 0, att_output = ascii out, att_datum = d\<rparr>"

definition raw_index_info :: pg_index_info where
  "raw_index_info = \<lparr>str = [], root_str = Some [1], ivalue = 9\<rparr>"

theorem getTupleValue_fits_witness:
  "(case getTupleValue (replicate 12 0) raw_index_info
        [sample_att ''17'' 4294967313, (sample_att ''hidden'' 5)\<lparr>att_format := 1\<rparr>, sample_att ''bob'' 4] 0 of
      None \<Rightarrow> False | Some info \<Rightarrow> cstr (str info) = ascii ''17bob'' \<and> ivalue info = 17) \<and>
   getTupleValue (replicate 12 0) raw_index_info [sample_att ''17'' 17, sample_att ''twelve chars'' 4] 0 = None"
proof -
  have c: "cstr (ascii ''17'') = ascii ''17''" "cstr (ascii ''bob'') = ascii ''bob''"
    "cstr (ascii ''twelve chars'') = ascii ''twelve chars''" "ascii ''17'' @ ascii ''bob'' = ascii ''17bob''"
    "length (ascii ''17bob'') = 5" "length (ascii ''17'') = 2" "length (ascii ''bob'') = 3" "length (ascii ''twelve chars'') = 12"
    "int32 4294967313 = 17"
    by (simp_all add: cstr_def ascii_def int32_def)
  have t: "row_texts [sample_att ''17'' 4294967313, (sample_att ''hidden'' 5)\<lparr>att_format := 1\<rparr>, sample_att ''bob'' 4] =
      [ascii ''17'', ascii ''bob'']" "row_texts [sample_att ''17'' 17, sample_att ''twelve chars'' 4] = [ascii ''17'', ascii ''twelve chars'']"
    by (simp_all add: row_texts_def sample_att_def c)
  have d: "att_datum (sample_att out v) = v" for out v by (simp add: sample_att_def)
  have "row_fits [sample_att ''17'' 4294967313, (sample_att ''hidden'' 5)\<lparr>att_format := 1\<rparr>, sample_att ''bob'' 4]"
    "\<not> row_fits [sample_att ''17'' 17, sample_att ''twelve chars'' 4]"
    unfolding row_fits_def t by (simp_all add: c)
  then show ?thesis
    using getTupleValue_fits [of "replicate 12 0"
        "[sample_att ''17'' 4294967313, (sample_att ''hidden'' 5)\<lparr>att_format := 1\<rparr>, sample_att ''bob'' 4]" raw_index_info 0]
      getTupleValue_fits [of "replicate 12 0" "[sample_att ''17'' 17, sample_att ''twelve chars'' 4]" raw_index_info 0]
    by (simp add: t c d split: option.splits)
qed

end
