(* ===== verification/StringInfo.thy ===== *)
theory StringInfo
  imports MBT_Prelude
begin

text \<open>
  The extensible strings of the server, \<^verbatim>\<open>src/backend/lib/stringinfo.c\<close>, in which the messages to the client are
  built. A call ends with a value or with an error: \<open>Fault\<close> is an access outside the buffer, the others are the
  errors the code raises. \<open>palloc\<close> gives the unspecified contents of a new block.
\<close>

subsection \<open>Results\<close>

datatype pg_error = Fault | InvalidEnlargement int | OutOfMemory | UnsupportedIntegerSize int | NonTermination

definition bindE :: "'e + 'a \<Rightarrow> ('a \<Rightarrow> 'e + 'b) \<Rightarrow> 'e + 'b" where
  "bindE r f = (case r of Inl e \<Rightarrow> Inl e | Inr x \<Rightarrow> f x)"

lemma bindE_simps [simp]: "bindE (Inl e) f = Inl e" "bindE (Inr x) f = f x"
  by (simp_all add: bindE_def)

definition or_fault :: "'a option \<Rightarrow> pg_error + 'a" where
  "or_fault r = (case r of None \<Rightarrow> Inl Fault | Some x \<Rightarrow> Inr x)"

lemma or_fault_simps [simp]: "or_fault None = Inl Fault" "or_fault (Some x) = Inr x"
  by (simp_all add: or_fault_def)

subsection \<open>The code\<close>

record StringInfoData =
  sdata :: "byte list"
  slen :: int
  smaxlen :: int
  cursor :: int

type_synonym palloc = "nat \<Rightarrow> byte list"

definition MaxAllocSize :: int where
  "MaxAllocSize = 2 ^ 30 - 1"

definition resetStringInfo :: "StringInfoData \<Rightarrow> pg_error + StringInfoData" where
  "resetStringInfo s =
     bindE (or_fault (aput (sdata s) 0 0)) (\<lambda>d. Inr (s\<lparr>sdata := d, slen := 0, cursor := 0\<rparr>))"

definition initStringInfo :: "palloc \<Rightarrow> StringInfoData \<Rightarrow> pg_error + StringInfoData" where
  "initStringInfo pal s = resetStringInfo (s\<lparr>sdata := pal 1024, smaxlen := 1024\<rparr>)"

definition makeStringInfo :: "palloc \<Rightarrow> StringInfoData \<Rightarrow> pg_error + StringInfoData" where
  "makeStringInfo pal raw = initStringInfo pal raw"

text \<open>\<^verbatim>\<open>while (needed > newlen) newlen = 2 * newlen\<close>; \<open>None\<close> if the loop does not end.\<close>

partial_function (option) double_until :: "int \<Rightarrow> int \<Rightarrow> int option" where
  "double_until needed newlen = (if needed > newlen then double_until needed (2 * newlen) else Some newlen)"

definition enlargeStringInfo :: "palloc \<Rightarrow> StringInfoData \<Rightarrow> int \<Rightarrow> pg_error + StringInfoData" where
  "enlargeStringInfo pal s needed =
     (if needed < 0 then Inl (InvalidEnlargement needed)
      else if needed \<ge> MaxAllocSize - slen s then Inl OutOfMemory
      else let needed = needed + slen s + 1 in
        if needed \<le> smaxlen s then Inr s
        else (case double_until needed (2 * smaxlen s) of
                None \<Rightarrow> Inl NonTermination
              | Some newlen \<Rightarrow>
                  (let newlen = (if newlen > MaxAllocSize then MaxAllocSize else newlen);
                       d = take (nat newlen) (sdata s) @ drop (length (sdata s)) (pal (nat newlen))
                   in Inr (s\<lparr>sdata := d, smaxlen := newlen\<rparr>))))"

definition appendBinaryStringInfo ::
    "palloc \<Rightarrow> StringInfoData \<Rightarrow> byte list \<Rightarrow> int \<Rightarrow> pg_error + StringInfoData" where
  "appendBinaryStringInfo pal s dat datalen =
     bindE (enlargeStringInfo pal s datalen) (\<lambda>s.
     bindE (or_fault (slice dat 0 (nat datalen))) (\<lambda>src.
     bindE (or_fault (blit (sdata s) (nat (slen s)) src)) (\<lambda>d.
     bindE (or_fault (aput d (slen s + datalen) 0)) (\<lambda>d.
       Inr (s\<lparr>sdata := d, slen := slen s + datalen\<rparr>)))))"

definition appendStringInfoString :: "palloc \<Rightarrow> StringInfoData \<Rightarrow> byte list \<Rightarrow> pg_error + StringInfoData" where
  "appendStringInfoString pal s z = appendBinaryStringInfo pal s z (int (strlen z))"

definition appendStringInfoChar :: "palloc \<Rightarrow> StringInfoData \<Rightarrow> byte \<Rightarrow> pg_error + StringInfoData" where
  "appendStringInfoChar pal s ch =
     bindE (if slen s + 1 \<ge> smaxlen s then enlargeStringInfo pal s 1 else Inr s) (\<lambda>s.
     bindE (or_fault (aput (sdata s) (slen s) ch)) (\<lambda>d.
     bindE (or_fault (aput d (slen s + 1) 0)) (\<lambda>d.
       Inr (s\<lparr>sdata := d, slen := slen s + 1\<rparr>))))"

subsection \<open>The string a buffer holds\<close>

definition contents :: "StringInfoData \<Rightarrow> byte list" where
  "contents s = take (nat (slen s)) (sdata s)"

definition si_ok :: "StringInfoData \<Rightarrow> bool" where
  "si_ok s \<longleftrightarrow>
     0 \<le> slen s \<and> slen s < smaxlen s \<and> smaxlen s \<le> MaxAllocSize \<and>
     int (length (sdata s)) = smaxlen s \<and> sdata s ! nat (slen s) = 0"

definition palloc_ok :: "palloc \<Rightarrow> bool" where
  "palloc_ok pal \<longleftrightarrow> (\<forall>n. length (pal n) = n)"

text \<open>
  Doubling ends, reaches what is needed, and stays below twice of it: with the guard of
  \<^verbatim>\<open>enlargeStringInfo\<close> no intermediate value leaves the range of \<^verbatim>\<open>int\<close>.
\<close>

lemma double_until_ends:
  assumes "0 < newlen"
  shows "\<exists>r. double_until needed newlen = Some r \<and> needed \<le> r \<and> newlen \<le> r \<and> r \<le> max newlen (2 * needed)"
  using assms
proof (induction "nat (needed - newlen)" arbitrary: newlen rule: less_induct)
  case less
  show ?case
  proof (cases "needed > newlen")
    case True
    then obtain r where "double_until needed (2 * newlen) = Some r" "needed \<le> r" "2 * newlen \<le> r"
      "r \<le> max (2 * newlen) (2 * needed)"
      using less.hyps [of "2 * newlen"] less.prems by auto
    then show ?thesis using True less.prems by (subst double_until.simps) auto
  next
    case False
    then show ?thesis by (subst double_until.simps) auto
  qed
qed

lemma enlargeStringInfo_eq:
  assumes "si_ok s" "palloc_ok pal" "0 \<le> needed" "needed < MaxAllocSize - slen s"
  shows "\<exists>d m. enlargeStringInfo pal s needed = Inr (s\<lparr>sdata := d, smaxlen := m\<rparr>) \<and>
    int (length d) = m \<and> slen s + needed < m \<and> m \<le> MaxAllocSize \<and>
    take (Suc (nat (slen s))) d = take (Suc (nat (slen s))) (sdata s)"
proof (cases "needed + slen s + 1 \<le> smaxlen s")
  case True
  then show ?thesis
    using assms by (intro exI [of _ "sdata s"] exI [of _ "smaxlen s"]) (simp add: enlargeStringInfo_def si_ok_def)
next
  case False
  note ok = assms(1) [unfolded si_ok_def]
  obtain r where r: "double_until (needed + slen s + 1) (2 * smaxlen s) = Some r"
    "needed + slen s + 1 \<le> r" "2 * smaxlen s \<le> r"
    using double_until_ends [of "2 * smaxlen s" "needed + slen s + 1"] ok by auto
  define m where "m = (if r > MaxAllocSize then MaxAllocSize else r)"
  have m: "smaxlen s \<le> m" "needed + slen s < m" "m \<le> MaxAllocSize" "0 \<le> m"
    using r ok assms(3,4) by (auto simp: m_def)
  have len: "length (sdata s) \<le> nat m" using ok m(1) by linarith
  have "nat (slen s) < length (sdata s)" using ok by linarith
  then show ?thesis
    using r(1) False assms(2-4) m len
    by (intro exI [of _ "sdata s @ drop (length (sdata s)) (pal (nat m))"] exI [of _ m])
      (simp add: enlargeStringInfo_def m_def [symmetric] palloc_ok_def Let_def add.commute)
qed

lemma take_blit:
  assumes "blit d n src = Some d'" "n + length src \<le> length d"
  shows "take (n + length src) d' = take n d @ src" "length d' = length d"
  using assms by (auto simp: blit_def)

lemma appendBinary_eq:
  assumes "si_ok s" "palloc_ok pal" "0 \<le> n" "nat n \<le> length dat" "slen s + n < MaxAllocSize"
  shows "\<exists>s'. appendBinaryStringInfo pal s dat n = Inr s' \<and> si_ok s' \<and>
    contents s' = contents s @ take (nat n) dat \<and> cursor s' = cursor s"
proof -
  obtain d m where e: "enlargeStringInfo pal s n = Inr (s\<lparr>sdata := d, smaxlen := m\<rparr>)" "int (length d) = m"
    "slen s + n < m" "m \<le> MaxAllocSize" "take (Suc (nat (slen s))) d = take (Suc (nat (slen s))) (sdata s)"
    using enlargeStringInfo_eq [OF assms(1-3)] assms(5) by (metis add.commute less_diff_eq)
  note ok = assms(1) [unfolded si_ok_def]
  have pre: "take (nat (slen s)) d = contents s"
    using arg_cong [OF e(5), of "take (nat (slen s))"] by (simp add: contents_def)
  have le: "nat (slen s) \<le> length (sdata s)" using ok by linarith
  have fit: "nat (slen s) + nat n < length d" using e(2,3) ok assms(3) by linarith
  let ?d = "take (nat (slen s)) d @ take (nat n) dat @ drop (nat (slen s) + nat n) d"
  have "appendBinaryStringInfo pal s dat n =
      Inr (s\<lparr>sdata := ?d[nat (slen s + n) := 0], smaxlen := m, slen := slen s + n\<rparr>)" (is "_ = Inr ?s")
    using e(1) assms(3,4) ok fit by (simp add: appendBinaryStringInfo_def slice_def blit_def aput_def nat_add_distrib)
  moreover have "si_ok ?s"
    using e(2-4) ok assms(3,4) fit by (auto simp: si_ok_def nat_add_distrib)
  moreover have "contents ?s = contents s @ take (nat n) dat"
    using pre fit assms(3,4) ok le by (simp add: contents_def nat_add_distrib)
  ultimately show ?thesis by fastforce
qed

lemma initStringInfo_eq:
  assumes "palloc_ok pal"
  shows "\<exists>s'. initStringInfo pal s = Inr s' \<and> si_ok s' \<and> contents s' = [] \<and> cursor s' = 0"
  using assms by (auto simp: initStringInfo_def resetStringInfo_def aput_def palloc_ok_def si_ok_def contents_def MaxAllocSize_def)

text \<open>A buffer with unspecified contents, and a block of zeros.\<close>

definition raw_si :: StringInfoData where
  "raw_si = \<lparr>sdata = [], slen = 9, smaxlen = 7, cursor = 5\<rparr>"

definition zero_palloc :: palloc where
  "zero_palloc n = replicate n 0"

text \<open>C30. Appending bytes to a string buffer in a good state either raises the out-of-memory error, exactly
  when the string would reach the allocation limit of 1 GB, or succeeds: the buffer is in a good
  state again (terminated, within its allocated size) and holds the old string followed by the new bytes.\<close>

theorem appendBinaryStringInfo_correct:
  assumes "si_ok s" "palloc_ok pal"
  shows "if slen s + int (length dat) < MaxAllocSize
    then \<exists>s'. appendBinaryStringInfo pal s dat (int (length dat)) = Inr s' \<and> si_ok s' \<and>
           contents s' = contents s @ dat \<and> cursor s' = cursor s
    else appendBinaryStringInfo pal s dat (int (length dat)) = Inl OutOfMemory"
  using appendBinary_eq [OF assms, of "int (length dat)" dat]
  by (simp add: appendBinaryStringInfo_def enlargeStringInfo_def)

theorem appendBinaryStringInfo_correct_witness:
  "\<exists>s s'. initStringInfo zero_palloc raw_si = Inr s \<and>
     appendBinaryStringInfo zero_palloc s [1, 2, 3] 3 = Inr s' \<and> contents s' = [1, 2, 3]"
proof -
  obtain s where s: "initStringInfo zero_palloc raw_si = Inr s" "si_ok s" "contents s = []"
    using initStringInfo_eq [of zero_palloc raw_si] by (auto simp: palloc_ok_def zero_palloc_def)
  have "slen s = 0"
    using s(1) by (auto simp: initStringInfo_def resetStringInfo_def aput_def zero_palloc_def)
  then show ?thesis
    using appendBinaryStringInfo_correct [OF s(2), of zero_palloc "[1, 2, 3]"] s
    by (auto simp: palloc_ok_def zero_palloc_def MaxAllocSize_def)
qed

text \<open>C31. The doubling loop of the enlargement ends, and no value it computes overflows an \<^verbatim>\<open>int\<close>: with
  the request that passed the guard, every doubled length stays below \<open>2 ^ 31\<close>.\<close>

theorem double_until_bounded:
  assumes "0 < maxlen" "maxlen < needed" "needed \<le> MaxAllocSize"
  shows "\<exists>newlen. double_until needed (2 * maxlen) = Some newlen \<and> needed \<le> newlen \<and> in_int32 newlen"
proof -
  obtain r where "double_until needed (2 * maxlen) = Some r" "needed \<le> r" "2 * maxlen \<le> r"
    "r \<le> max (2 * maxlen) (2 * needed)"
    using double_until_ends [of "2 * maxlen" needed] assms(1) by auto
  then show ?thesis
    using assms by (auto simp: in_int32_def MaxAllocSize_def)
qed

theorem double_until_bounded_witness: "\<exists>newlen. double_until 5000 (2 * 1024) = Some newlen \<and> in_int32 newlen"
  using double_until_bounded [of 1024 5000] by (auto simp: MaxAllocSize_def)

end
