(* ===== verification/MBT_Wire.thy ===== *)
theory MBT_Wire
  imports MBT_Access StringInfo
begin

text \<open>
  The way of a verification object to the client and its check there: \<^verbatim>\<open>pq_beginmessage\<close> and \<^verbatim>\<open>pq_sendint\<close> of
  \<^verbatim>\<open>src/backend/libpq/pqformat.c\<close>, \<^verbatim>\<open>printVO\<close> of \<^verbatim>\<open>src/backend/access/common/printtup.c\<close>, the loop of
  \<^verbatim>\<open>ExecutePlan\<close> that calls it, \<^verbatim>\<open>pqGetInt\<close> of \<^verbatim>\<open>src/interfaces/libpq/fe-misc.c\<close>, the message \<^verbatim>\<open>U\<close> of
  \<^verbatim>\<open>src/interfaces/libpq/fe-protocol3.c\<close> and the client's own \<^verbatim>\<open>reconstruct_root\<close> in
  \<^verbatim>\<open>src/interfaces/libpq/clientmbtree.c\<close>.
\<close>

subsection \<open>The server's side\<close>

definition pq_beginmessage :: "palloc \<Rightarrow> StringInfoData \<Rightarrow> int \<Rightarrow> pg_error + StringInfoData" where
  "pq_beginmessage pal raw msgtype = bindE (initStringInfo pal raw) (\<lambda>s. Inr (s\<lparr>cursor := msgtype\<rparr>))"

definition pq_sendint :: "palloc \<Rightarrow> StringInfoData \<Rightarrow> int \<Rightarrow> int \<Rightarrow> pg_error + StringInfoData" where
  "pq_sendint pal s i b =
     (if b = 1 then appendBinaryStringInfo pal s (nat_le 1 (nat (i mod 2 ^ 8))) 1
      else if b = 2 then appendBinaryStringInfo pal s (rev (u16_le (nat (i mod 2 ^ 16)))) 2
      else if b = 4 then appendBinaryStringInfo pal s (rev (int32_le i)) 4
      else Inl (UnsupportedIntegerSize b))"

text \<open>
  The block number \<open>seq\<close> of both byte images; \<^verbatim>\<open>pq_endmessage\<close> sends the type and the string. Its place in the
  images is a product of \<^verbatim>\<open>int\<close> values, and a negative one is a place before the block.
\<close>

definition block_offset :: "int \<Rightarrow> nat option" where
  "block_offset seq = (let off = int32 (seq * int DEFAULTSIZE) in if off < 0 then None else Some (nat off))"

definition printVO :: "palloc \<Rightarrow> StringInfoData \<Rightarrow> 't slot \<Rightarrow> int \<Rightarrow> pg_error + int \<times> byte list" where
  "printVO pal raw sl seq =
     bindE (pq_beginmessage pal raw 85) (\<lambda>s.
     bindE (pq_sendint pal s (hashmap_num sl) 4) (\<lambda>s.
     bindE (pq_sendint pal s 2 2) (\<lambda>s.
     bindE (or_fault (block_offset seq)) (\<lambda>off.
     bindE (appendBinaryStringInfo pal s (drop off (slot_hashmap_str sl)) (int DEFAULTSIZE)) (\<lambda>s.
     bindE (appendBinaryStringInfo pal s (drop off (slot_vo_str sl)) (int DEFAULTSIZE)) (\<lambda>s.
       Inr (cursor s, contents s)))))))"

text \<open>\<^verbatim>\<open>for(count = 0; count < slot->hashmap_num; count++)\<close>: the messages, in order.\<close>

primrec send_blocks :: "palloc \<Rightarrow> StringInfoData \<Rightarrow> 't slot \<Rightarrow> int list \<Rightarrow> pg_error + (int \<times> byte list) list" where
  "send_blocks pal raw sl [] = Inr []"
| "send_blocks pal raw sl (c # cs) =
     bindE (printVO pal raw sl c) (\<lambda>m. bindE (send_blocks pal raw sl cs) (\<lambda>ms. Inr (m # ms)))"

text \<open>
  The end of \<^verbatim>\<open>ExecutePlan\<close>: \<open>auth_plan\<close> says that the plan is an authenticated index scan; \<open>planSlot\<close> is the slot of the
  plan, \<open>sl\<close> the one the junk filter makes of it.
\<close>

definition send_vo ::
    "palloc \<Rightarrow> StringInfoData \<Rightarrow> bool \<Rightarrow> 't slot \<Rightarrow> 't slot \<Rightarrow> pg_error + (int \<times> byte list) list" where
  "send_vo pal raw auth_plan planSlot sl =
     (if auth_plan \<and> slot_flag planSlot then send_blocks pal raw sl [0..hashmap_num sl - 1] else Inr [])"

subsection \<open>The client's side\<close>

definition pqGetInt :: "nat \<Rightarrow> byte list \<Rightarrow> nat \<Rightarrow> int option" where
  "pqGetInt bytes inBuffer inCursor =
     do { bs \<leftarrow> slice inBuffer inCursor bytes;
          (if bytes = 2 then Some (int (le_u16 (rev bs)))
           else if bytes = 4 then Some (le_int32 (rev bs))
           else None) }"

record client =
  mbt_count :: int
  vo_object :: "byte list option list"

text \<open>
  One message \<^verbatim>\<open>U\<close>: the first one allocates the two buffers, each one fills its block, the last one completes them.
  The result says whether the object is complete. A cursor outside the message is a fault. The sizes and
  offsets are products of \<^verbatim>\<open>int\<close> values; \<^verbatim>\<open>malloc\<close> of a negative one returns the null pointer.
\<close>

definition new_buffer :: "int \<Rightarrow> byte list option" where
  "new_buffer sz = (if sz < 0 then None else Some (replicate (nat sz) 0))"

definition client_message :: "byte list \<Rightarrow> client \<Rightarrow> (bool \<times> client) option" where
  "client_message inBuffer c =
     do { cnt \<leftarrow> pqGetInt 4 inBuffer 0;
          nfields \<leftarrow> pqGetInt 2 inBuffer 4;
          c \<leftarrow> (if mbt_count c = 0 then
                  do { objs \<leftarrow> for_up 0 nfields
                         (\<lambda>i objs. aput objs i (new_buffer (int32 (cnt * int DEFAULTSIZE)))) [None, None];
                       b0 \<leftarrow> objs ! 0; b1 \<leftarrow> objs ! 1;
                       Some \<lparr>mbt_count = cnt, vo_object = objs\<rparr> }
                else Some c);
          (cur, objs) \<leftarrow> for_up 0 nfields
            (\<lambda>i (cur, objs). do {
               let cur = cur + nat i * DEFAULTSIZE;
               b \<leftarrow> aget objs i;
               b \<leftarrow> b;
               blk \<leftarrow> slice inBuffer cur DEFAULTSIZE;
               off \<leftarrow> block_offset (int32 (cnt - mbt_count c));
               b \<leftarrow> blit b off blk;
               objs \<leftarrow> aput objs i (Some b);
               Some (cur, objs) })
            (6, vo_object c);
          let c = \<lparr>mbt_count = int32 (mbt_count c - 1), vo_object = objs\<rparr>;
          Some (mbt_count c \<le> 0, c) }"

text \<open>
  The client's \<^verbatim>\<open>reconstruct_root\<close>. It differs from the server's: the string of the left boundary leaf has 33
  bytes, that of an inner node between the boundaries 32; hashes are computed in place; the leaves between the
  boundaries are hashed by two threads, here one after the other.
\<close>

definition rr_leaf_node ::
    "SHA256 \<Rightarrow> byte list \<Rightarrow> rangevo \<Rightarrow> int \<Rightarrow> int \<Rightarrow> byte list hashmap list \<Rightarrow> byte list hashmap list option" where
  "rr_leaf_node raw raw33 vo start_id end_id tmp_hashes =
     do { (node_count, tmp_hashes) \<leftarrow> for_up (start_id + 1) end_id
            (\<lambda>m (node_count, tmp_hashes). do {
               ds \<leftarrow> aget (data vo) node_count;
               mhash \<leftarrow> cat_data raw raw33 ds (replicate 8192 0);
               mhash \<leftarrow> sha256_pg raw mhash mhash;
               tmp_hashes \<leftarrow> record_hash tmp_hashes 0 m mhash;
               Some (node_count + 1, tmp_hashes) })
            (if start_id = end_id then start_id else start_id + 1, tmp_hashes);
          Some tmp_hashes }"

definition client_leaf_hashes ::
    "SHA256 \<Rightarrow> byte list \<Rightarrow> rangevo \<Rightarrow> byte list hashmap list \<Rightarrow> byte list hashmap list option" where
  "client_leaf_hashes raw raw33 vo tmp_hashes =
     do { l \<leftarrow> aget (leftvo vo) (traverse_height vo);
          r \<leftarrow> aget (rightvo vo) (traverse_height vo);
          let start_id = node_id l;
          let end_id = node_id r;
          let mid = c_div (start_id + end_id) 2;
          hashca \<leftarrow> cat_hashes (nhash l) (replicate 33 0);
          ds \<leftarrow> aget (data vo) 0;
          hashca \<leftarrow> cat_data raw raw33 ds hashca;
          hashca \<leftarrow> sha256_pg raw hashca hashca;
          tmp_hashes \<leftarrow> record_hash tmp_hashes 0 start_id hashca;
          tmp_hashes \<leftarrow> rr_leaf_node raw raw33 vo start_id mid tmp_hashes;
          tmp_hashes \<leftarrow> rr_leaf_node raw raw33 vo mid end_id tmp_hashes;
          ds \<leftarrow> aget (data vo)
            (if start_id \<noteq> 0 \<and> end_id \<noteq> 0 \<and> start_id = end_id \<and> nhash r \<noteq> [] then - 1 else 0);
          ehash \<leftarrow> cat_data raw raw33 ds (replicate 8192 0);
          ehash \<leftarrow> cat_hashes (nhash r) ehash;
          ehash \<leftarrow> sha256_pg raw ehash ehash;
          record_hash tmp_hashes 0 end_id ehash }"

text \<open>The children of an inner node between the boundaries must all be known: \<^verbatim>\<open>strcat\<close> is called without a test.\<close>

definition cat_all :: "byte list hashmap \<Rightarrow> int list \<Rightarrow> byte list \<Rightarrow> byte list option" where
  "cat_all known ids = for_up 0 (int (length ids))
     (\<lambda>j buf. do { index \<leftarrow> aget ids j; ss_temp \<leftarrow> hashmap_get known index; strcat buf ss_temp })"

definition client_non_leaf_hashes ::
    "SHA256 \<Rightarrow> id_maps \<Rightarrow> rangevo \<Rightarrow> int \<Rightarrow> byte list hashmap list \<Rightarrow> byte list hashmap list option" where
  "client_non_leaf_hashes raw hashp vo k tmp_hashes =
     do { let i = traverse_height vo - k;
          l \<leftarrow> aget (leftvo vo) i;
          r \<leftarrow> aget (rightvo vo) i;
          let start_id = node_id l;
          let end_id = node_id r;
          known \<leftarrow> aget tmp_hashes (k - 1);
          ids \<leftarrow> aget hashp k;
          (if start_id \<noteq> end_id then
             do { hashca \<leftarrow> cat_hashes (nhash l) (replicate 8192 0);
                  pv \<leftarrow> hashmap_get ids start_id;
                  hashca \<leftarrow> cat_known known pv hashca;
                  h \<leftarrow> hash33 raw hashca;
                  tmp_hashes \<leftarrow> record_hash tmp_hashes k start_id h;
                  tmp_hashes \<leftarrow> for_up (start_id + 1) end_id
                    (\<lambda>p tmp_hashes. do {
                       childs \<leftarrow> hashmap_get ids p;
                       phash \<leftarrow> cat_all known childs (replicate 32 0);
                       h \<leftarrow> hash33 raw phash;
                       record_hash tmp_hashes k p h })
                    tmp_hashes;
                  pv1 \<leftarrow> hashmap_get ids end_id;
                  ehash2 \<leftarrow> cat_known known pv1 (replicate 8192 0);
                  ehash2 \<leftarrow> cat_hashes (nhash r) ehash2;
                  ehash2 \<leftarrow> sha256_pg raw ehash2 ehash2;
                  record_hash tmp_hashes k end_id ehash2 }
           else
             do { hashca \<leftarrow> cat_hashes (nhash l) (replicate 8192 0);
                  pv2 \<leftarrow> hashmap_get ids start_id;
                  hashca \<leftarrow> cat_known known pv2 hashca;
                  hashca \<leftarrow> cat_hashes (nhash r) hashca;
                  h \<leftarrow> hash33 raw hashca;
                  record_hash tmp_hashes k end_id h }) }"

definition client_reconstruct_root ::
    "SHA256 \<Rightarrow> byte list \<Rightarrow> id_maps \<Rightarrow> rangevo \<Rightarrow> byte list \<Rightarrow> byte list option" where
  "client_reconstruct_root raw raw33 hashp vo rootbuf =
     do { rootbuf \<leftarrow> blit rootbuf 0 (replicate 33 0);
          hm \<leftarrow> hashmap_new True True NUM_BUCKETS myhash compare;
          tmp_hashes \<leftarrow> client_leaf_hashes raw raw33 vo (replicate BPLUS_MAX_LEVEL hm);
          tmp_hashes \<leftarrow> for_up 1 (traverse_height vo + 1) (client_non_leaf_hashes raw hashp vo) tmp_hashes;
          known \<leftarrow> aget tmp_hashes (if traverse_height vo \<ge> 1 then traverse_height vo else 0);
          ss_temp \<leftarrow> hashmap_get known 0;
          strcpy rootbuf ss_temp }"

text \<open>
  What the client does with a complete object: decode, reconstruct into a block of 32 bytes (\<open>raw32\<close>), and compare 32
  characters with the root it got before. The client's \<^verbatim>\<open>vo_deserialize\<close> is the server's.
\<close>

definition client_verify ::
    "bool \<Rightarrow> SHA256 \<Rightarrow> byte list \<Rightarrow> byte list \<Rightarrow> rangevo \<Rightarrow> int \<Rightarrow> byte list \<Rightarrow> client \<Rightarrow> bool option" where
  "client_verify beyond raw raw33 raw32 raw_vo cnt mbroot c =
     do { b0 \<leftarrow> aget (vo_object c) 0; b0 \<leftarrow> b0;
          b1 \<leftarrow> aget (vo_object c) 1; b1 \<leftarrow> b1;
          hm \<leftarrow> hashmap_new True True NUM_BUCKETS myhash compare;
          hashp \<leftarrow> hashmap_deserialize (replicate BPLUS_MAX_LEVEL hm) b0;
          vo \<leftarrow> rangevo_init raw_vo (int32 (cnt * int DEFAULTSIZE));
          vo \<leftarrow> vo_deserialize beyond vo b1;
          rt \<leftarrow> client_reconstruct_root raw raw33 hashp vo raw32;
          rt32 \<leftarrow> slice rt 0 32;
          mb32 \<leftarrow> slice mbroot 0 32;
          Some (rt32 = mb32) }"

subsection \<open>The transport is faithful\<close>

lemma slen_contents: "si_ok s \<Longrightarrow> slen s = int (length (contents s))"
  by (auto simp: si_ok_def contents_def)

lemma append_step:
  assumes "si_ok s" "palloc_ok pal" "n = int m" "m \<le> length dat" "length (contents s) + m < nat MaxAllocSize"
  shows "\<exists>s'. appendBinaryStringInfo pal s dat n = Inr s' \<and> si_ok s' \<and> contents s' = contents s @ take m dat \<and>
    cursor s' = cursor s"
  using appendBinary_eq [OF assms(1,2), of n dat] slen_contents [OF assms(1)] assms(3-5)
  by (auto simp: MaxAllocSize_def)

definition vo_block :: "int \<Rightarrow> byte list \<Rightarrow> byte list" where
  "vo_block seq b = take DEFAULTSIZE (drop (nat seq * DEFAULTSIZE) b)"

definition vo_message :: "int \<Rightarrow> byte list \<Rightarrow> byte list \<Rightarrow> int \<Rightarrow> byte list" where
  "vo_message k h v seq = rev (int32_le k) @ rev (u16_le 2) @ vo_block seq h @ vo_block seq v"

lemma length_vo_block: "0 \<le> seq \<Longrightarrow> seq < k \<Longrightarrow> length b = nat k * DEFAULTSIZE \<Longrightarrow> length (vo_block seq b) = DEFAULTSIZE"
proof -
  assume a: "0 \<le> seq" "seq < k" "length b = nat k * DEFAULTSIZE"
  then have "nat seq + 1 \<le> nat k" by auto
  then have "(nat seq + 1) * DEFAULTSIZE \<le> length b" unfolding a(3) by (rule mult_le_mono1)
  then show ?thesis by (simp add: vo_block_def)
qed

text \<open>Below \<open>2 ^ 18\<close> blocks no size and no offset leaves the range of \<^verbatim>\<open>int\<close>.\<close>

lemma block_offset_eq: "0 \<le> seq \<Longrightarrow> seq < 2 ^ 18 \<Longrightarrow> block_offset seq = Some (nat seq * DEFAULTSIZE)"
  by (simp add: block_offset_def in_int32_def DEFAULTSIZE_def nat_mult_distrib Let_def)

lemma new_buffer_eq: "0 \<le> k \<Longrightarrow> k < 2 ^ 18 \<Longrightarrow> new_buffer (int32 (k * int DEFAULTSIZE)) = Some (replicate (nat k * DEFAULTSIZE) 0)"
  by (simp add: new_buffer_def in_int32_def DEFAULTSIZE_def nat_mult_distrib)

lemma printVO_eq:
  assumes "palloc_ok pal" "0 \<le> seq" "seq < hashmap_num sl"
    "length (slot_hashmap_str sl) = nat (hashmap_num sl) * DEFAULTSIZE"
    "length (slot_vo_str sl) = nat (hashmap_num sl) * DEFAULTSIZE" "hashmap_num sl < 2 ^ 18"
  shows "printVO pal raw sl seq =
    Inr (85, vo_message (hashmap_num sl) (slot_hashmap_str sl) (slot_vo_str sl) seq)"
proof -
  let ?h = "drop (nat seq * DEFAULTSIZE) (slot_hashmap_str sl)" and ?v = "drop (nat seq * DEFAULTSIZE) (slot_vo_str sl)"
  have lh: "DEFAULTSIZE \<le> length ?h" "DEFAULTSIZE \<le> length ?v"
    using length_vo_block [OF assms(2,3,4)] length_vo_block [OF assms(2,3,5)] by (simp_all add: vo_block_def)
  have sm: "6 + 2 * DEFAULTSIZE < nat MaxAllocSize" by (simp add: DEFAULTSIZE_def MaxAllocSize_def)
  obtain s0 where "initStringInfo pal raw = Inr s0" "si_ok s0" "contents s0 = []"
    using initStringInfo_eq [OF assms(1)] by blast
  then obtain s1 where s1: "pq_beginmessage pal raw 85 = Inr s1" "si_ok s1" "contents s1 = []" "cursor s1 = 85"
    by (simp add: pq_beginmessage_def si_ok_def contents_def)
  obtain s2 where s2: "pq_sendint pal s1 (hashmap_num sl) 4 = Inr s2" "si_ok s2"
    "contents s2 = rev (int32_le (hashmap_num sl))" "cursor s2 = 85"
    using append_step [OF s1(2) assms(1), of 4 4 "rev (int32_le (hashmap_num sl))"] s1(3,4) sm
    by (auto simp: pq_sendint_def)
  obtain s3 where s3: "pq_sendint pal s2 2 2 = Inr s3" "si_ok s3"
    "contents s3 = rev (int32_le (hashmap_num sl)) @ rev (u16_le 2)" "cursor s3 = 85"
    using append_step [OF s2(2) assms(1), of 2 2 "rev (u16_le 2)"] s2(3,4) sm
    by (auto simp: pq_sendint_def)
  obtain s4 where s4: "appendBinaryStringInfo pal s3 ?h (int DEFAULTSIZE) = Inr s4" "si_ok s4"
    "contents s4 = contents s3 @ vo_block seq (slot_hashmap_str sl)" "cursor s4 = 85"
    using append_step [OF s3(2) assms(1) refl lh(1)] s3(3,4) sm by (auto simp: vo_block_def)
  have "length (contents s4) = 6 + DEFAULTSIZE" using s4(3) s3(3) lh(1) by (simp add: vo_block_def)
  then obtain s5 where s5: "appendBinaryStringInfo pal s4 ?v (int DEFAULTSIZE) = Inr s5"
    "contents s5 = contents s4 @ vo_block seq (slot_vo_str sl)" "cursor s5 = 85"
    using append_step [OF s4(2) assms(1) refl lh(2)] s4(4) sm by (auto simp: vo_block_def)
  show ?thesis
    using s1(1) s2(1) s3(1,3) s4(1,3) s5 block_offset_eq [of seq] assms(2,3,6) by (simp add: printVO_def vo_message_def)
qed

lemma send_blocks_eq:
  assumes "palloc_ok pal" "length (slot_hashmap_str sl) = nat (hashmap_num sl) * DEFAULTSIZE"
    "length (slot_vo_str sl) = nat (hashmap_num sl) * DEFAULTSIZE" "hashmap_num sl < 2 ^ 18"
    "\<forall>c \<in> set cs. 0 \<le> c \<and> c < hashmap_num sl"
  shows "send_blocks pal raw sl cs =
    Inr (map (\<lambda>c. (85, vo_message (hashmap_num sl) (slot_hashmap_str sl) (slot_vo_str sl) c)) cs)"
  using assms(5) by (induction cs) (simp_all add: printVO_eq [OF assms(1) _ _ assms(2-4)])

text \<open>The messages one after the other; the result tells whether the last one completed the object.\<close>

primrec client_messages :: "byte list list \<Rightarrow> client \<Rightarrow> (bool \<times> client) option" where
  "client_messages [] c = Some (False, c)"
| "client_messages (m # ms) c =
     do { (fin, c) \<leftarrow> client_message m c; (if ms = [] then Some (fin, c) else client_messages ms c) }"

definition partial_object :: "int \<Rightarrow> int \<Rightarrow> byte list \<Rightarrow> byte list" where
  "partial_object k seq b = take (nat seq * DEFAULTSIZE) b @ replicate (nat (k - seq) * DEFAULTSIZE) 0"

lemma blit_block:
  assumes "0 \<le> seq" "seq < k" "length b = nat k * DEFAULTSIZE"
  shows "blit (partial_object k seq b) (nat seq * DEFAULTSIZE) (vo_block seq b) = Some (partial_object k (seq + 1) b)"
proof -
  obtain i j where ij: "nat seq = i" "nat k = i + Suc j" "nat (seq + 1) = Suc i" "nat (k - seq) = Suc j" "nat (k - (seq + 1)) = j"
    using assms(1,2) that [of "nat seq" "nat (k - seq) - 1"] by auto
  have len: "length (vo_block seq b) = DEFAULTSIZE" using length_vo_block assms by blast
  have "take (i * DEFAULTSIZE) b @ vo_block seq b = take (Suc i * DEFAULTSIZE) b"
    unfolding vo_block_def ij(1) by (simp add: take_add [symmetric] add.commute)
  moreover have "min (DEFAULTSIZE + (i + j) * DEFAULTSIZE) (i * DEFAULTSIZE) = i * DEFAULTSIZE"
    by (simp add: min_def algebra_simps)
  ultimately show ?thesis
    using assms(3) len ij by (simp add: blit_def partial_object_def)
qed


lemma pqGetInt_message:
  assumes "in_int32 k"
  shows "pqGetInt 4 (vo_message k h v seq) 0 = Some k" "pqGetInt 2 (vo_message k h v seq) 4 = Some 2"
  using le_int32_int32_le [OF assms, of "[]"] le_u16_u16_le [of 2 "[]"]
  by (simp_all add: pqGetInt_def vo_message_def slice_def)

lemma for_up_two: "for_up 0 2 f x = f 0 x \<bind> f 1"
proof -
  have two: "for_up 2 2 f = Some" by (simp add: fun_eq_iff for_up.simps [of 2])
  have "for_up 1 2 f = f 1" by (rule ext) (simp add: for_up.simps [of 1] two)
  then show ?thesis by (simp add: for_up.simps [of 0])
qed

lemma client_message_eq:
  assumes "k < 2 ^ 18" "0 \<le> seq" "seq < k" "length h = nat k * DEFAULTSIZE" "length v = nat k * DEFAULTSIZE"
    and "mbt_count c = (if seq = 0 then 0 else k - seq)"
    and "seq = 0 \<or> vo_object c = [Some (partial_object k seq h), Some (partial_object k seq v)]"
  shows "client_message (vo_message k h v seq) c =
    Some (k - seq - 1 \<le> 0, \<lparr>mbt_count = k - seq - 1,
      vo_object = [Some (partial_object k (seq + 1) h), Some (partial_object k (seq + 1) v)]\<rparr>)"
proof -
  let ?c = "\<lparr>mbt_count = k - seq, vo_object = [Some (partial_object k seq h), Some (partial_object k seq v)]\<rparr>"
  have alloc: "(if mbt_count c = 0 then
        do { objs \<leftarrow> for_up 0 2 (\<lambda>i objs. aput objs i (new_buffer (int32 (k * int DEFAULTSIZE)))) [None, None];
             b0 \<leftarrow> objs ! 0; b1 \<leftarrow> objs ! 1; Some \<lparr>mbt_count = k, vo_object = objs\<rparr> }
      else Some c) = Some ?c"
  proof (cases "seq = 0")
    case True
    then show ?thesis using assms(1,3,6) new_buffer_eq [of k] by (simp add: for_up_two aput_def partial_object_def)
  next
    case False
    then show ?thesis using assms(3,6,7) by (cases c) simp
  qed
  have lb: "length (vo_block seq h) = DEFAULTSIZE" "length (vo_block seq v) = DEFAULTSIZE"
    using length_vo_block assms(2-5) by blast+
  have blk: "slice (vo_message k h v seq) 6 DEFAULTSIZE = Some (vo_block seq h)"
    "slice (vo_message k h v seq) (6 + DEFAULTSIZE) DEFAULTSIZE = Some (vo_block seq v)"
    using lb by (simp_all add: slice_def vo_message_def)
  have rng: "in_int32 k" "in_int32 seq" "in_int32 (k - seq - 1)" using assms(1-3) by (simp_all add: in_int32_def)
  have off: "block_offset seq = Some (nat seq * DEFAULTSIZE)" using block_offset_eq assms(1-3) by simp
  show ?thesis
    unfolding client_message_def
    using alloc blk blit_block [OF assms(2-4)] blit_block [OF assms(2,3,5)] off rng(2,3)
    by (simp add: pqGetInt_message [OF rng(1)] for_up_two aget_def aput_def)
qed

lemma client_messages_eq:
  assumes "k < 2 ^ 18" "length h = nat k * DEFAULTSIZE" "length v = nat k * DEFAULTSIZE"
    and "0 \<le> seq" "seq < k" "mbt_count c = (if seq = 0 then 0 else k - seq)"
    and "seq = 0 \<or> vo_object c = [Some (partial_object k seq h), Some (partial_object k seq v)]"
  shows "client_messages (map (vo_message k h v) [seq..k - 1]) c = Some (True, \<lparr>mbt_count = 0, vo_object = [Some h, Some v]\<rparr>)"
  using assms(4-)
proof (induction "nat (k - seq)" arbitrary: seq c)
  case (Suc n)
  note step = client_message_eq [OF assms(1) Suc.prems(1,2) assms(2,3) Suc.prems(3,4)]
  have list: "[seq..k - 1] = seq # [seq + 1..k - 1]" using Suc.prems(2) by (simp add: upto_rec1)
  show ?case
  proof (cases "seq + 1 = k")
    case True
    then have "partial_object k (seq + 1) h = h" "partial_object k (seq + 1) v = v"
      using assms(2,3) by (simp_all add: partial_object_def)
    moreover have "[seq + 1..k - 1] = []" using True by simp
    ultimately show ?thesis using step True by (simp add: list)
  next
    case False
    then have less: "seq + 1 < k" using Suc.prems(2) by simp
    have ne: "map (vo_message k h v) [seq + 1..k - 1] \<noteq> []" using less by simp
    have "client_messages (map (vo_message k h v) [seq + 1..k - 1]) \<lparr>mbt_count = k - seq - 1,
      vo_object = [Some (partial_object k (seq + 1) h), Some (partial_object k (seq + 1) v)]\<rparr> =
      Some (True, \<lparr>mbt_count = 0, vo_object = [Some h, Some v]\<rparr>)"
      using Suc.hyps(2) Suc.prems(1) less by (intro Suc.hyps(1)) auto
    then show ?thesis using step ne by (simp add: list)
  qed
qed simp

text \<open>C3. The transport of a verification object of fewer than \<open>2 ^ 18\<close> blocks is faithful: at the end of an
  authenticated index scan whose slot carries an object, the server cuts the two byte images into blocks and sends one message per block, and the client that receives these messages in order
  signals completion with the last one and then holds exactly the two byte images.\<close>

theorem vo_transport_roundtrip:
  assumes "palloc_ok pal" "mbt_count c = 0" "0 < hashmap_num sl" "hashmap_num sl < 2 ^ 18" "slot_flag planSlot"
    and "length (slot_hashmap_str sl) = nat (hashmap_num sl) * DEFAULTSIZE"
    and "length (slot_vo_str sl) = nat (hashmap_num sl) * DEFAULTSIZE"
  shows "\<exists>ms. send_vo pal raw True planSlot sl = Inr ms \<and> length ms = nat (hashmap_num sl) \<and>
    client_messages (map snd ms) c =
      Some (True, \<lparr>mbt_count = 0, vo_object = [Some (slot_hashmap_str sl), Some (slot_vo_str sl)]\<rparr>)"
proof -
  let ?ms = "map (\<lambda>c. (85, vo_message (hashmap_num sl) (slot_hashmap_str sl) (slot_vo_str sl) c)) [0..hashmap_num sl - 1]"
  have "send_blocks pal raw sl [0..hashmap_num sl - 1] = Inr ?ms"
    by (rule send_blocks_eq [OF assms(1,6,7,4)]) auto
  then have "send_vo pal raw True planSlot sl = Inr ?ms" using assms(5) by (simp add: send_vo_def)
  moreover have "map snd ?ms = map (vo_message (hashmap_num sl) (slot_hashmap_str sl) (slot_vo_str sl)) [0..hashmap_num sl - 1]"
    by simp
  ultimately show ?thesis
    using client_messages_eq [OF assms(4,6,7), of 0 c] assms(2,3) by (intro exI [of _ ?ms]) (simp add: comp_def)
qed

definition sample_slot :: "nat slot" where
  "sample_slot = \<lparr>slot_tuple = None, hashmap_num = 2, slot_hashmap_str = replicate (2 * 8192) 7,
     slot_vo_str = replicate (2 * 8192) 9, slot_flag = True\<rparr>"

theorem vo_transport_roundtrip_witness:
  "\<exists>ms. send_vo zero_palloc raw_si True sample_slot sample_slot = Inr ms \<and> length ms = 2 \<and>
    client_messages (map snd ms) \<lparr>mbt_count = 0, vo_object = [None, None]\<rparr> =
      Some (True, \<lparr>mbt_count = 0, vo_object = [Some (slot_hashmap_str sample_slot), Some (slot_vo_str sample_slot)]\<rparr>)"
  using vo_transport_roundtrip [of zero_palloc "\<lparr>mbt_count = 0, vo_object = [None, None]\<rparr>" sample_slot sample_slot raw_si]
  by (simp add: palloc_ok_def zero_palloc_def DEFAULTSIZE_def) (simp add: sample_slot_def)

end
