(* ===== verification/MBT_Dump.thy ===== *)
theory MBT_Dump
  imports MBT_Shape
begin

text \<open>
  The debugging output of the tree: \<^verbatim>\<open>bplus_tree_dump\<close> of \<^verbatim>\<open>src/backend/mbt/mbtree.c\<close> and its helpers. What the code
  prints is a list of items; a traversal without recursion keeps the path in an array of
  \<^verbatim>\<open>BPLUS_MAX_LEVEL\<close> entries.
\<close>

datatype printed = PText string | PInt int | PStr "byte list"

definition children :: "heap \<Rightarrow> ptr \<Rightarrow> int option" where
  "children s p = map_option count (get_non_leaf s p)"

definition print_ints :: "string \<Rightarrow> string \<Rightarrow> int list \<Rightarrow> int \<Rightarrow> printed list \<Rightarrow> printed list option" where
  "print_ints pre post arr n =
     for_up 0 n (\<lambda>i out. do { k \<leftarrow> aget arr i; Some (out @ [PText pre, PInt k, PText post]) })"

definition node_key_dump :: "heap \<Rightarrow> ptr \<Rightarrow> printed list option" where
  "node_key_dump s p =
     do { nd \<leftarrow> get_node s p;
          out \<leftarrow> (if is_leaf nd then do { l \<leftarrow> get_leaf s p; print_ints '''' '' '' (lkey l) (count nd) [] }
                  else do { n \<leftarrow> get_non_leaf s p; print_ints '''' '' '' (nkey n) (count nd - 1) [] });
          Some (out @ [PText ''\<newline>'']) }"

definition node_key :: "heap \<Rightarrow> ptr \<Rightarrow> int \<Rightarrow> int option" where
  "node_key s p i =
     do { nd \<leftarrow> get_node s p;
          (if is_leaf nd then do { l \<leftarrow> get_leaf s p; aget (lkey l) i }
           else do { n \<leftarrow> get_non_leaf s p; aget (nkey n) i }) }"

definition key_print64_t :: "heap \<Rightarrow> ptr \<Rightarrow> printed list option" where
  "key_print64_t s p =
     do { nd \<leftarrow> get_node s p;
          (if is_leaf nd then
             do { l \<leftarrow> get_leaf s p;
                  out \<leftarrow> print_ints '' '' '''' (lkey l) (count l) [PText ''leaf:''];
                  out \<leftarrow> for_up 0 (count l)
                    (\<lambda>i out. do { h \<leftarrow> aget (lchildhash l) i;
                                  Some (out @ [PText '' leaf: '', PInt i, PText '', hash: '', PStr (cstr h)]) })
                    (out @ [PText '' hash:'']);
                  Some (out @ [PText '' '', PStr (cstr (lnode_hash l)), PText ''\<newline>'']) }
           else
             do { n \<leftarrow> get_non_leaf s p;
                  out \<leftarrow> print_ints '' '' '''' (nkey n) (count n - 1) [PText ''node:''];
                  Some (out @ [PText '' hash:'', PText '' '', PStr (cstr (nnode_hash n)), PText ''\<newline>'']) }) }"

text \<open>\<^verbatim>\<open>struct node_backlog\<close>: a node and the index of its next child, or nothing to come back to.\<close>

record node_backlog =
  bl_node :: "ptr option"
  next_sub_idx :: int

record dump_state =
  cur :: "ptr option"
  p_nbl :: "node_backlog option"
  nbl_stack :: "node_backlog list"
  top :: int
  dlevel :: int
  out :: "printed list"
  drawn :: "ptr list"

text \<open>The indentation in front of a node; \<open>drawn\<close> records the nodes drawn, in order.\<close>

definition draw_node :: "heap \<Rightarrow> ptr \<Rightarrow> dump_state \<Rightarrow> dump_state option" where
  "draw_node s p d =
     do { o1 \<leftarrow> for_up 1 (dlevel d)
            (\<lambda>i o1. if i = dlevel d - 1 then Some (o1 @ [PText ''+-------''])
                    else do { b \<leftarrow> aget (nbl_stack d) (i - 1);
                              Some (o1 @ [PText (if bl_node b \<noteq> None then ''|       '' else ''        '')]) })
            (out d);
          o2 \<leftarrow> key_print64_t s p;
          Some (d\<lparr>out := o1 @ o2, drawn := drawn d @ [p]\<rparr>) }"

text \<open>One turn of the loop; the inner \<open>None\<close> is the end of the traversal.\<close>

definition dump_step :: "heap \<Rightarrow> dump_state \<Rightarrow> dump_state option option" where
  "dump_step s d =
     (case cur d of
        Some p \<Rightarrow>
          do { let sub_idx = (case p_nbl d of None \<Rightarrow> 0 | Some b \<Rightarrow> next_sub_idx b);
               nd \<leftarrow> get_node s p;
               fin \<leftarrow> (if is_leaf nd then Some True else do { c \<leftarrow> children s p; Some (sub_idx + 1 \<ge> c) });
               stack \<leftarrow> aput (nbl_stack d) (top d)
                 (if fin then \<lparr>bl_node = None, next_sub_idx = 0\<rparr>
                  else \<lparr>bl_node = Some p, next_sub_idx = sub_idx + 1\<rparr>);
               let d = d\<lparr>p_nbl := None, nbl_stack := stack, top := top d + 1, dlevel := dlevel d + 1\<rparr>;
               d \<leftarrow> (if sub_idx = 0 then draw_node s p d else Some d);
               c \<leftarrow> (if is_leaf nd then Some None
                     else do { n \<leftarrow> get_non_leaf s p; aget (sub_ptr n) sub_idx });
               Some (Some (d\<lparr>cur := c\<rparr>)) }
      | None \<Rightarrow>
          (if top d = 0 then Some None
           else do { b \<leftarrow> aget (nbl_stack d) (top d - 1);
                     Some (Some (d\<lparr>p_nbl := Some b, top := top d - 1, cur := bl_node b,
                                   dlevel := dlevel d - 1\<rparr>)) }))"

text \<open>The loop, with fuel for the number of turns.\<close>

primrec dump_loop :: "nat \<Rightarrow> heap \<Rightarrow> dump_state \<Rightarrow> dump_state option" where
  "dump_loop 0 s d = None"
| "dump_loop (Suc fuel) s d =
     do { r \<leftarrow> dump_step s d; (case r of None \<Rightarrow> Some d | Some d' \<Rightarrow> dump_loop fuel s d') }"

definition bplus_tree_dump :: "nat \<Rightarrow> node_backlog list \<Rightarrow> heap \<Rightarrow> dump_state option" where
  "bplus_tree_dump fuel raw_stack s = dump_loop fuel s
     \<lparr>cur = root (tree s), p_nbl = None, nbl_stack = raw_stack, top = 0, dlevel = 0, out = [], drawn = []\<rparr>"

end
