(* ===== verification/Spec2Isabelle.thy ===== *)
theory Spec2Isabelle
  imports PgVector HashFunc MBT_Keys MBT_Lookup MBT_Scan MBT_Wire MBT_Dump
begin

text \<open>
  Blockchain PG: the authenticated index of a PostgreSQL fork.

  The program adds to PostgreSQL 8.4 an index whose answers a client can check. The index is a B+ tree
  with a Merkle hash in every node. A range query returns, next to the rows, a verification object: the
  hashes to the left and to the right of the result along two paths of the tree. The server sends the
  object behind the rows; the client hashes the rows it got, adds the hashes of the object and compares
  the result with the hash of the root.

  \<^bold>\<open>Parts and theories\<close>

  Paths are relative to \<^verbatim>\<open>src/\<close>. The order is the order of the imports.

  \<^item> \<open>MBT_Prelude\<close>: bytes, C strings, copies into blocks of fixed size, the byte images of the integer
    types, the wrap-around of \<^verbatim>\<open>int\<close> and \<^verbatim>\<open>size_t\<close>, and the two loop forms \<open>for_up\<close> and \<open>for_down\<close>.
  \<^item> \<open>Hashmap\<close> (\<^verbatim>\<open>src/backend/mbt/hashmap.c\<close>): the chained map of numbers; it refines a finite map.
  \<^item> \<open>PgVector\<close> (\<^verbatim>\<open>src/backend/mbt/pgvector.c\<close>): the growable array over a block of bytes; it refines a list.
  \<^item> \<open>Sha256\<close> (\<^verbatim>\<open>src/backend/mbt/sha256.c\<close>): the hash on 32-bit words, equal to the specification of the
    standard, and the streaming interface.
  \<^item> \<open>MBT_Node\<close> (\<^verbatim>\<open>src/include/mbt/mbtree.h\<close>, \<^verbatim>\<open>src/backend/mbt/mbtree.c\<close>): the structures of the nodes, the
    heap, the circular lists of the levels, constructors and destructors.
  \<^item> \<open>MBT_Search\<close>, \<open>MBT_Insert\<close>, \<open>MBT_Delete\<close> (\<^verbatim>\<open>mbtree.c\<close>): \<^verbatim>\<open>key_binary_search\<close>, \<^verbatim>\<open>bplus_tree_search\<close>,
    \<^verbatim>\<open>bplus_tree_insert\<close> with all splits, and \<^verbatim>\<open>bplus_tree_delete\<close> with borrowing and merging.
  \<^item> \<open>MBT_Shape\<close>, \<open>MBT_Loops\<close>: no code of their own. The first says when a heap holds a B+ tree
    (\<open>tree_rep\<close>) and how single writes act on it, the second gives the effect of the loops of insertion.
  \<^item> \<open>MBT_Grow\<close>, \<open>MBT_Context\<close>, \<open>MBT_Inserted\<close>, \<open>MBT_Ascent\<close>, \<open>MBT_Insertion\<close>: no code of their own. They carry the
    correctness of \<^verbatim>\<open>bplus_tree_insert\<close>: a tree in which one node is still missing on its level (\<open>growing\<close>), the
    path from a node to the root as a context, a node and its new sibling in the lists of the heap, the way
    up through \<^verbatim>\<open>parent_node_build\<close> and \<^verbatim>\<open>non_leaf_insert\<close>, and the leaf at the bottom.
  \<^item> \<open>MBT_Keys\<close>: insertion as insertion into a set of keys, runs of insertions into a new tree, the height of
    the result and the types of its nodes.
  \<^item> \<open>MBT_Codec\<close> (\<^verbatim>\<open>mbtree.c\<close>): the page images of the nodes.
  \<^item> \<open>MBT_Hash\<close> (\<^verbatim>\<open>src/backend/mbt/vibuilder.c\<close>): \<^verbatim>\<open>hashcompute\<close>.
  \<^item> \<open>MBT_Lookup\<close>: no code of its own. What \<^verbatim>\<open>bplus_tree_search\<close> answers on a tree with inner nodes, and that
    it leaves no tree behind.
  \<^item> \<open>MBT_Store\<close> (\<^verbatim>\<open>mbtree.c\<close>): the numbers of the nodes (\<^verbatim>\<open>set_node_id\<close>) and the tree file
    (\<^verbatim>\<open>bplus_tree_store\<close>).
  \<^item> \<open>MBT_Vo\<close>, \<open>MBT_Query\<close> (\<^verbatim>\<open>mbtree.c\<close>): verification objects, their byte images, \<^verbatim>\<open>reconstruct_root\<close>, and the
    query \<^verbatim>\<open>bplus_tree_get_range_disk_vo\<close> that makes them.
  \<^item> \<open>MBT_VoCodec\<close>: no code of its own. The byte images of verification objects and of the maps of child
    numbers are read back as they were written.
  \<^item> \<open>MBT_Access\<close> (\<^verbatim>\<open>src/backend/access/mbtree/mbtree.c\<close>, \<^verbatim>\<open>src/backend/executor/\<close>): build, insertion and
    query through the index access method, and the executor node that returns rows and object.
  \<^item> \<open>MBT_Scan\<close>: no code of its own. A whole scan of the executor, the items a query keeps, the scan for a
    closed interval, which never returns, and the rows whose text fits.
  \<^item> \<open>StringInfo\<close> (\<^verbatim>\<open>src/backend/lib/stringinfo.c\<close>): the message buffers of the server.
  \<^item> \<open>MBT_Wire\<close> (\<^verbatim>\<open>printtup.c\<close>, \<^verbatim>\<open>execMain.c\<close>, \<^verbatim>\<open>pqformat.c\<close> and \<^verbatim>\<open>src/interfaces/libpq/\<close>): the messages that
    carry a verification object, their reassembly and the check of the client.
  \<^item> \<open>MBT_Dump\<close> (\<^verbatim>\<open>mbtree.c\<close>): the debugging output of a tree.
  \<^item> \<open>HashFunc\<close> (\<^verbatim>\<open>src/backend/access/hash/hashfunc.c\<close>, \<^verbatim>\<open>src/backend/utils/hash/hashfn.c\<close>): the hash functions of
    PostgreSQL's data types and hash tables, on 32-bit words; both paths of \<^verbatim>\<open>hash_any\<close> agree, its mixing step
    is reversible, and integers of different widths hash alike.

  \<^bold>\<open>How the code is modelled\<close>

  \<^item> A fault of C (a read or write outside a block, a null or dangling pointer, an assertion that fails,
    the value of an uninitialised result) is \<open>None\<close>; otherwise an operation returns its result and the
    objects it changed. Errors that PostgreSQL raises are the left side of a sum (\<open>StringInfo\<close>).
  \<^item> Nodes live in a heap of addresses, since the code changes parents, children and list neighbours
    through pointers; leaves share item pointers, which are a second store.
  \<^item> Memory the code does not set is an argument or a field named \<open>raw\<close>; no statement depends on it.
  \<^item> \<^verbatim>\<open>int64_t\<close> and \<^verbatim>\<open>int\<close> are integers, with their bounds in the statements that need them; the words of
    the hash and the fields of item pointers have their width. Where a count or a size can leave its type,
    the result is reduced: \<open>int32\<close> for \<^verbatim>\<open>int\<close> (the build passes \<^verbatim>\<open>-fwrapv\<close>, \<^verbatim>\<open>Makefile.global\<close>), \<open>size_t\<close> for the
    sizes and offsets of vectors.
  \<^item> The allocator of the vectors is an argument that may refuse a request; the statements assume that it
    grants requests up to a limit below \<open>2 ^ 63\<close>. Allocations of the map, the tree, the executor and the
    client succeed, except for a negative size.
  \<^item> Three places push the address of a pointer to a vector with larger elements, which copies memory
    behind the pointer. The argument \<open>beyond\<close> says whether such a read is possible; where it is not, the push
    is a fault. What is read there is never used: the code reads the pointer back from the element.
  \<^item> Loops that end by counting are \<open>for_up\<close>, \<open>for_down\<close> or a function with its measure. A descent has
    the fuel \<open>descent_fuel\<close> and the way up of an insertion \<open>ascent_fuel\<close>: the array of levels has ten
    entries, so that a longer path would be a fault before. Where a loop follows a list of the heap the
    fuel is an argument and the statements say how much is enough.

  \<^bold>\<open>Interfaces\<close>

  Locales state what one part relies on: the laws of a finite map (\<open>kv_store\<close>, interpreted in \<open>Hashmap\<close>), of a
  growable sequence and of an allocator (\<open>growable_seq\<close> and \<open>allocator\<close>, interpreted in \<open>PgVector\<close>), and of a hash of
  fixed length (\<open>digest\<close>, interpreted in \<open>MBT_Hash\<close>). Each is interpreted on the definitions that model the code.

  \<^bold>\<open>Not modelled\<close>

  \<^item> PostgreSQL itself: parser, planner, storage, transactions and the rest of the protocol. The code only
    passes through them; heap tuples and the output functions of types are parameters.
  \<^item> Input and output: the tree file is its contents, messages are byte strings, and printing is a list of
    what is printed. The trace output between the steps of the other operations is left out.
  \<^item> Freeing of memory, and the interleaving of the two threads of the client: the code lets both add to one
    map without a lock, the model runs one after the other.
  \<^item> The hashes of floating-point values and the paths of \<^verbatim>\<open>hash_any\<close> for big-endian machines.
  \<^item> The query functions that are commented out in \<^verbatim>\<open>vibuilder.c\<close> and \<^verbatim>\<open>mbtree.c\<close>.
\<close>

end
